(* ===== verification/Prelude.thy ===== *)
theory Prelude
  imports Main "HOL-Library.Word" "HOL-Library.Signed_Division"
begin

text \<open>
  Shared vocabulary of the development: the machine types of the LP64 Linux target, the outcome
  type of a C call, checked signed arithmetic, byte blocks with bounds-checked access, little-endian
  fields, C strings, and the generic list and word lemmas the component theories rest on.

  \<^item> \<open>int\<close>/\<open>long\<close>/\<open>ssize_t\<close>/\<open>time_t\<close> are signed: they are modelled by \<open>int\<close>; a result that
    leaves the range of its type is a \<open>Signed_Overflow\<close> fault (C leaves it undefined).
  \<^item> \<open>unsigned\<close>, \<open>size_t\<close>, \<open>uint_fast16_t\<close> and the \<open>uintN_t\<close> types are words and wrap around;
    \<open>uint_fast16_t\<close> is 64 bits wide on this target.
  \<^item> A pointer into an array is the array (a byte block) with an offset; an access outside the block
    is a \<open>Bad_Access\<close> fault.
  \<^item> \<open>assert()\<close> that fails is an \<open>Assert_Fail\<close> fault.
\<close>

unbundle bit_operations_syntax

subsection \<open>Machine types and constants\<close>

type_synonym byte = "8 word"
type_synonym u16 = "16 word"
type_synonym u32 = "32 word"
type_synonym u64 = "64 word"

abbreviation LONG_MAX :: int where "LONG_MAX \<equiv> 9223372036854775807"
abbreviation LONG_MIN :: int where "LONG_MIN \<equiv> - 9223372036854775808"
abbreviation INT_MAX :: int where "INT_MAX \<equiv> 2147483647"
abbreviation INT_MIN :: int where "INT_MIN \<equiv> - 2147483648"

abbreviation (input) ESRCH :: int where "ESRCH \<equiv> 3"
abbreviation (input) EINTR :: int where "EINTR \<equiv> 4"
abbreviation (input) EAGAIN :: int where "EAGAIN \<equiv> 11"
abbreviation (input) EINVAL :: int where "EINVAL \<equiv> 22"
abbreviation (input) ENOSPC :: int where "ENOSPC \<equiv> 28"
abbreviation (input) ERANGE :: int where "ERANGE \<equiv> 34"
abbreviation (input) EOPNOTSUPP :: int where "EOPNOTSUPP \<equiv> 95"
abbreviation (input) EINPROGRESS :: int where "EINPROGRESS \<equiv> 115"
abbreviation (input) ENOBUFS :: int where "ENOBUFS \<equiv> 105"

text \<open>
  Collections the component theories extend: \<open>run_simps\<close> unfolds outcomes, \<open>mem_simps\<close> reads and
  writes byte blocks.
\<close>

named_theorems run_simps
named_theorems mem_simps

subsection \<open>Outcomes of a C call\<close>

datatype fault = Signed_Overflow | Bad_Access | Null_Deref | Assert_Fail | Bad_Shift | Bad_Convert

type_synonym 'a exec = "fault + 'a"

definition ebind :: "'a exec \<Rightarrow> ('a \<Rightarrow> 'b exec) \<Rightarrow> 'b exec" where
  "ebind m f = (case m of Inl e \<Rightarrow> Inl e | Inr x \<Rightarrow> f x)"

lemma ebind_Inl [simp, run_simps]: "ebind (Inl e) f = Inl e"
  by (simp add: ebind_def)

lemma ebind_Inr [simp, run_simps]: "ebind (Inr x) f = f x"
  by (simp add: ebind_def)

lemma ebind_eq_Inr [run_simps]: "ebind m f = Inr y \<longleftrightarrow> (\<exists>x. m = Inr x \<and> f x = Inr y)"
  by (cases m) auto

lemma ebind_assoc: "ebind (ebind m f) g = ebind m (\<lambda>x. ebind (f x) g)"
  by (cases m) auto

lemma ebind_cong [fundef_cong]:
  "m = m' \<Longrightarrow> (\<And>x. m' = Inr x \<Longrightarrow> f x = f' x) \<Longrightarrow> ebind m f = ebind m' f'"
  by (cases m') auto

text \<open>A guard: continue when \<open>b\<close> holds, stop with the fault otherwise.\<close>

definition chk :: "fault \<Rightarrow> bool \<Rightarrow> 'a exec \<Rightarrow> 'a exec" where
  "chk e b m = (if b then m else Inl e)"

lemma chk_True [simp, run_simps]: "b \<Longrightarrow> chk e b m = m"
  by (simp add: chk_def)

lemma chk_False [simp, run_simps]: "\<not> b \<Longrightarrow> chk e b m = Inl e"
  by (simp add: chk_def)

lemma chk_eq_Inr [run_simps]: "chk e b m = Inr x \<longleftrightarrow> b \<and> m = Inr x"
  by (simp add: chk_def)

subsection \<open>Checked signed arithmetic\<close>

definition as_long :: "int \<Rightarrow> int exec" where
  "as_long x = chk Signed_Overflow (LONG_MIN \<le> x \<and> x \<le> LONG_MAX) (Inr x)"

lemma as_long_Inr [simp, run_simps]: "LONG_MIN \<le> x \<Longrightarrow> x \<le> LONG_MAX \<Longrightarrow> as_long x = Inr x"
  by (simp add: as_long_def)

lemma as_long_eq_Inr: "as_long x = Inr y \<longleftrightarrow> LONG_MIN \<le> x \<and> x \<le> LONG_MAX \<and> y = x"
  by (auto simp: as_long_def chk_eq_Inr)

text \<open>The narrowing conversions to a signed type keep the low bits, as the compilers do.\<close>

definition int_cast :: "int \<Rightarrow> int" where
  "int_cast x = signed_take_bit 31 x"

definition long_cast :: "int \<Rightarrow> int" where
  "long_cast x = signed_take_bit 63 x"

lemma int_cast_id [simp]: "INT_MIN \<le> x \<Longrightarrow> x \<le> INT_MAX \<Longrightarrow> int_cast x = x"
  unfolding int_cast_def by (rule signed_take_bit_int_eq_self) simp_all

lemma long_cast_id [simp]: "LONG_MIN \<le> x \<Longrightarrow> x \<le> LONG_MAX \<Longrightarrow> long_cast x = x"
  unfolding long_cast_def by (rule signed_take_bit_int_eq_self) simp_all

text \<open>C division of \<open>long\<close> by a positive constant truncates towards zero.\<close>

lemma sdiv_nonneg: "0 \<le> (a :: int) \<Longrightarrow> 0 < b \<Longrightarrow> a sdiv b = a div b"
  by (cases "a = 0") (simp_all add: signed_divide_int_def)

lemma sdiv_neg: "(a :: int) < 0 \<Longrightarrow> 0 < b \<Longrightarrow> a sdiv b = - ((- a) div b)"
  by (simp add: signed_divide_int_def)

subsection \<open>Words\<close>

lemma unat_minus_le: "b \<le> (a :: 'a::len word) \<Longrightarrow> unat (a - b) = unat a - unat b"
  by (rule unat_sub)

lemma unat_minus_nat: "unat (b :: 'a::len word) \<le> unat a \<Longrightarrow> unat (a - b) = unat a - unat b"
  by (simp add: unat_sub word_le_nat_alt)

lemma unat_plus_nat:
  "unat (a :: 'a::len word) + unat b < 2 ^ LENGTH('a) \<Longrightarrow> unat (a + b) = unat a + unat b"
  by (simp add: unat_add_lem)

lemma unat_of_nat_small [simp]:
  "n < 2 ^ LENGTH('a) \<Longrightarrow> unat (word_of_nat n :: 'a::len word) = n"
  by (simp add: unat_of_nat take_bit_nat_eq_self)

lemma unat_bound: "unat (w :: 'a::len word) < 2 ^ LENGTH('a)"
  by (rule unsigned_less)

lemma unat_byte_less: "unat (b :: byte) < 256"
  using unsigned_less [of b] by simp

subsection \<open>Byte blocks\<close>

definition overwrite :: "nat \<Rightarrow> 'a list \<Rightarrow> 'a list \<Rightarrow> 'a list" where
  "overwrite i xs blk = take i blk @ xs @ drop (i + length xs) blk"

definition mem_put :: "nat \<Rightarrow> 'a list \<Rightarrow> 'a list \<Rightarrow> 'a list exec" where
  "mem_put i xs blk = chk Bad_Access (i + length xs \<le> length blk) (Inr (overwrite i xs blk))"

definition mem_get :: "nat \<Rightarrow> nat \<Rightarrow> 'a list \<Rightarrow> 'a list exec" where
  "mem_get i n blk = chk Bad_Access (i + n \<le> length blk) (Inr (take n (drop i blk)))"

lemma length_overwrite [simp, mem_simps]:
  "i + length xs \<le> length blk \<Longrightarrow> length (overwrite i xs blk) = length blk"
  by (simp add: overwrite_def)

lemma overwrite_Nil [simp, mem_simps]: "overwrite i [] blk = blk"
  by (simp add: overwrite_def)

lemma mem_put_Inr [simp, mem_simps]:
  "i + length xs \<le> length blk \<Longrightarrow> mem_put i xs blk = Inr (overwrite i xs blk)"
  by (simp add: mem_put_def)

lemma mem_put_Inl [simp, mem_simps]:
  "length blk < i + length xs \<Longrightarrow> mem_put i xs blk = Inl Bad_Access"
  by (simp add: mem_put_def)

lemma mem_get_Inr [simp, mem_simps]:
  "i + n \<le> length blk \<Longrightarrow> mem_get i n blk = Inr (take n (drop i blk))"
  by (simp add: mem_get_def)

lemma mem_get_Inl [simp, mem_simps]: "length blk < i + n \<Longrightarrow> mem_get i n blk = Inl Bad_Access"
  by (simp add: mem_get_def)

lemma window_overwrite_same [mem_simps]:
  "i + length xs \<le> length blk \<Longrightarrow> n = length xs \<Longrightarrow> take n (drop i (overwrite i xs blk)) = xs"
  by (simp add: overwrite_def)

lemma window_overwrite_after [mem_simps]:
  "j + n \<le> i \<Longrightarrow> i \<le> length blk \<Longrightarrow> take n (drop j (overwrite i xs blk)) = take n (drop j blk)"
  by (simp add: overwrite_def drop_take)

lemma window_overwrite_before [mem_simps]:
  assumes "i + length xs \<le> j" and "i + length xs \<le> length blk"
  shows "take n (drop j (overwrite i xs blk)) = take n (drop j blk)"
proof -
  have "drop j (overwrite i xs blk) = drop j blk"
    using assms by (simp add: overwrite_def)
  then show ?thesis by simp
qed

lemma window_overwrite_extend [mem_simps]:
  assumes "i + n + length xs \<le> length blk"
  shows "take (n + length xs) (drop i (overwrite (i + n) xs blk)) = take n (drop i blk) @ xs"
proof -
  have "drop i (take (i + n) blk) = take n (drop i blk)"
    by (simp add: drop_take)
  then show ?thesis using assms by (simp add: overwrite_def)
qed

lemma take_overwrite [mem_simps]:
  "n \<le> i \<Longrightarrow> i \<le> length blk \<Longrightarrow> take n (overwrite i xs blk) = take n blk"
  using window_overwrite_after [of 0 n i blk xs] by simp

lemma drop_overwrite [mem_simps]:
  "i + length xs \<le> j \<Longrightarrow> i + length xs \<le> length blk \<Longrightarrow> drop j (overwrite i xs blk) = drop j blk"
  by (simp add: overwrite_def)

lemma takeWhile_False [simp]: "takeWhile (\<lambda>_. False) xs = []"
  by (cases xs) auto

lemma window_window: "m \<le> n \<Longrightarrow> take m (take n (drop i xs)) = take m (drop i xs)"
  by simp

subsection \<open>C strings\<close>

text \<open>
  \<open>strlen\<close> on a block: the offset of the first NUL; a block without one is read past its end.
\<close>

fun strlen :: "byte list \<Rightarrow> nat exec" where
  "strlen [] = Inl Bad_Access"
| "strlen (c # cs) = (if c = 0 then Inr 0 else ebind (strlen cs) (\<lambda>n. Inr (Suc n)))"

definition cstring :: "byte list \<Rightarrow> byte list" where
  "cstring s = s @ [0]"

lemma strlen_cstring [simp]: "0 \<notin> set s \<Longrightarrow> strlen (s @ 0 # rest) = Inr (length s)"
  by (induction s) auto

lemma strlen_Inr: "strlen blk = Inr n \<longleftrightarrow> n < length blk \<and> blk ! n = 0 \<and> (\<forall>i < n. blk ! i \<noteq> 0)"
proof (induction blk arbitrary: n)
  case (Cons c cs)
  show ?case
    by (cases n) (auto simp: Cons.IH ebind_eq_Inr All_less_Suc2 split: if_splits)
qed simp

subsection \<open>Little-endian fields\<close>

fun le_enc :: "nat \<Rightarrow> nat \<Rightarrow> byte list" where
  "le_enc 0 v = []"
| "le_enc (Suc n) v = word_of_nat (v mod 256) # le_enc n (v div 256)"

fun le_dec :: "byte list \<Rightarrow> nat" where
  "le_dec [] = 0"
| "le_dec (b # bs) = unat b + 256 * le_dec bs"

lemma length_le_enc [simp]: "length (le_enc n v) = n"
  by (induction n arbitrary: v) auto

lemma le_dec_enc: "le_dec (le_enc n v) = v mod 256 ^ n"
proof (induction n arbitrary: v)
  case (Suc n)
  have "v mod 256 + 256 * (v div 256 mod 256 ^ n) = v mod (256 * 256 ^ n)"
    by (simp add: mod_mult2_eq)
  with Suc show ?case by simp
qed simp

lemma le_dec_enc_id [simp]: "v < 256 ^ n \<Longrightarrow> le_dec (le_enc n v) = v"
  by (simp add: le_dec_enc)

lemma le_dec_bound: "le_dec bs < 256 ^ length bs"
proof (induction bs)
  case (Cons b bs)
  have "unat b < 256" by (rule unat_byte_less)
  with Cons show ?case by simp
qed simp

lemma le_enc_dec [simp]: "le_enc (length bs) (le_dec bs) = bs"
proof (induction bs)
  case (Cons b bs)
  have "unat b < 256" by (rule unat_byte_less)
  with Cons show ?case by simp
qed simp

subsection \<open>Fields in a block\<close>

definition get_le :: "nat \<Rightarrow> byte list \<Rightarrow> nat \<Rightarrow> nat exec" where
  "get_le n m p = ebind (mem_get p n m) (\<lambda>b. Inr (le_dec b))"

definition put_le :: "nat \<Rightarrow> byte list \<Rightarrow> nat \<Rightarrow> nat \<Rightarrow> byte list exec" where
  "put_le n m p v = mem_put p (le_enc n v) m"

lemma mem_get_disjoint [mem_simps]:
  assumes "i + length xs \<le> length m" and "j + n \<le> i \<or> i + length xs \<le> j"
  shows "mem_get j n (overwrite i xs m) = mem_get j n m"
  using assms(2)
proof
  assume "j + n \<le> i"
  then show ?thesis using assms(1) by (simp add: mem_get_def window_overwrite_after)
next
  assume "i + length xs \<le> j"
  then show ?thesis using assms(1) by (simp add: mem_get_def window_overwrite_before)
qed

lemma get_le_disjoint [mem_simps]:
  "i + length xs \<le> length m \<Longrightarrow> j + n \<le> i \<or> i + length xs \<le> j \<Longrightarrow>
   get_le n (overwrite i xs m) j = get_le n m j"
  by (simp add: get_le_def mem_get_disjoint)

lemma get_le_same [mem_simps]:
  "p + n \<le> length m \<Longrightarrow> v < 256 ^ n \<Longrightarrow> get_le n (overwrite p (le_enc n v) m) p = Inr v"
  by (simp add: get_le_def window_overwrite_same)

lemma mem_get_same [mem_simps]:
  "p + length x \<le> length m \<Longrightarrow> n = length x \<Longrightarrow> mem_get p n (overwrite p x m) = Inr x"
  by (simp add: window_overwrite_same)

lemma put_le_Inr [simp, mem_simps]:
  "p + n \<le> length m \<Longrightarrow> put_le n m p v = Inr (overwrite p (le_enc n v) m)"
  by (simp add: put_le_def)

lemma get_le_bound: "get_le n m p = Inr v \<Longrightarrow> v < 256 ^ n \<and> p + n \<le> length m"
  using le_dec_bound [of "take n (drop p m)"]
  by (auto simp: get_le_def mem_get_def ebind_eq_Inr chk_eq_Inr)

end
