(* ===== verification/Common.thy ===== *)
theory Common
  imports Prelude
begin

text \<open>
  The macros of \<^verbatim>\<open>include/sancus/common.h\<close> that compute. The branch hints have the value of a compiler with
  \<open>__builtin_expect\<close>: 0 or 1, whichever way they lean. \<open>container_of\<close> works on addresses; the event
  callbacks use it to come from the watcher the loop hands them back to the object the watcher is a
  member of. The models of these callbacks take the object itself, which the lemmas here justify: the
  watcher of an object leads to it and to no other.
\<close>

definition likely :: "int \<Rightarrow> int" where
  "likely e = (if e \<noteq> 0 then 1 else 0)"

definition unlikely :: "int \<Rightarrow> int" where
  "unlikely e = (if e \<noteq> 0 then 1 else 0)"

text \<open>The size of the array over the size of an element, both in bytes.\<close>

definition ARRAY_SIZE :: "nat \<Rightarrow> 'a list \<Rightarrow> nat" where
  "ARRAY_SIZE elem A = (length A * elem) div elem"

definition container_of :: "u64 \<Rightarrow> u64 \<Rightarrow> u64" where
  "container_of P off = P - off"

text \<open>The address of a member at an offset.\<close>

definition member_at :: "u64 \<Rightarrow> u64 \<Rightarrow> u64" where
  "member_at obj off = obj + off"

lemma likely_iff: "likely e \<noteq> 0 \<longleftrightarrow> e \<noteq> 0" "unlikely e \<noteq> 0 \<longleftrightarrow> e \<noteq> 0"
  by (simp_all add: likely_def unlikely_def)

lemma ARRAY_SIZE_length: "0 < elem \<Longrightarrow> ARRAY_SIZE elem A = length A"
  by (simp add: ARRAY_SIZE_def)

lemma container_of_member: "container_of (member_at obj off) off = obj"
  by (simp add: container_of_def member_at_def)

lemma container_of_unique: "container_of (member_at a off) off = container_of (member_at b off) off \<longleftrightarrow> a = b"
  by (simp add: container_of_member)

end
