(* ===== verification/Time.thy ===== *)
theory Time
  imports Prelude
begin

text \<open>
  Signed durations: \<^verbatim>\<open>include/sancus/time.h\<close> and \<^verbatim>\<open>src/sancus/time.c\<close>, but for the conversions
  from and to \<open>double\<close>, which are in \<open>Time_Fp\<close>. A \<open>struct timespec\<close> is a record of two \<open>long\<close>s. The library's canonical
  form is sign and magnitude: the sign is carried by \<open>tv_sec\<close> unless it is zero, and then by
  \<open>tv_nsec\<close>. \<open>tv_value\<close> is the duration in nanoseconds such a value stands for.
\<close>

subsection \<open>Data and unit conversions\<close>

record timespec =
  tv_sec :: int
  tv_nsec :: int

text \<open>
  The unit macros. A product that fits in \<open>long\<close> has intermediate products that fit as well, so
  the overflow check of a use is made once, on the whole product.
\<close>

definition SEC_TO_MS :: "int \<Rightarrow> int" where "SEC_TO_MS S = 1000 * S"
definition SEC_TO_US :: "int \<Rightarrow> int" where "SEC_TO_US S = 1000 * SEC_TO_MS S"
definition SEC_TO_NS :: "int \<Rightarrow> int" where "SEC_TO_NS S = 1000 * SEC_TO_US S"

definition MS_TO_US :: "int \<Rightarrow> int" where "MS_TO_US MS = 1000 * MS"
definition MS_TO_NS :: "int \<Rightarrow> int" where "MS_TO_NS MS = 1000 * MS_TO_US MS"
definition MS_TO_SEC :: "int \<Rightarrow> int" where "MS_TO_SEC MS = MS sdiv SEC_TO_MS 1"

definition US_TO_NS :: "int \<Rightarrow> int" where "US_TO_NS US = 1000 * US"
definition US_TO_MS :: "int \<Rightarrow> int" where "US_TO_MS US = US sdiv MS_TO_US 1"
definition US_TO_SEC :: "int \<Rightarrow> int" where "US_TO_SEC US = US sdiv SEC_TO_US 1"

definition NS_TO_MS :: "int \<Rightarrow> int" where "NS_TO_MS NS = NS sdiv MS_TO_NS 1"
definition NS_TO_US :: "int \<Rightarrow> int" where "NS_TO_US NS = NS sdiv MS_TO_US 1"
definition NS_TO_SEC :: "int \<Rightarrow> int" where "NS_TO_SEC NS = NS sdiv SEC_TO_NS 1"

definition NS_TO_MS_ROUNDED :: "int \<Rightarrow> int exec" where
  "NS_TO_MS_ROUNDED NS =
     ebind (as_long (NS + MS_TO_NS 1 sdiv 2)) (\<lambda>x. Inr (x sdiv MS_TO_NS 1))"

lemmas unit_defs = SEC_TO_MS_def SEC_TO_US_def SEC_TO_NS_def MS_TO_US_def MS_TO_NS_def
  MS_TO_SEC_def US_TO_NS_def US_TO_MS_def US_TO_SEC_def NS_TO_MS_def NS_TO_US_def NS_TO_SEC_def

definition TIMESPEC_INIT :: "int \<Rightarrow> int \<Rightarrow> timespec" where
  "TIMESPEC_INIT S NS = \<lparr>tv_sec = S, tv_nsec = NS\<rparr>"

definition TIMESPEC_INIT_MS :: "int \<Rightarrow> int \<Rightarrow> timespec exec" where
  "TIMESPEC_INIT_MS S MS = ebind (as_long (MS_TO_NS MS)) (\<lambda>ns. Inr (TIMESPEC_INIT S ns))"

text \<open>The three arguments the print formats take: the sign, the seconds, the fraction.\<close>

definition TIMESPEC_SPLIT :: "timespec \<Rightarrow> string \<times> int \<times> int" where
  "TIMESPEC_SPLIT A =
     ((if tv_nsec A < 0 then ''-'' else ''''), tv_sec A,
      (if tv_nsec A < 0 then - tv_nsec A else tv_nsec A))"

definition TIMESPEC_SPLIT_MS :: "timespec \<Rightarrow> string \<times> int \<times> int" where
  "TIMESPEC_SPLIT_MS A =
     ((if tv_nsec A < 0 then ''-'' else ''''), tv_sec A,
      NS_TO_MS (if tv_nsec A < 0 then - tv_nsec A else tv_nsec A))"

definition sancus_time_ts_to_ms :: "timespec \<Rightarrow> int exec" where
  "sancus_time_ts_to_ms ts =
     (if tv_sec ts \<le> LONG_MIN sdiv SEC_TO_MS 1 then Inr LONG_MIN
      else if tv_sec ts \<ge> LONG_MAX sdiv SEC_TO_MS 1 then Inr LONG_MAX
      else if tv_sec ts < 0 then
        ebind (as_long (SEC_TO_MS (tv_sec ts))) (\<lambda>s.
        ebind (NS_TO_MS_ROUNDED (tv_nsec ts)) (\<lambda>r. as_long (s - r)))
      else
        ebind (as_long (SEC_TO_MS (tv_sec ts))) (\<lambda>s.
        ebind (NS_TO_MS_ROUNDED (tv_nsec ts)) (\<lambda>r. as_long (s + r))))"

subsection \<open>Sign and comparison\<close>

definition sancus_time_neg :: "timespec \<Rightarrow> timespec exec" where
  "sancus_time_neg a =
     (if tv_sec a = 0 then ebind (as_long (- tv_nsec a)) (\<lambda>n. Inr (a\<lparr>tv_nsec := n\<rparr>))
      else ebind (as_long (- tv_sec a)) (\<lambda>s. Inr (a\<lparr>tv_sec := s\<rparr>)))"

definition sancus_time_cmp :: "timespec \<Rightarrow> timespec \<Rightarrow> int exec" where
  "sancus_time_cmp a b =
     ebind (as_long (tv_sec a - tv_sec b)) (\<lambda>ret.
       if ret = 0 then
         if tv_sec a < 0
         then ebind (as_long (tv_nsec b - tv_nsec a)) (\<lambda>r. Inr (int_cast r))
         else ebind (as_long (tv_nsec a - tv_nsec b)) (\<lambda>r. Inr (int_cast r))
       else Inr (int_cast ret))"

definition sancus_time_is_eq :: "timespec \<Rightarrow> timespec \<Rightarrow> bool" where
  "sancus_time_is_eq a b = (tv_sec a = tv_sec b \<and> tv_nsec a = tv_nsec b)"

definition sancus_time_is_zero :: "timespec \<Rightarrow> bool" where
  "sancus_time_is_zero a = (tv_sec a = 0 \<and> tv_nsec a = 0)"

definition sancus_time_is_lt :: "timespec \<Rightarrow> timespec \<Rightarrow> bool exec" where
  "sancus_time_is_lt a b = ebind (sancus_time_cmp a b) (\<lambda>r. Inr (r < 0))"

definition sancus_time_is_lt_zero :: "timespec \<Rightarrow> bool" where
  "sancus_time_is_lt_zero a = (tv_sec a < 0 \<or> tv_nsec a < 0)"

definition sancus_time_is_gt :: "timespec \<Rightarrow> timespec \<Rightarrow> bool exec" where
  "sancus_time_is_gt a b = ebind (sancus_time_cmp a b) (\<lambda>r. Inr (r > 0))"

definition sancus_time_is_gt_zero :: "timespec \<Rightarrow> bool" where
  "sancus_time_is_gt_zero a = (tv_sec a > 0 \<and> tv_nsec a > 0)"

subsection \<open>Normalisation, addition, subtraction\<close>

text \<open>The answer of \<open>sancus_time_fix\<close>: negative, zero or positive.\<close>

definition time_fix_sign :: "timespec \<Rightarrow> int" where
  "time_fix_sign ts =
     (if tv_sec ts < 0 \<or> tv_nsec ts < 0 then -1
      else if tv_sec ts = 0 \<and> tv_nsec ts = 0 then 0 else 1)"

definition sancus_time_fix :: "timespec \<Rightarrow> (int \<times> timespec) exec" where
  "sancus_time_fix ts =
     (let d = tv_nsec ts sdiv SEC_TO_NS 1 in
      ebind
        (if d > 0 then
           ebind (as_long (tv_sec ts + d)) (\<lambda>s.
           ebind (as_long (SEC_TO_NS d)) (\<lambda>dn.
           ebind (as_long (tv_nsec ts - dn)) (\<lambda>n. Inr \<lparr>tv_sec = s, tv_nsec = n\<rparr>)))
         else if tv_nsec ts < 0 then
           ebind (as_long (- d + 1)) (\<lambda>d.
             if d \<noteq> 1 \<or> tv_sec ts \<noteq> 0 then
               ebind (as_long (tv_sec ts - d)) (\<lambda>s.
               ebind (as_long (SEC_TO_NS d)) (\<lambda>dn.
               ebind (as_long (tv_nsec ts + dn)) (\<lambda>n. Inr \<lparr>tv_sec = s, tv_nsec = n\<rparr>)))
             else Inr ts)
         else Inr ts)
        (\<lambda>ts'. Inr (time_fix_sign ts', ts')))"

definition sancus_time_new :: "int \<Rightarrow> int \<Rightarrow> timespec exec" where
  "sancus_time_new sec ns =
     ebind (sancus_time_fix \<lparr>tv_sec = sec, tv_nsec = ns\<rparr>) (\<lambda>(_, ts). Inr ts)"

definition sancus_time_new_ms :: "int \<Rightarrow> timespec exec" where
  "sancus_time_new_ms ms =
     ebind (TIMESPEC_INIT_MS 0 ms) (\<lambda>ts. ebind (sancus_time_fix ts) (\<lambda>(_, ts). Inr ts))"

definition time_add :: "timespec \<Rightarrow> timespec \<Rightarrow> (int \<times> timespec) exec" where
  "time_add a b =
     (if (tv_sec a < 0) \<noteq> (tv_sec b < 0) then
        ebind (as_long (tv_sec a + tv_sec b)) (\<lambda>s.
        ebind (as_long (tv_nsec a - tv_nsec b)) (\<lambda>n.
          if n < 0 then
            ebind (as_long (1 - n sdiv SEC_TO_NS 1)) (\<lambda>d.
            ebind (as_long (SEC_TO_NS d)) (\<lambda>dn.
            ebind (as_long (n + dn)) (\<lambda>n'.
              if s = - d then
                ebind (as_long (n' * -1)) (\<lambda>m. sancus_time_fix \<lparr>tv_sec = 0, tv_nsec = m\<rparr>)
              else if s \<ge> d then
                ebind (as_long (s - d)) (\<lambda>s'. sancus_time_fix \<lparr>tv_sec = s', tv_nsec = n'\<rparr>)
              else
                ebind (as_long (s + d)) (\<lambda>s'. sancus_time_fix \<lparr>tv_sec = s', tv_nsec = n'\<rparr>))))
          else sancus_time_fix \<lparr>tv_sec = s, tv_nsec = n\<rparr>))
      else
        ebind (as_long (tv_sec a + tv_sec b)) (\<lambda>s.
        ebind (as_long (tv_nsec a + tv_nsec b)) (\<lambda>n.
          sancus_time_fix \<lparr>tv_sec = s, tv_nsec = n\<rparr>)))"

definition sancus_time_add :: "timespec \<Rightarrow> timespec \<Rightarrow> (int \<times> timespec) exec" where
  "sancus_time_add a b = time_add a b"

definition sancus_time_sub :: "timespec \<Rightarrow> timespec \<Rightarrow> (int \<times> timespec) exec" where
  "sancus_time_sub a b = ebind (sancus_time_neg b) (\<lambda>nb. time_add a nb)"

definition sancus_time_add_ms :: "timespec \<Rightarrow> int \<Rightarrow> (int \<times> timespec) exec" where
  "sancus_time_add_ms a ms = ebind (sancus_time_new_ms ms) (\<lambda>b. sancus_time_add a b)"

definition sancus_time_add2 :: "timespec \<Rightarrow> timespec \<Rightarrow> timespec exec" where
  "sancus_time_add2 a b = ebind (time_add a b) (\<lambda>(_, ts). Inr ts)"

definition sancus_time_sub2 :: "timespec \<Rightarrow> timespec \<Rightarrow> timespec exec" where
  "sancus_time_sub2 a b =
     ebind (sancus_time_neg b) (\<lambda>nb. ebind (time_add a nb) (\<lambda>(_, ts). Inr ts))"

definition sancus_time_elapsed :: "timespec \<Rightarrow> timespec \<Rightarrow> timespec exec" where
  "sancus_time_elapsed now since =
     ebind (sancus_time_is_gt now since) (\<lambda>gt.
       if gt then sancus_time_sub2 now since else Inr (TIMESPEC_INIT 0 0))"

definition sancus_time_left :: "timespec \<Rightarrow> timespec \<Rightarrow> timespec exec" where
  "sancus_time_left now until =
     ebind (sancus_time_is_gt until now) (\<lambda>gt.
       if gt then sancus_time_sub2 until now else Inr (TIMESPEC_INIT 0 0))"

subsection \<open>What a timespec stands for\<close>

definition tv_value :: "timespec \<Rightarrow> int" where
  "tv_value ts =
     (if tv_sec ts < 0 then 1000000000 * tv_sec ts - tv_nsec ts
      else 1000000000 * tv_sec ts + tv_nsec ts)"

definition canonical :: "timespec \<Rightarrow> bool" where
  "canonical ts \<longleftrightarrow>
     (if tv_sec ts = 0 then - 1000000000 < tv_nsec ts \<and> tv_nsec ts < 1000000000
      else 0 \<le> tv_nsec ts \<and> tv_nsec ts < 1000000000)"

definition tv_bounded :: "timespec \<Rightarrow> bool" where
  "tv_bounded ts \<longleftrightarrow> - (2 ^ 61) \<le> tv_sec ts \<and> tv_sec ts \<le> 2 ^ 61"

text \<open>A reading of a clock: not negative, and the seconds fit in 31 bits.\<close>

definition clock_reading :: "timespec \<Rightarrow> bool" where
  "clock_reading ts \<longleftrightarrow>
     0 \<le> tv_sec ts \<and> tv_sec ts \<le> INT_MAX \<and> 0 \<le> tv_nsec ts \<and> tv_nsec ts < 1000000000"

text \<open>
  The pairs of canonical durations on which \<open>time_add\<close> is exact, by the signs of the two
  second fields.
\<close>

definition time_add_exact :: "timespec \<Rightarrow> timespec \<Rightarrow> bool" where
  "time_add_exact a b \<longleftrightarrow>
     (let s = tv_sec a + tv_sec b;
          p = tv_nsec a + tv_nsec b;
          m = tv_nsec a - tv_nsec b
      in if tv_sec a < 0 \<and> tv_sec b < 0 then p < 1000000000
         else if tv_sec a < 0 then m = 0 \<or> (s < 0 \<and> m < 1000000000)
         else if tv_sec b < 0 then m = 0 \<or> (0 \<le> s \<and> 0 \<le> m) \<or> (1 \<le> s \<and> m < 0)
         else s \<noteq> 0 \<or> - 1000000000 < p)"

lemma tv_value_simps:
  "s < 0 \<Longrightarrow> tv_value \<lparr>tv_sec = s, tv_nsec = n\<rparr> = 1000000000 * s - n"
  "0 \<le> s \<Longrightarrow> tv_value \<lparr>tv_sec = s, tv_nsec = n\<rparr> = 1000000000 * s + n"
  by (simp_all add: tv_value_def)

lemma tv_value_inj:
  assumes "canonical a" and "canonical b" and "tv_value a = tv_value b"
  shows "a = b"
proof -
  have s: "tv_sec a = tv_sec b"
    using assms by (auto simp: canonical_def tv_value_def split: if_splits)
  with assms(3) have "tv_nsec a = tv_nsec b"
    by (simp add: tv_value_def split: if_splits)
  with s show ?thesis by (cases a; cases b) simp
qed

subsection \<open>Normalisation\<close>

text \<open>One equation per branch of \<open>sancus_time_fix\<close>.\<close>

lemma time_fix_keep:
  "0 \<le> n \<Longrightarrow> n < 1000000000 \<Longrightarrow>
   sancus_time_fix \<lparr>tv_sec = s, tv_nsec = n\<rparr> =
     Inr (time_fix_sign \<lparr>tv_sec = s, tv_nsec = n\<rparr>, \<lparr>tv_sec = s, tv_nsec = n\<rparr>)"
  by (simp add: sancus_time_fix_def unit_defs sdiv_nonneg)

lemma time_fix_keep_neg:
  "- 1000000000 < n \<Longrightarrow> n < 0 \<Longrightarrow>
   sancus_time_fix \<lparr>tv_sec = 0, tv_nsec = n\<rparr> = Inr (-1, \<lparr>tv_sec = 0, tv_nsec = n\<rparr>)"
  by (simp add: sancus_time_fix_def unit_defs sdiv_neg time_fix_sign_def)

lemma time_fix_carry:
  assumes "1000000000 \<le> n" and "n \<le> LONG_MAX" and "LONG_MIN \<le> s"
    and "s + n div 1000000000 \<le> LONG_MAX"
  shows "sancus_time_fix \<lparr>tv_sec = s, tv_nsec = n\<rparr> =
     (let ts = \<lparr>tv_sec = s + n div 1000000000, tv_nsec = n mod 1000000000\<rparr>
      in Inr (time_fix_sign ts, ts))"
proof -
  have d: "0 < n div 1000000000" "1000000000 * (n div 1000000000) \<le> n"
    using assms(1) by auto
  have "n - 1000000000 * (n div 1000000000) = n mod 1000000000"
    by (simp add: minus_mult_div_eq_mod)
  with d assms show ?thesis
    by (simp add: sancus_time_fix_def unit_defs sdiv_nonneg Let_def)
qed

lemma time_fix_borrow:
  assumes "n < 0" and "- (2 ^ 62) \<le> n" and "s \<noteq> 0 \<or> n \<le> - 1000000000"
    and "- (2 ^ 62) \<le> s" and "s \<le> 2 ^ 62"
  shows "sancus_time_fix \<lparr>tv_sec = s, tv_nsec = n\<rparr> =
     (let d = (- n) div 1000000000 + 1;
          ts = \<lparr>tv_sec = s - d, tv_nsec = n + 1000000000 * d\<rparr>
      in Inr (time_fix_sign ts, ts))"
proof -
  let ?d = "(- n) div 1000000000 + 1"
  have d: "1 \<le> ?d" "1000000000 * ?d \<le> - n + 1000000000" "- n < 1000000000 * ?d"
    using assms(1) by auto
  have d1: "?d \<noteq> 1 \<or> s \<noteq> 0"
    using assms(1,3) by auto
  show ?thesis
    using d d1 assms by (simp add: sancus_time_fix_def unit_defs sdiv_neg Let_def)
qed

lemmas time_fix_cases = time_fix_keep time_fix_keep_neg time_fix_carry time_fix_borrow

lemma time_fix_sign_value: "canonical ts \<Longrightarrow> time_fix_sign ts = sgn (tv_value ts)"
  by (auto simp: canonical_def tv_value_def time_fix_sign_def split: if_splits)

text \<open>When the result of \<open>sancus_time_fix\<close> is canonical and stands for \<open>v\<close>.\<close>

definition fix_gives :: "int \<Rightarrow> int \<Rightarrow> int \<Rightarrow> bool" where
  "fix_gives s n v \<longleftrightarrow>
     (\<exists>ts. sancus_time_fix \<lparr>tv_sec = s, tv_nsec = n\<rparr> = Inr (sgn v, ts) \<and>
        canonical ts \<and> tv_value ts = v)"

lemma fix_givesI:
  "sancus_time_fix \<lparr>tv_sec = s, tv_nsec = n\<rparr> = Inr (time_fix_sign ts, ts) \<Longrightarrow>
   fix_gives s n v \<longleftrightarrow> canonical ts \<and> tv_value ts = v"
  by (auto simp: fix_gives_def time_fix_sign_value)

lemma fix_gives_keep:
  "0 \<le> n \<Longrightarrow> n < 1000000000 \<Longrightarrow>
   fix_gives s n v \<longleftrightarrow> v = tv_value \<lparr>tv_sec = s, tv_nsec = n\<rparr>"
  by (subst fix_givesI [OF time_fix_keep]) (auto simp: canonical_def)

lemma fix_gives_keep_neg:
  "- 1000000000 < n \<Longrightarrow> n < 0 \<Longrightarrow> fix_gives 0 n v \<longleftrightarrow> v = n"
  by (subst fix_givesI [where ts = "\<lparr>tv_sec = 0, tv_nsec = n\<rparr>"])
    (auto simp: time_fix_keep_neg time_fix_sign_def canonical_def tv_value_def)

lemma fix_gives_carry:
  assumes "1000000000 \<le> n" and "n < 2000000000" and "- (2 ^ 62) \<le> s" and "s \<le> 2 ^ 62"
  shows "fix_gives s n v \<longleftrightarrow>
     v = tv_value \<lparr>tv_sec = s + 1, tv_nsec = n - 1000000000\<rparr>"
proof -
  let ?ts = "\<lparr>tv_sec = s + 1, tv_nsec = n - 1000000000\<rparr>"
  have "n div 1000000000 = 1"
    using assms(1,2) by (intro int_div_pos_eq [where r = "n - 1000000000"]) auto
  moreover have "n mod 1000000000 = n - 1000000000"
    using assms(1,2) by (intro int_mod_pos_eq [where q = 1]) auto
  ultimately have "sancus_time_fix \<lparr>tv_sec = s, tv_nsec = n\<rparr> = Inr (time_fix_sign ?ts, ?ts)"
    using assms by (simp add: time_fix_carry Let_def)
  from fix_givesI [OF this] show ?thesis
    using assms by (auto simp: canonical_def)
qed

lemma fix_gives_borrow:
  assumes "- 1000000000 < n" and "n < 0" and "s \<noteq> 0" and "- (2 ^ 62) \<le> s" and "s \<le> 2 ^ 62"
  shows "fix_gives s n v \<longleftrightarrow>
     v = tv_value \<lparr>tv_sec = s - 1, tv_nsec = n + 1000000000\<rparr>"
proof -
  let ?ts = "\<lparr>tv_sec = s - 1, tv_nsec = n + 1000000000\<rparr>"
  have "(- n) div 1000000000 = 0" using assms(1,2) by simp
  then have "sancus_time_fix \<lparr>tv_sec = s, tv_nsec = n\<rparr> = Inr (time_fix_sign ?ts, ?ts)"
    using assms by (simp add: time_fix_borrow Let_def)
  from fix_givesI [OF this] show ?thesis
    using assms by (auto simp: canonical_def)
qed

lemma fix_gives_borrow2:
  assumes "- 2000000000 < n" and "n \<le> - 1000000000" and "- (2 ^ 62) \<le> s" and "s \<le> 2 ^ 62"
  shows "fix_gives s n v \<longleftrightarrow>
     n \<noteq> - 1000000000 \<and> v = tv_value \<lparr>tv_sec = s - 2, tv_nsec = n + 2000000000\<rparr>"
proof -
  let ?ts = "\<lparr>tv_sec = s - 2, tv_nsec = n + 2000000000\<rparr>"
  have "(- n) div 1000000000 = 1"
    using assms(1,2) by (intro int_div_pos_eq [where r = "- n - 1000000000"]) auto
  then have "sancus_time_fix \<lparr>tv_sec = s, tv_nsec = n\<rparr> = Inr (time_fix_sign ?ts, ?ts)"
    using assms by (simp add: time_fix_borrow Let_def)
  from fix_givesI [OF this] show ?thesis
    using assms by (auto simp: canonical_def)
qed

lemmas fix_gives_cases = fix_gives_keep fix_gives_keep_neg fix_gives_carry fix_gives_borrow
  fix_gives_borrow2

subsection \<open>Addition\<close>

lemma time_add_same_sign:
  assumes "(tv_sec a < 0) = (tv_sec b < 0)" and "canonical a" and "canonical b"
    and "tv_bounded a" and "tv_bounded b"
  shows "time_add a b =
     sancus_time_fix \<lparr>tv_sec = tv_sec a + tv_sec b, tv_nsec = tv_nsec a + tv_nsec b\<rparr>"
  using assms by (simp add: time_add_def canonical_def tv_bounded_def split: if_splits)

lemma time_add_mixed_keep:
  assumes "(tv_sec a < 0) \<noteq> (tv_sec b < 0)" and "canonical a" and "canonical b"
    and "tv_bounded a" and "tv_bounded b" and "tv_nsec b \<le> tv_nsec a"
  shows "time_add a b =
     sancus_time_fix \<lparr>tv_sec = tv_sec a + tv_sec b, tv_nsec = tv_nsec a - tv_nsec b\<rparr>"
  using assms by (simp add: time_add_def canonical_def tv_bounded_def split: if_splits)

text \<open>
  With different signs and a negative difference of the fractions, \<open>d\<close> seconds are borrowed: one,
  or two when a negative fraction below a second meets a larger one.
\<close>

lemma time_add_mixed_borrow:
  assumes "(tv_sec a < 0) \<noteq> (tv_sec b < 0)" and "canonical a" and "canonical b"
    and "tv_bounded a" and "tv_bounded b" and "tv_nsec a < tv_nsec b"
    and d: "d = (if tv_nsec b - tv_nsec a < 1000000000 then 1 else 2)"
    and n: "n = tv_nsec a - tv_nsec b + 1000000000 * d" and s: "s = tv_sec a + tv_sec b"
  shows "time_add a b =
     (if s = - d then sancus_time_fix \<lparr>tv_sec = 0, tv_nsec = - n\<rparr>
      else if d \<le> s then sancus_time_fix \<lparr>tv_sec = s - d, tv_nsec = n\<rparr>
      else sancus_time_fix \<lparr>tv_sec = s + d, tv_nsec = n\<rparr>)"
proof -
  have lo: "- 2000000000 < tv_nsec a - tv_nsec b"
    using assms(1-3) by (simp add: canonical_def split: if_splits)
  have "(tv_nsec b - tv_nsec a) div 1000000000 = d - 1"
    using lo assms(6) d
    by (intro int_div_pos_eq [where r = "tv_nsec b - tv_nsec a - 1000000000 * (d - 1)"]) auto
  then have "1 - (tv_nsec a - tv_nsec b) sdiv 1000000000 = d"
    using assms(6) by (simp add: sdiv_neg)
  moreover have "0 < d" "d \<le> 2" using d by simp_all
  ultimately show ?thesis
    using assms(1,4-6) lo n s
    by (simp add: time_add_def unit_defs tv_bounded_def)
qed

definition add_gives :: "timespec \<Rightarrow> timespec \<Rightarrow> bool" where
  "add_gives a b \<longleftrightarrow>
     (\<exists>ts. time_add a b = Inr (sgn (tv_value a + tv_value b), ts) \<and>
        canonical ts \<and> tv_value ts = tv_value a + tv_value b)"

lemma add_gives_fix:
  "time_add a b = sancus_time_fix \<lparr>tv_sec = s, tv_nsec = n\<rparr> \<Longrightarrow>
   add_gives a b \<longleftrightarrow> fix_gives s n (tv_value a + tv_value b)"
  by (simp add: add_gives_def fix_gives_def)

text \<open>The four combinations of signs.\<close>

lemma add_gives_nonneg:
  assumes "0 \<le> tv_sec a" and "0 \<le> tv_sec b" and "canonical a" and "canonical b"
    and "tv_bounded a" and "tv_bounded b"
  shows "add_gives a b \<longleftrightarrow>
     tv_sec a + tv_sec b \<noteq> 0 \<or> - 1000000000 < tv_nsec a + tv_nsec b"
proof -
  let ?s = "tv_sec a + tv_sec b" and ?n = "tv_nsec a + tv_nsec b"
  have v: "tv_value a + tv_value b = 1000000000 * ?s + ?n"
    using assms(1,2) by (simp add: tv_value_def)
  have s: "0 \<le> ?s" "?s \<le> 2 ^ 62" "- (2 ^ 62) \<le> ?s"
    using assms(1,2,5,6) by (simp_all add: tv_bounded_def)
  have n: "?n < 2000000000" "- 2000000000 < ?n" "?s \<noteq> 0 \<Longrightarrow> - 1000000000 < ?n"
    using assms(1-4) by (auto simp: canonical_def split: if_splits)
  have g: "add_gives a b \<longleftrightarrow> fix_gives ?s ?n (1000000000 * ?s + ?n)"
    unfolding v [symmetric] by (intro add_gives_fix time_add_same_sign) (use assms in auto)
  consider "1000000000 \<le> ?n" | "0 \<le> ?n" "?n < 1000000000" | "?n < 0" "- 1000000000 < ?n" "?s = 0"
    | "?n < 0" "- 1000000000 < ?n" "?s \<noteq> 0" | "?n \<le> - 1000000000" "?s = 0"
    using n(3) by linarith
  then show ?thesis
    by cases (use g s n(1,2) in \<open>simp_all add: fix_gives_cases tv_value_simps\<close>)
qed

lemma add_gives_neg:
  assumes "tv_sec a < 0" and "tv_sec b < 0" and "canonical a" and "canonical b"
    and "tv_bounded a" and "tv_bounded b"
  shows "add_gives a b \<longleftrightarrow> tv_nsec a + tv_nsec b < 1000000000"
proof -
  let ?s = "tv_sec a + tv_sec b" and ?n = "tv_nsec a + tv_nsec b"
  have v: "tv_value a + tv_value b = 1000000000 * ?s - ?n"
    using assms(1,2) by (simp add: tv_value_def)
  have s: "?s < - 1" "?s \<le> 2 ^ 62" "- (2 ^ 62) \<le> ?s"
    using assms(1,2,5,6) by (simp_all add: tv_bounded_def)
  have n: "?n < 2000000000" "0 \<le> ?n"
    using assms(1-4) by (auto simp: canonical_def split: if_splits)
  have g: "add_gives a b \<longleftrightarrow> fix_gives ?s ?n (1000000000 * ?s - ?n)"
    unfolding v [symmetric] by (intro add_gives_fix time_add_same_sign) (use assms in auto)
  consider "1000000000 \<le> ?n" | "?n < 1000000000" by linarith
  then show ?thesis
    by cases (use g s n in \<open>simp_all add: fix_gives_cases tv_value_simps\<close>)
qed

text \<open>Opposite signs, the first negative: without and with a borrow.\<close>

lemma add_gives_neg_pos_borrow:
  assumes "tv_sec a < 0" and "0 \<le> tv_sec b" and "canonical a" and "canonical b"
    and "tv_bounded a" and "tv_bounded b"
  defines "s \<equiv> tv_sec a + tv_sec b" and "n \<equiv> tv_nsec a - tv_nsec b"
  assumes "n < 0"
  shows "add_gives a b \<longleftrightarrow> s < 0"
proof -
  let ?r = "n + 1000000000"
  have v: "tv_value a + tv_value b = 1000000000 * s - n"
    using assms(1,2) by (simp add: tv_value_def s_def n_def)
  have n: "- 1000000000 < n" using assms(1-4) by (auto simp: canonical_def n_def split: if_splits)
  have e: "time_add a b =
     (if s = - 1 then sancus_time_fix \<lparr>tv_sec = 0, tv_nsec = - ?r\<rparr>
      else if 1 \<le> s then sancus_time_fix \<lparr>tv_sec = s - 1, tv_nsec = ?r\<rparr>
      else sancus_time_fix \<lparr>tv_sec = s + 1, tv_nsec = ?r\<rparr>)"
    unfolding s_def n_def by (rule time_add_mixed_borrow) (use assms n in auto)
  consider "s = - 1" | "1 \<le> s" | "s \<noteq> - 1" "s < 1" by linarith
  then show ?thesis
  proof cases
    case 1
    with e have "add_gives a b \<longleftrightarrow> fix_gives 0 (- ?r) (1000000000 * s - n)"
      using add_gives_fix [of a b 0 "- ?r"] v by simp
    with 1 n assms(9) show ?thesis by (simp add: fix_gives_keep_neg)
  next
    case 2
    with e have "add_gives a b \<longleftrightarrow> fix_gives (s - 1) ?r (1000000000 * s - n)"
      using add_gives_fix [of a b "s - 1" ?r] v by simp
    with 2 n assms(9) show ?thesis by (simp add: fix_gives_keep tv_value_simps)
  next
    case 3
    with e have "add_gives a b \<longleftrightarrow> fix_gives (s + 1) ?r (1000000000 * s - n)"
      using add_gives_fix [of a b "s + 1" ?r] v by simp
    with 3 n assms(9) show ?thesis
      by (cases "s = 0") (simp_all add: fix_gives_keep tv_value_simps)
  qed
qed

lemma add_gives_neg_pos:
  assumes "tv_sec a < 0" and "0 \<le> tv_sec b" and "canonical a" and "canonical b"
    and "tv_bounded a" and "tv_bounded b"
  shows "add_gives a b \<longleftrightarrow>
     tv_nsec a = tv_nsec b \<or>
     (tv_sec a + tv_sec b < 0 \<and> tv_nsec a - tv_nsec b < 1000000000)"
proof (cases "tv_nsec a - tv_nsec b < 0")
  case True
  then show ?thesis using add_gives_neg_pos_borrow [OF assms True] by auto
next
  case False
  let ?s = "tv_sec a + tv_sec b" and ?n = "tv_nsec a - tv_nsec b"
  have v: "tv_value a + tv_value b = 1000000000 * ?s - ?n"
    using assms(1,2) by (simp add: tv_value_def)
  have s: "?s \<le> 2 ^ 61" "- (2 ^ 61) \<le> ?s"
    using assms(1,2,5,6) by (simp_all add: tv_bounded_def)
  have n: "?n < 2000000000" "- 1000000000 < ?n"
    using assms(1-4) by (auto simp: canonical_def split: if_splits)
  have g: "add_gives a b \<longleftrightarrow> fix_gives ?s ?n (1000000000 * ?s - ?n)"
    unfolding v [symmetric]
    by (intro add_gives_fix time_add_mixed_keep) (use assms False in auto)
  consider "1000000000 \<le> ?n" "?s + 1 < 0" | "1000000000 \<le> ?n" "0 \<le> ?s + 1"
    | "?n < 1000000000" "?s < 0" | "?n < 1000000000" "0 \<le> ?s" by linarith
  then show ?thesis
    by cases (use g s n False in \<open>simp_all add: fix_gives_cases tv_value_simps, linarith?\<close>)
qed

lemma fix_gives_overshoot:
  assumes "1 \<le> d" and "d \<le> 2" and "0 < r" and "r \<le> 1000000000"
    and "n = r - 1000000000 * d" and "- (2 ^ 61) \<le> s" and "s \<le> 2 ^ 61"
  shows "\<not> fix_gives (s + d) r (1000000000 * s + n)"
proof (cases "r = 1000000000")
  case True
  then have "fix_gives (s + d) r (1000000000 * s + n) \<longleftrightarrow>
      1000000000 * s + n = tv_value \<lparr>tv_sec = s + d + 1, tv_nsec = 0\<rparr>"
    using assms by (simp add: fix_gives_carry)
  with True assms show ?thesis by (cases "s + d + 1 < 0") (simp_all add: tv_value_simps)
next
  case False
  with assms show ?thesis
    by (cases "s + d < 0") (simp_all add: fix_gives_keep tv_value_simps)
qed

lemma add_gives_pos_neg_borrow:
  assumes "0 \<le> tv_sec a" and "tv_sec b < 0" and "canonical a" and "canonical b"
    and "tv_bounded a" and "tv_bounded b"
  defines "s \<equiv> tv_sec a + tv_sec b" and "n \<equiv> tv_nsec a - tv_nsec b"
  assumes "n < 0"
  shows "add_gives a b \<longleftrightarrow> 1 \<le> s"
proof -
  let ?d = "if tv_nsec b - tv_nsec a < 1000000000 then 1 else 2 :: int"
  let ?r = "n + 1000000000 * ?d"
  have v: "tv_value a + tv_value b = 1000000000 * s + n"
    using assms(1,2) by (simp add: tv_value_def s_def n_def)
  have b: "s \<le> 2 ^ 61" "- (2 ^ 61) \<le> s" "n < 1000000000" "- 2000000000 < n" "0 \<le> s \<Longrightarrow> - 1000000000 < n"
    using assms(1-6) by (auto simp: tv_bounded_def canonical_def s_def n_def split: if_splits)
  have d: "1 \<le> ?d" "?d \<le> 2" "0 < ?r" "?r \<le> 1000000000" "?d = 1 \<Longrightarrow> ?r < 1000000000" "0 \<le> s \<Longrightarrow> ?d = 1"
    using b assms(9) by (auto simp: n_def)
  have e: "time_add a b =
     (if s = - ?d then sancus_time_fix \<lparr>tv_sec = 0, tv_nsec = - ?r\<rparr>
      else if ?d \<le> s then sancus_time_fix \<lparr>tv_sec = s - ?d, tv_nsec = ?r\<rparr>
      else sancus_time_fix \<lparr>tv_sec = s + ?d, tv_nsec = ?r\<rparr>)"
    unfolding s_def n_def by (rule time_add_mixed_borrow) (use assms in auto)
  consider "s = - ?d" | "s \<noteq> - ?d" "?d \<le> s" | "s \<noteq> - ?d" "\<not> ?d \<le> s" by blast
  then show ?thesis
  proof cases
    case 1
    then have "\<not> fix_gives 0 (- ?r) (1000000000 * s + n)"
      using d(1-5) assms(9) by (cases "?r = 1000000000") (simp_all add: fix_gives_keep_neg fix_gives_borrow2)
    with 1 e d(1) show ?thesis using add_gives_fix [of a b 0 "- ?r"] v by simp
  next
    case 2
    with e have "add_gives a b \<longleftrightarrow> fix_gives (s - ?d) ?r (1000000000 * s + n)"
      using add_gives_fix [of a b "s - ?d" ?r] v by simp
    moreover have "?d = 1" using 2 d by simp
    ultimately show ?thesis using 2 d(3,5) assms(9) by (simp add: fix_gives_keep tv_value_simps)
  next
    case 3
    then have "\<not> fix_gives (s + ?d) ?r (1000000000 * s + n)"
      by (intro fix_gives_overshoot) (use d b in auto)
    moreover have "s < 1" using 3 d(6) by (cases "0 \<le> s") auto
    ultimately show ?thesis using 3 e add_gives_fix [of a b "s + ?d" ?r] v by simp
  qed
qed

lemma add_gives_pos_neg:
  assumes "0 \<le> tv_sec a" and "tv_sec b < 0" and "canonical a" and "canonical b"
    and "tv_bounded a" and "tv_bounded b"
  shows "add_gives a b \<longleftrightarrow>
     tv_nsec a = tv_nsec b \<or>
     (0 \<le> tv_sec a + tv_sec b \<and> 0 \<le> tv_nsec a - tv_nsec b) \<or>
     (1 \<le> tv_sec a + tv_sec b \<and> tv_nsec a - tv_nsec b < 0)"
proof (cases "tv_nsec a - tv_nsec b < 0")
  case True
  then show ?thesis using add_gives_pos_neg_borrow [OF assms True] by auto
next
  case False
  let ?s = "tv_sec a + tv_sec b" and ?n = "tv_nsec a - tv_nsec b"
  have v: "tv_value a + tv_value b = 1000000000 * ?s + ?n"
    using assms(1,2) by (simp add: tv_value_def)
  have s: "?s \<le> 2 ^ 61" "- (2 ^ 61) \<le> ?s"
    using assms(1,2,5,6) by (simp_all add: tv_bounded_def)
  have n: "?n < 1000000000" "- 2000000000 < ?n"
    using assms(1-4) by (auto simp: canonical_def split: if_splits)
  have g: "add_gives a b \<longleftrightarrow> fix_gives ?s ?n (1000000000 * ?s + ?n)"
    unfolding v [symmetric]
    by (intro add_gives_fix time_add_mixed_keep) (use assms False in auto)
  consider "?s < 0" | "0 \<le> ?s" by linarith
  then show ?thesis
    by cases (use g s n False in \<open>simp_all add: fix_gives_cases tv_value_simps, linarith?\<close>)
qed

lemma add_gives_iff:
  assumes "canonical a" and "canonical b" and "tv_bounded a" and "tv_bounded b"
  shows "add_gives a b \<longleftrightarrow> time_add_exact a b"
  using assms add_gives_nonneg [of a b] add_gives_neg [of a b] add_gives_neg_pos [of a b]
    add_gives_pos_neg [of a b]
  by (simp add: time_add_exact_def Let_def not_less)

lemma time_neg_value:
  assumes "canonical a" and "tv_bounded a"
  shows "\<exists>b. sancus_time_neg a = Inr b \<and> canonical b \<and> tv_bounded b \<and>
     tv_value b = - tv_value a \<and> tv_sec b = - tv_sec a"
  using assms
  by (cases "tv_sec a = 0")
    (auto simp: sancus_time_neg_def canonical_def tv_bounded_def tv_value_def)

subsection \<open>The contract of a clock\<close>

text \<open>
  What the code that measures intervals (\<open>sancus_time_elapsed\<close>, \<open>sancus_time_left\<close>, the timestamps
  of the logger, the inactivity timer of a connection) needs from its readings: a comparison that
  agrees with the instants and a difference that is exact when the first reading is the later one.
\<close>

locale clock_arith =
  fixes ok :: "'t \<Rightarrow> bool" and val :: "'t \<Rightarrow> int"
    and gt :: "'t \<Rightarrow> 't \<Rightarrow> bool exec" and diff :: "'t \<Rightarrow> 't \<Rightarrow> 't exec" and zero :: 't
  assumes gt_val: "ok a \<Longrightarrow> ok b \<Longrightarrow> gt a b = Inr (val b < val a)"
    and diff_val: "ok a \<Longrightarrow> ok b \<Longrightarrow> val b < val a \<Longrightarrow>
      \<exists>t. diff a b = Inr t \<and> ok t \<and> val t = val a - val b"
    and ok_zero: "ok zero" and val_zero: "val zero = 0"
begin

definition monus :: "'t \<Rightarrow> 't \<Rightarrow> 't exec" where
  "monus a b = ebind (gt a b) (\<lambda>g. if g then diff a b else Inr zero)"

lemma monus_val:
  "ok a \<Longrightarrow> ok b \<Longrightarrow> \<exists>t. monus a b = Inr t \<and> ok t \<and> val t = max 0 (val a - val b)"
  using diff_val [of a b] by (auto simp: monus_def gt_val ok_zero val_zero)

lemma monus_chain:
  assumes "ok a" and "ok b" and "ok c" and "val a \<le> val b" and "val b \<le> val c"
  shows "\<exists>x y z. monus b a = Inr x \<and> monus c b = Inr y \<and> monus c a = Inr z \<and>
     val z = val x + val y"
  using assms monus_val [of b a] monus_val [of c b] monus_val [of c a] by fastforce

end

lemma time_cmp_value:
  assumes "canonical a" and "canonical b" and "\<bar>tv_sec a - tv_sec b\<bar> \<le> INT_MAX"
  shows "\<exists>r. sancus_time_cmp a b = Inr r \<and> sgn r = sgn (tv_value a - tv_value b)"
proof -
  consider "tv_sec a < tv_sec b" | "tv_sec b < tv_sec a" | "tv_sec a = tv_sec b" by linarith
  then show ?thesis
  proof cases
    case 1
    then have "tv_value a < tv_value b"
      using assms by (auto simp: canonical_def tv_value_def split: if_splits)
    with 1 assms(3) show ?thesis by (simp add: sancus_time_cmp_def)
  next
    case 2
    then have "tv_value b < tv_value a"
      using assms by (auto simp: canonical_def tv_value_def split: if_splits)
    with 2 assms(3) show ?thesis by (simp add: sancus_time_cmp_def)
  next
    case 3
    then have "\<bar>tv_nsec a - tv_nsec b\<bar> \<le> INT_MAX"
      using assms(1,2) by (auto simp: canonical_def abs_le_iff split: if_splits)
    with 3 show ?thesis by (simp add: sancus_time_cmp_def tv_value_def)
  qed
qed

lemma clock_reading_canonical: "clock_reading a \<Longrightarrow> canonical a \<and> tv_bounded a \<and> 0 \<le> tv_value a"
  by (simp add: clock_reading_def canonical_def tv_bounded_def tv_value_def)

lemma clock_reading_gt:
  assumes "clock_reading a" and "clock_reading b"
  shows "sancus_time_is_gt a b = Inr (tv_value b < tv_value a)"
proof -
  have "\<bar>tv_sec a - tv_sec b\<bar> \<le> INT_MAX"
    using assms by (auto simp: clock_reading_def)
  with time_cmp_value assms obtain r
    where "sancus_time_cmp a b = Inr r" "sgn r = sgn (tv_value a - tv_value b)"
    using clock_reading_canonical by blast
  then show ?thesis by (auto simp: sancus_time_is_gt_def sgn_if split: if_splits)
qed

lemma clock_reading_sub:
  assumes "clock_reading a" and "clock_reading b" and "tv_value b < tv_value a"
  shows "\<exists>t. sancus_time_sub2 a b = Inr t \<and> clock_reading t \<and> tv_value t = tv_value a - tv_value b"
proof -
  obtain nb where nb: "sancus_time_neg b = Inr nb" "canonical nb" "tv_bounded nb"
      "tv_value nb = - tv_value b" "tv_sec nb = - tv_sec b"
    using time_neg_value [of b] assms(2) clock_reading_canonical by blast
  have n: "tv_nsec nb = (if tv_sec b = 0 then - tv_nsec b else tv_nsec b)"
    using nb(4,5) assms(2) by (auto simp: tv_value_def clock_reading_def split: if_splits)
  have "time_add_exact a nb"
    using assms nb(5) n
    by (auto simp: time_add_exact_def clock_reading_def tv_value_def Let_def split: if_splits)
  then have "add_gives a nb"
    using add_gives_iff [of a nb] nb assms(1) clock_reading_canonical by blast
  then obtain t where t: "time_add a nb = Inr (sgn (tv_value a + tv_value nb), t)"
      "canonical t" "tv_value t = tv_value a - tv_value b"
    using nb(4) by (auto simp: add_gives_def)
  moreover have "clock_reading t"
    using t(2,3) assms by (auto simp: canonical_def clock_reading_def tv_value_def split: if_splits)
  ultimately show ?thesis using nb(1) by (auto simp: sancus_time_sub2_def)
qed

interpretation tm: clock_arith clock_reading tv_value sancus_time_is_gt sancus_time_sub2
    "TIMESPEC_INIT 0 0"
proof unfold_locales
  show "clock_reading (TIMESPEC_INIT 0 0)" and "tv_value (TIMESPEC_INIT 0 0) = 0"
    by (simp_all add: TIMESPEC_INIT_def clock_reading_def tv_value_def)
qed (fact clock_reading_gt clock_reading_sub)+

lemma elapsed_monus: "sancus_time_elapsed now since = tm.monus now since"
  by (simp add: sancus_time_elapsed_def tm.monus_def)

lemma left_monus: "sancus_time_left now until = tm.monus until now"
  by (simp add: sancus_time_left_def tm.monus_def)

subsection \<open>Properties\<close>

text \<open>
  C17. \<open>time_add\<close>, the body of every addition and subtraction, returns the canonical form of the
  exact sum, with its sign as answer, precisely on the pairs of \<open>time_add_exact\<close>: two
  non-negative durations always (unless two negative fractions reach a second), two negative ones
  only when no second is carried, opposite signs only when the borrow goes the right way. No
  pair of canonical durations below \<open>2\<^sup>6\<^sup>1\<close> seconds overflows in the exact cases.
\<close>

theorem time_add_exact_iff:
  assumes "canonical a" and "canonical b" and "tv_bounded a" and "tv_bounded b"
  shows "(\<exists>ts. sancus_time_add a b = Inr (sgn (tv_value a + tv_value b), ts) \<and>
            canonical ts \<and> tv_value ts = tv_value a + tv_value b) \<longleftrightarrow> time_add_exact a b"
  using add_gives_iff [OF assms] by (simp add: add_gives_def sancus_time_add_def)

theorem time_add_exact_iff_witness:
  "(\<exists>ts. sancus_time_add \<lparr>tv_sec = 1, tv_nsec = 999000000\<rparr> \<lparr>tv_sec = 0, tv_nsec = 2000000\<rparr> =
        Inr (sgn (tv_value \<lparr>tv_sec = 1, tv_nsec = 999000000\<rparr> + tv_value \<lparr>tv_sec = 0, tv_nsec = 2000000\<rparr>), ts) \<and>
      canonical ts \<and>
      tv_value ts = tv_value \<lparr>tv_sec = 1, tv_nsec = 999000000\<rparr> + tv_value \<lparr>tv_sec = 0, tv_nsec = 2000000\<rparr>) \<and>
   \<not> time_add_exact \<lparr>tv_sec = 1, tv_nsec = 200000000\<rparr> \<lparr>tv_sec = - 1, tv_nsec = 500000000\<rparr>"
  using time_add_exact_iff [of "\<lparr>tv_sec = 1, tv_nsec = 999000000\<rparr>" "\<lparr>tv_sec = 0, tv_nsec = 2000000\<rparr>"]
  by (simp add: canonical_def tv_bounded_def time_add_exact_def)

text \<open>
  C35. On clock readings (not negative, seconds in 31 bits) \<open>sancus_time_elapsed\<close> returns, without a
  fault, the clock reading of what passed since \<open>t\<close>, zero when \<open>t\<close> is still to come, and
  \<open>sancus_time_left\<close> of what is left until \<open>t\<close>, zero when it is over. The comment on
  \<open>sancus_time_left\<close> states the test the other way round.
\<close>

theorem elapsed_left_value:
  assumes "clock_reading now" and "clock_reading t"
  shows "\<exists>e l. sancus_time_elapsed now t = Inr e \<and> sancus_time_left now t = Inr l \<and>
     clock_reading e \<and> clock_reading l \<and>
     tv_value e = max 0 (tv_value now - tv_value t) \<and>
     tv_value l = max 0 (tv_value t - tv_value now)"
  using tm.monus_val [OF assms] tm.monus_val [OF assms(2,1)]
  by (auto simp: elapsed_monus left_monus)

theorem elapsed_left_value_witness:
  "\<exists>e l. sancus_time_elapsed \<lparr>tv_sec = 1, tv_nsec = 400000000\<rparr> \<lparr>tv_sec = 1, tv_nsec = 100000000\<rparr> = Inr e \<and>
     sancus_time_left \<lparr>tv_sec = 1, tv_nsec = 400000000\<rparr> \<lparr>tv_sec = 1, tv_nsec = 100000000\<rparr> = Inr l \<and>
     tv_value e = 300000000 \<and> tv_value l = 0"
  using elapsed_left_value [of "\<lparr>tv_sec = 1, tv_nsec = 400000000\<rparr>" "\<lparr>tv_sec = 1, tv_nsec = 100000000\<rparr>"]
  by (auto simp: clock_reading_def tv_value_simps)

text \<open>
  Intervals add up: for three clock readings in order, the time elapsed from the first to the
  last is the sum of the two intervals between, so repeated measurements lose nothing.
\<close>

theorem elapsed_chain:
  assumes "clock_reading a" and "clock_reading b" and "clock_reading c"
    and "tv_value a \<le> tv_value b" and "tv_value b \<le> tv_value c"
  shows "\<exists>x y z. sancus_time_elapsed b a = Inr x \<and> sancus_time_elapsed c b = Inr y \<and>
     sancus_time_elapsed c a = Inr z \<and> tv_value z = tv_value x + tv_value y"
  using tm.monus_chain [OF assms] by (simp add: elapsed_monus)

theorem elapsed_chain_witness:
  "\<exists>x y z. sancus_time_elapsed \<lparr>tv_sec = 2, tv_nsec = 1\<rparr> \<lparr>tv_sec = 1, tv_nsec = 5\<rparr> = Inr x \<and>
     sancus_time_elapsed \<lparr>tv_sec = 3, tv_nsec = 0\<rparr> \<lparr>tv_sec = 2, tv_nsec = 1\<rparr> = Inr y \<and>
     sancus_time_elapsed \<lparr>tv_sec = 3, tv_nsec = 0\<rparr> \<lparr>tv_sec = 1, tv_nsec = 5\<rparr> = Inr z \<and>
     tv_value z = tv_value x + tv_value y"
  by (rule elapsed_chain) (simp_all add: clock_reading_def tv_value_simps)

text \<open>
  \<open>sancus_time_cmp\<close> orders canonical durations of either sign correctly when their second
  fields differ by less than \<open>2\<^sup>3\<^sup>1\<close> (the result is narrowed to \<open>int\<close>).
\<close>

theorem time_cmp_sign:
  assumes "canonical a" and "canonical b" and "\<bar>tv_sec a - tv_sec b\<bar> \<le> INT_MAX"
  shows "\<exists>r. sancus_time_cmp a b = Inr r \<and> sgn r = sgn (tv_value a - tv_value b)"
  by (rule time_cmp_value [OF assms])

theorem time_cmp_sign_witness:
  "\<exists>r. sancus_time_cmp \<lparr>tv_sec = - 1, tv_nsec = 100000000\<rparr> \<lparr>tv_sec = - 1, tv_nsec = 200000000\<rparr> = Inr r \<and>
     sgn r = 1"
  using time_cmp_sign [of "\<lparr>tv_sec = - 1, tv_nsec = 100000000\<rparr>" "\<lparr>tv_sec = - 1, tv_nsec = 200000000\<rparr>"]
  by (simp add: canonical_def tv_value_simps)

text \<open>
  C19. \<open>sancus_time_fix\<close> never faults below \<open>2\<^sup>6\<^sup>2\<close>, keeps the plain sum of seconds and
  nanoseconds, and leaves a canonical value except when the nanoseconds are a negative multiple
  of a second: then a whole second stays in \<open>tv_nsec\<close>.
\<close>

theorem time_fix_sum:
  assumes "\<bar>s\<bar> \<le> 2 ^ 62" and "\<bar>n\<bar> \<le> 2 ^ 62"
  shows "\<exists>ts. sancus_time_fix \<lparr>tv_sec = s, tv_nsec = n\<rparr> = Inr (time_fix_sign ts, ts) \<and>
     1000000000 * tv_sec ts + tv_nsec ts = 1000000000 * s + n \<and>
     (canonical ts \<longleftrightarrow> \<not> (n < 0 \<and> 1000000000 dvd n))"
proof -
  consider "1000000000 \<le> n" | "0 \<le> n" "n < 1000000000" | "n < 0" "- 1000000000 < n" "s = 0"
    | "n < 0" "s \<noteq> 0 \<or> n \<le> - 1000000000" by linarith
  then show ?thesis
  proof cases
    case 1
    have "n div 1000000000 \<le> 2 ^ 62" using 1 assms(2) by linarith
    then have "sancus_time_fix \<lparr>tv_sec = s, tv_nsec = n\<rparr> =
       (let ts = \<lparr>tv_sec = s + n div 1000000000, tv_nsec = n mod 1000000000\<rparr>
        in Inr (time_fix_sign ts, ts))"
      using 1 assms by (intro time_fix_carry) auto
    moreover have "1000000000 * (s + n div 1000000000) + n mod 1000000000 = 1000000000 * s + n"
      by (simp add: distrib_left)
    ultimately show ?thesis using 1 by (auto simp: Let_def canonical_def)
  next
    case 2
    then show ?thesis by (auto simp: time_fix_keep canonical_def)
  next
    case 3
    moreover have "\<not> 1000000000 dvd n" using 3 by (auto dest: zdvd_imp_le [of _ "- n"])
    ultimately show ?thesis by (auto simp: time_fix_keep_neg time_fix_sign_def canonical_def)
  next
    case 4
    let ?d = "(- n) div 1000000000 + 1"
    let ?ts = "\<lparr>tv_sec = s - ?d, tv_nsec = n + 1000000000 * ?d\<rparr>"
    have r: "n + 1000000000 * ?d = 1000000000 - (- n) mod 1000000000"
      using minus_mult_div_eq_mod [of "- n" 1000000000] by simp
    have "sancus_time_fix \<lparr>tv_sec = s, tv_nsec = n\<rparr> = Inr (time_fix_sign ?ts, ?ts)"
      using 4 assms by (subst time_fix_borrow) (auto simp: Let_def)
    moreover have "1000000000 * (s - ?d) + (n + 1000000000 * ?d) = 1000000000 * s + n"
      by (simp add: algebra_simps)
    moreover have "canonical ?ts \<longleftrightarrow> (- n) mod 1000000000 \<noteq> 0"
      unfolding canonical_def using r pos_mod_bound [of 1000000000 "- n"] pos_mod_sign [of 1000000000 "- n"]
      by auto
    moreover have "(- n) mod 1000000000 \<noteq> 0 \<longleftrightarrow> \<not> 1000000000 dvd n"
      by (metis dvd_eq_mod_eq_0 dvd_minus_iff)
    ultimately show ?thesis using 4(1) by (intro exI [of _ ?ts]) auto
  qed
qed

theorem time_fix_sum_witness:
  "\<exists>ts. sancus_time_fix \<lparr>tv_sec = 5, tv_nsec = - 1000000000\<rparr> = Inr (time_fix_sign ts, ts) \<and>
     1000000000 * tv_sec ts + tv_nsec ts = 4000000000 \<and> \<not> canonical ts"
  using time_fix_sum [of 5 "- 1000000000"] by simp

text \<open>
  The sign tests on canonical durations: \<open>sancus_time_is_zero\<close> and \<open>sancus_time_is_lt_zero\<close>
  agree with the value, while \<open>sancus_time_is_gt_zero\<close> holds only of durations above a second that
  are not a whole number of seconds.
\<close>

theorem time_sign_tests:
  assumes "canonical a"
  shows "(sancus_time_is_zero a \<longleftrightarrow> tv_value a = 0) \<and>
     (sancus_time_is_lt_zero a \<longleftrightarrow> tv_value a < 0) \<and>
     (sancus_time_is_gt_zero a \<longleftrightarrow> 1000000000 < tv_value a \<and> \<not> 1000000000 dvd tv_value a)"
proof -
  have "1000000000 dvd tv_value a \<longleftrightarrow> 1000000000 dvd tv_nsec a"
    by (cases "tv_sec a < 0") (simp_all add: tv_value_def dvd_add_right_iff dvd_diff_right_iff)
  moreover have "1000000000 dvd tv_nsec a \<longleftrightarrow> tv_nsec a = 0" if "0 \<le> tv_nsec a"
    using assms that by (auto simp: canonical_def split: if_splits dest: zdvd_imp_le)
  ultimately have "sancus_time_is_gt_zero a \<longleftrightarrow> 1000000000 < tv_value a \<and> \<not> 1000000000 dvd tv_value a"
    using assms by (auto simp: sancus_time_is_gt_zero_def canonical_def tv_value_def split: if_splits)
  then show ?thesis
    using assms
    by (auto simp: sancus_time_is_zero_def sancus_time_is_lt_zero_def canonical_def tv_value_def
        split: if_splits)
qed

theorem time_sign_tests_witness:
  "tv_value \<lparr>tv_sec = 3, tv_nsec = 0\<rparr> = 3000000000 \<and>
   \<not> sancus_time_is_gt_zero \<lparr>tv_sec = 3, tv_nsec = 0\<rparr>"
  using time_sign_tests [of "\<lparr>tv_sec = 3, tv_nsec = 0\<rparr>"] by (simp add: canonical_def tv_value_simps)

text \<open>
  Milliseconds survive the round trip through \<open>sancus_time_new_ms\<close> and
  \<open>sancus_time_ts_to_ms\<close> as long as they are not negative and fit in \<open>long\<close> as nanoseconds.
\<close>

theorem time_ms_roundtrip:
  assumes "0 \<le> ms" and "ms \<le> LONG_MAX div 1000000"
  shows "ebind (sancus_time_new_ms ms) sancus_time_ts_to_ms = Inr ms"
proof -
  let ?n = "1000000 * ms"
  have n: "0 \<le> ?n" "?n \<le> LONG_MAX" using assms by simp_all
  define q r where "q = ms div 1000" and "r = ms mod 1000"
  have qr: "ms = 1000 * q + r" "0 \<le> r" "r < 1000" "0 \<le> q"
    using assms(1) by (simp_all add: q_def r_def)
  have dm: "?n div 1000000000 = q" "?n mod 1000000000 = 1000000 * r"
    using qr by (auto intro: int_div_pos_eq [where r = "1000000 * r"] int_mod_pos_eq [where q = q])
  have "sancus_time_fix \<lparr>tv_sec = 0, tv_nsec = ?n\<rparr> =
      Inr (time_fix_sign \<lparr>tv_sec = q, tv_nsec = 1000000 * r\<rparr>, \<lparr>tv_sec = q, tv_nsec = 1000000 * r\<rparr>)"
  proof (cases "?n < 1000000000")
    case True
    then have "q = 0" using qr by linarith
    with True n qr show ?thesis using time_fix_keep [of ?n 0] by simp
  next
    case False
    with n qr assms(2) dm
    show ?thesis by (subst time_fix_carry) (auto simp: Let_def)
  qed
  then have new: "sancus_time_new_ms ms = Inr \<lparr>tv_sec = q, tv_nsec = 1000000 * r\<rparr>"
    using n by (simp add: sancus_time_new_ms_def TIMESPEC_INIT_MS_def TIMESPEC_INIT_def unit_defs)
  have "(1000000 * r + 500000) div 1000000 = r"
    by (rule int_div_pos_eq [where r = 500000]) simp_all
  then show ?thesis
    using qr assms(2) unfolding new
    by (simp add: sancus_time_ts_to_ms_def NS_TO_MS_ROUNDED_def unit_defs sdiv_nonneg sdiv_neg)
qed

theorem time_ms_roundtrip_witness:
  "ebind (sancus_time_new_ms 1500) sancus_time_ts_to_ms = Inr 1500 \<and>
   ebind (sancus_time_new_ms (- 1500)) sancus_time_ts_to_ms = Inr (- 2500)"
  using time_ms_roundtrip [of 1500]
  by (simp add: sancus_time_new_ms_def TIMESPEC_INIT_MS_def TIMESPEC_INIT_def unit_defs sdiv_neg
      sancus_time_fix_def sancus_time_ts_to_ms_def NS_TO_MS_ROUNDED_def sdiv_nonneg)

text \<open>
  Subtracting a later reading of the same second does not give the negative difference: with
  \<open>tv_sec\<close> equal and positive and the fraction of the subtrahend larger, \<open>sancus_time_sub\<close>
  answers ``positive'' and returns two seconds less the gap.
\<close>

theorem time_sub_same_second_wrong:
  assumes "1 \<le> s" and "s \<le> 2 ^ 61" and "0 \<le> m" and "m < n" and "n < 1000000000"
  shows "sancus_time_sub \<lparr>tv_sec = s, tv_nsec = m\<rparr> \<lparr>tv_sec = s, tv_nsec = n\<rparr> =
     Inr (1, \<lparr>tv_sec = 1, tv_nsec = 1000000000 - (n - m)\<rparr>)"
  using assms
  by (simp add: sancus_time_sub_def sancus_time_neg_def time_add_def unit_defs sdiv_neg
      time_fix_keep time_fix_sign_def)

theorem time_sub_same_second_wrong_witness:
  "sancus_time_sub \<lparr>tv_sec = 1, tv_nsec = 200000000\<rparr> \<lparr>tv_sec = 1, tv_nsec = 500000000\<rparr> =
     Inr (1, \<lparr>tv_sec = 1, tv_nsec = 700000000\<rparr>)"
  using time_sub_same_second_wrong [of 1 200000000 500000000] by simp

end
