(* ===== verification/Time_Tests.thy ===== *)
theory Time_Tests
  imports Time
begin

text \<open>
  The test program of the library, \<^verbatim>\<open>src/tests/time.c\<close>, run on the model: every expectation the authors
  wrote down holds of the definitions in \<open>Time\<close>. What the program prints is left out; a test is its
  contribution to the count of errors.
\<close>

subsection \<open>Checks\<close>

definition test_eq__long :: "string \<Rightarrow> int \<Rightarrow> int \<Rightarrow> int \<Rightarrow> int" where
  "test_eq__long fn v0 v1 v2 = (if v1 = v2 then 0 else 1)"

definition test_eq_long :: "string \<Rightarrow> (int \<Rightarrow> int) \<Rightarrow> int \<Rightarrow> int \<Rightarrow> int exec" where
  "test_eq_long fn F X Y = ebind (as_long (F X)) (\<lambda>v. Inr (test_eq__long fn X v Y))"

definition test_eq__time :: "string \<Rightarrow> timespec \<Rightarrow> timespec \<Rightarrow> timespec \<Rightarrow> int" where
  "test_eq__time fn v0 v1 v2 = (if sancus_time_is_eq v1 v2 then 0 else 1)"

definition test_eq_time :: "string \<Rightarrow> (int \<Rightarrow> int \<Rightarrow> timespec exec) \<Rightarrow> int \<Rightarrow> int \<Rightarrow> int \<Rightarrow> int \<Rightarrow> int exec" where
  "test_eq_time fn F A0 B0 A1 B1 =
     ebind (F A0 B0) (\<lambda>v. Inr (test_eq__time fn (TIMESPEC_INIT A0 B0) v (TIMESPEC_INIT A1 B1)))"

definition T :: "int \<Rightarrow> int \<Rightarrow> timespec exec" where
  "T S MS = TIMESPEC_INIT_MS S MS"

definition test_time_new :: "timespec exec \<Rightarrow> timespec exec \<Rightarrow> int exec" where
  "test_time_new V0 V2 =
     ebind V0 (\<lambda>v0. ebind V2 (\<lambda>v2. ebind (sancus_time_fix v0) (\<lambda>(_, v1).
       Inr (if sancus_time_is_eq v1 v2 then 0 else 1))))"

definition test__t0 :: "string \<Rightarrow> timespec \<Rightarrow> timespec \<Rightarrow> timespec \<Rightarrow> int" where
  "test__t0 fn v0 v1 v2 = (if sancus_time_is_eq v1 v2 then 0 else 1)"

definition test_t0 :: "string \<Rightarrow> (timespec \<Rightarrow> timespec exec) \<Rightarrow> timespec exec \<Rightarrow> timespec exec \<Rightarrow> int exec" where
  "test_t0 fn F T0 T2 =
     ebind T0 (\<lambda>v0. ebind (F v0) (\<lambda>v1. ebind T2 (\<lambda>v2. Inr (test__t0 fn v0 v1 v2))))"

definition test__t1 :: "string \<Rightarrow> timespec \<Rightarrow> timespec \<Rightarrow> int \<Rightarrow> int \<Rightarrow> int" where
  "test__t1 fn a b r0 r1 = (if r0 = r1 then 0 else 1)"

definition test_t1 :: "string \<Rightarrow> (timespec \<Rightarrow> timespec \<Rightarrow> bool exec) \<Rightarrow> timespec exec \<Rightarrow> timespec exec \<Rightarrow> int \<Rightarrow> int exec" where
  "test_t1 fn F A B rc =
     ebind A (\<lambda>a. ebind B (\<lambda>b. ebind (F a b) (\<lambda>r. Inr (test__t1 fn a b (if r then 1 else 0) rc))))"

definition test_time__add :: "timespec \<Rightarrow> timespec \<Rightarrow> timespec exec" where
  "test_time__add a b = ebind (sancus_time_add a b) (\<lambda>(_, a). Inr a)"

definition test_time__sub :: "timespec \<Rightarrow> timespec \<Rightarrow> timespec exec" where
  "test_time__sub a b = ebind (sancus_time_sub a b) (\<lambda>(_, a). Inr a)"

definition test_time__elapsed :: "timespec \<Rightarrow> timespec \<Rightarrow> timespec exec" where
  "test_time__elapsed a b = sancus_time_elapsed a b"

definition test_time__left :: "timespec \<Rightarrow> timespec \<Rightarrow> timespec exec" where
  "test_time__left a b = sancus_time_left a b"

definition test__t2 :: "string \<Rightarrow> timespec \<Rightarrow> timespec \<Rightarrow> timespec \<Rightarrow> timespec \<Rightarrow> int" where
  "test__t2 fn a b c d = (if sancus_time_is_eq c d then 0 else 1)"

definition test_t2 ::
  "string \<Rightarrow> (timespec \<Rightarrow> timespec \<Rightarrow> timespec exec) \<Rightarrow> timespec exec \<Rightarrow> timespec exec \<Rightarrow> timespec exec \<Rightarrow> int exec" where
  "test_t2 fn F A B C =
     ebind A (\<lambda>a. ebind B (\<lambda>b. ebind (F a b) (\<lambda>c. ebind C (\<lambda>d. Inr (test__t2 fn a b c d)))))"

subsection \<open>The program\<close>

definition time_unit_tests :: "int exec list" where
  "time_unit_tests =
     [test_eq_time ''TIMESPEC_INIT'' (\<lambda>s n. Inr (TIMESPEC_INIT s n)) 1 0 1 0,
      test_eq_time ''TIMESPEC_INIT'' (\<lambda>s n. Inr (TIMESPEC_INIT s n)) 1 2 1 2,
      test_eq_time ''TIMESPEC_INIT'' (\<lambda>s n. Inr (TIMESPEC_INIT s n)) 1 2000 1 2000,
      test_eq_time ''TIMESPEC_INIT_MS'' TIMESPEC_INIT_MS 1 0 1 0,
      test_eq_time ''TIMESPEC_INIT_MS'' TIMESPEC_INIT_MS 1 2 1 2000000,
      test_eq_long ''SEC_TO_NS'' SEC_TO_NS 1 1000000000,
      test_eq_long ''SEC_TO_US'' SEC_TO_US 1 1000000,
      test_eq_long ''SEC_TO_MS'' SEC_TO_MS 1 1000,
      test_eq_long ''MS_TO_NS'' MS_TO_NS 1 1000000,
      test_eq_long ''MS_TO_US'' MS_TO_US 1 1000,
      test_eq_long ''MS_TO_SEC'' MS_TO_SEC 1 0,
      test_eq_long ''MS_TO_SEC'' MS_TO_SEC 999 0,
      test_eq_long ''MS_TO_SEC'' MS_TO_SEC 1000 1,
      test_eq_long ''US_TO_NS'' US_TO_NS 1 1000,
      test_eq_long ''US_TO_MS'' US_TO_MS 1 0,
      test_eq_long ''US_TO_MS'' US_TO_MS 999 0,
      test_eq_long ''US_TO_MS'' US_TO_MS 1000 1,
      test_eq_long ''US_TO_SEC'' US_TO_SEC 1 0,
      test_eq_long ''US_TO_SEC'' US_TO_SEC 999 0,
      test_eq_long ''US_TO_SEC'' US_TO_SEC 999999 0,
      test_eq_long ''US_TO_SEC'' US_TO_SEC 1000000 1,
      test_eq_long ''NS_TO_US'' NS_TO_US 1 0,
      test_eq_long ''NS_TO_US'' NS_TO_US 999 0,
      test_eq_long ''NS_TO_US'' NS_TO_US 1000 1,
      test_eq_long ''NS_TO_MS'' NS_TO_MS 1 0,
      test_eq_long ''NS_TO_MS'' NS_TO_MS 999 0,
      test_eq_long ''NS_TO_MS'' NS_TO_MS 999999 0,
      test_eq_long ''NS_TO_MS'' NS_TO_MS 1000000 1,
      test_eq_long ''NS_TO_SEC'' NS_TO_SEC 1 0,
      test_eq_long ''NS_TO_SEC'' NS_TO_SEC 999 0,
      test_eq_long ''NS_TO_SEC'' NS_TO_SEC 999999 0,
      test_eq_long ''NS_TO_SEC'' NS_TO_SEC 999999999 0,
      test_eq_long ''NS_TO_SEC'' NS_TO_SEC 1000000000 1]"

definition time_fix_tests :: "int exec list" where
  "time_fix_tests =
     [test_time_new (T 0 0) (T 0 0),
      test_time_new (T 1 10) (T 1 10),
      test_time_new (T 1 999) (T 1 999),
      test_time_new (T 1 1000) (T 2 0),
      test_time_new (T 1 1001) (T 2 1),
      test_time_new (T 1 (-1)) (T 0 999)]"

definition time_neg_tests :: "int exec list" where
  "time_neg_tests =
     [test_t0 ''sancus_time_neg'' sancus_time_neg (T 0 0) (T 0 0),
      test_t0 ''sancus_time_neg'' sancus_time_neg (T 0 1) (T 0 (-1)),
      test_t0 ''sancus_time_neg'' sancus_time_neg (T 0 (-1)) (T 0 1),
      test_t0 ''sancus_time_neg'' sancus_time_neg (T 1 0) (T (-1) 0),
      test_t0 ''sancus_time_neg'' sancus_time_neg (T (-1) 0) (T 1 0),
      test_t0 ''sancus_time_neg'' sancus_time_neg (T 1 2) (T (-1) 2),
      test_t0 ''sancus_time_neg'' sancus_time_neg (T (-1) 2) (T 1 2)]"

definition time_gt_tests :: "int exec list" where
  "time_gt_tests =
     [test_t1 ''sancus_time_is_gt'' sancus_time_is_gt (T 0 2) (T 0 1) 1,
      test_t1 ''sancus_time_is_gt'' sancus_time_is_gt (T 1 0) (T 0 999) 1,
      test_t1 ''sancus_time_is_gt'' sancus_time_is_gt (T 1 0) (T 1 0) 0,
      test_t1 ''sancus_time_is_gt'' sancus_time_is_gt (T (-1) 0) (T (-2) 0) 1,
      test_t1 ''sancus_time_is_gt'' sancus_time_is_gt (T (-1) 100) (T (-1) 200) 1,
      test_t1 ''sancus_time_is_gt'' sancus_time_is_gt (T 0 (-100)) (T 0 (-200)) 1,
      test_t1 ''sancus_time_is_gt'' sancus_time_is_gt (T 0 (-200)) (T 0 (-100)) 0,
      test_t1 ''sancus_time_is_gt'' sancus_time_is_gt (T 0 (-100)) (T 0 (-100)) 0]"

definition time_add_tests :: "int exec list" where
  "time_add_tests =
     [test_t2 ''sancus_time_add'' test_time__add (T 0 2) (T 1 997) (T 1 999),
      test_t2 ''sancus_time_add'' test_time__add (T 0 2) (T 1 998) (T 2 0),
      test_t2 ''sancus_time_add'' test_time__add (T 0 2) (T 1 999) (T 2 1),
      test_t2 ''sancus_time_add'' test_time__add (T 0 (-2)) (T 1 1) (T 0 999),
      test_t2 ''sancus_time_add'' test_time__add (T 0 (-2)) (T 0 1) (T 0 (-1)),
      test_t2 ''sancus_time_add'' test_time__add (T 0 (-2)) (T 0 3) (T 0 1),
      test_t2 ''sancus_time_add'' test_time__add (T (-1) 200) (T 0 300) (T 0 (-900))]"

definition time_sub_tests :: "int exec list" where
  "time_sub_tests =
     [test_t2 ''sancus_time_sub'' test_time__sub (T 0 2) (T 0 1) (T 0 1),
      test_t2 ''sancus_time_sub'' test_time__sub (T 0 2) (T 0 2) (T 0 0),
      test_t2 ''sancus_time_sub'' test_time__sub (T 0 2) (T 0 3) (T 0 (-1)),
      test_t2 ''sancus_time_sub'' test_time__sub (T (-1) 200) (T 0 300) (T (-1) 500),
      test_t2 ''sancus_time_sub'' test_time__sub (T 2 100) (T 1 500) (T 0 600)]"

definition time_span_tests :: "int exec list" where
  "time_span_tests =
     [test_t2 ''sancus_time_left'' test_time__left (T 0 800) (T 1 100) (T 0 300),
      test_t2 ''sancus_time_left'' test_time__left (T 1 100) (T 1 100) (T 0 0),
      test_t2 ''sancus_time_left'' test_time__left (T 1 400) (T 1 100) (T 0 0),
      test_t2 ''sancus_time_elapsed'' test_time__elapsed (T 0 800) (T 1 100) (T 0 0),
      test_t2 ''sancus_time_elapsed'' test_time__elapsed (T 1 100) (T 1 100) (T 0 0),
      test_t2 ''sancus_time_elapsed'' test_time__elapsed (T 1 400) (T 1 100) (T 0 300)]"

text \<open>The statements \<open>err += ...\<close> in order.\<close>

fun sum_errors :: "int exec list \<Rightarrow> int \<Rightarrow> int exec" where
  "sum_errors [] err = Inr err"
| "sum_errors (t # ts) err = ebind t (\<lambda>e. chk Signed_Overflow (INT_MIN \<le> err + e \<and> err + e \<le> INT_MAX) (sum_errors ts (err + e)))"

definition time_tests_main :: "int exec" where
  "time_tests_main =
     ebind (sum_errors (time_unit_tests @ time_fix_tests @ time_neg_tests @ time_gt_tests @ time_add_tests @
       time_sub_tests @ time_span_tests) 0) (\<lambda>err. Inr (if err = 0 then 0 else 1))"

lemma sum_errors_append: "sum_errors (ts @ us) err = ebind (sum_errors ts err) (sum_errors us)"
  by (induction ts arbitrary: err) (auto simp: ebind_def chk_def split: sum.splits)

lemma time_groups_pass:
  "sum_errors time_unit_tests 0 = Inr 0" "sum_errors time_fix_tests 0 = Inr 0" "sum_errors time_neg_tests 0 = Inr 0"
  "sum_errors time_gt_tests 0 = Inr 0" "sum_errors time_add_tests 0 = Inr 0" "sum_errors time_sub_tests 0 = Inr 0"
  "sum_errors time_span_tests 0 = Inr 0"
  by code_simp+

text \<open>
  The test program finds no error: it runs to its end and returns zero.
\<close>

theorem time_tests_pass: "time_tests_main = Inr 0"
  by (simp add: time_tests_main_def sum_errors_append time_groups_pass)

end
