(* ===== verification/Clock.thy ===== *)
theory Clock
  imports Time
begin

text \<open>
  The clock of \<^verbatim>\<open>include/sancus/clock.h\<close> and \<^verbatim>\<open>src/sancus/clock.c\<close>. A clock is a function pointer with
  its data; the function is an argument of the model and gives an error code and a reading.
  \<open>clock_gettime\<close> of the system is an argument too. An output pointer is an option, \<open>None\<close> for \<open>NULL\<close>.
\<close>

type_synonym reading = "int \<times> timespec"

record sancus_clock =
  clk_f :: "(timespec option \<Rightarrow> reading) option"

definition sancus_gettime :: "reading \<Rightarrow> timespec option \<Rightarrow> int \<times> timespec option" where
  "sancus_gettime sys ts = (case ts of Some _ \<Rightarrow> (fst sys, Some (snd sys)) | None \<Rightarrow> (0, None))"

definition sancus_clock_gettime ::
  "reading \<Rightarrow> sancus_clock option \<Rightarrow> timespec option \<Rightarrow> int \<times> timespec option" where
  "sancus_clock_gettime sys clk ts =
     (let (err, ts') =
        (case clk of
           Some c \<Rightarrow>
             (case clk_f c of
                Some f \<Rightarrow> (fst (f ts), case ts of Some _ \<Rightarrow> Some (snd (f ts)) | None \<Rightarrow> None)
              | None \<Rightarrow> sancus_gettime sys ts)
         | None \<Rightarrow> sancus_gettime sys ts)
      in if err \<noteq> 0 \<and> ts \<noteq> None then (err, Some \<lparr>tv_sec = 0, tv_nsec = 0\<rparr>) else (err, ts'))"

text \<open>The static variable \<open>backend\<close> is the state.\<close>

definition sancus_set_now_clock :: "sancus_clock option \<Rightarrow> sancus_clock option \<Rightarrow> sancus_clock option" where
  "sancus_set_now_clock clk backend = (case clk of Some c \<Rightarrow> Some c | None \<Rightarrow> None)"

definition sancus_now :: "reading \<Rightarrow> sancus_clock option \<Rightarrow> timespec option \<Rightarrow> int \<times> timespec option" where
  "sancus_now sys backend ts = sancus_clock_gettime sys backend ts"

definition sancus_now_ts :: "reading \<Rightarrow> sancus_clock option \<Rightarrow> timespec \<Rightarrow> timespec" where
  "sancus_now_ts sys backend ts0 =
     (case sancus_now sys backend (Some ts0) of (_, Some ts) \<Rightarrow> ts | (_, None) \<Rightarrow> ts0)"

text \<open>
  \<open>sancus_now\<close> reads the clock that was set, the system's when none was or it has no function, and
  a failing clock gives a zero reading with its error, never what the variable held.
\<close>

theorem now_spec:
  "sancus_now sys (sancus_set_now_clock clk old) (Some ts0) =
     (let r = (case clk of Some c \<Rightarrow> (case clk_f c of Some f \<Rightarrow> f (Some ts0) | None \<Rightarrow> sys) | None \<Rightarrow> sys)
      in if fst r = 0 then (0, Some (snd r)) else (fst r, Some \<lparr>tv_sec = 0, tv_nsec = 0\<rparr>)) \<and>
   sancus_now_ts sys None ts0 =
     (if fst sys = 0 then snd sys else \<lparr>tv_sec = 0, tv_nsec = 0\<rparr>)"
  by (auto simp: sancus_now_def sancus_now_ts_def sancus_set_now_clock_def sancus_clock_gettime_def
      sancus_gettime_def Let_def split: option.splits)

end
