(* ===== verification/Types.thy ===== *)
theory Types
  imports Prelude
begin

text \<open>
  The numeric conversions of \<^verbatim>\<open>include/sancus/types.h\<close>. Each use of a template macro declares two
  functions: \<open>sancus_N\<close>, which asserts that the value is in range, and \<open>sancus_get_N\<close>, which returns
  whether it is and then stores it. The templates are definitions over the test and the conversion;
  an output pointer is an option, \<open>None\<close> for \<open>NULL\<close>. The conversions to \<open>double\<close> are in \<open>Types_Fp\<close>.
\<close>

subsection \<open>Templates\<close>

definition converted :: "('a \<Rightarrow> bool) \<Rightarrow> ('a \<Rightarrow> 'b) \<Rightarrow> 'a \<Rightarrow> 'b exec" where
  "converted test fn v = chk Assert_Fail (test v) (Inr (fn v))"

definition get_converted :: "('a \<Rightarrow> bool) \<Rightarrow> ('a \<Rightarrow> 'b) \<Rightarrow> 'a \<Rightarrow> 'b option \<Rightarrow> bool \<times> 'b option" where
  "get_converted test fn v out =
     (if test v then (True, case out of Some _ \<Rightarrow> Some (fn v) | None \<Rightarrow> None) else (False, out))"

definition gele :: "'a::ord \<Rightarrow> 'a \<Rightarrow> 'a \<Rightarrow> bool" where
  "gele a b v \<longleftrightarrow> v \<ge> a \<and> v \<le> b"

text \<open>
  The templates over the comparisons \<open>CA\<close> and \<open>CB\<close> of the value with a bound, given by the caller or (\<open>_K\<close>)
  with the declaration: each stands for the pair of functions it declares. The conversion is a cast, a
  cast of the masked value, or a function.
\<close>

type_synonym ('a, 'b) conversion = "('a \<Rightarrow> 'b exec) \<times> ('a \<Rightarrow> 'b option \<Rightarrow> bool \<times> 'b option)"

definition GET_CONVERTED :: "('a \<Rightarrow> bool) \<Rightarrow> ('a \<Rightarrow> 'b) \<Rightarrow> ('a, 'b) conversion" where
  "GET_CONVERTED test fn = (converted test fn, get_converted test fn)"

definition NUMERIC_CMP1_CAST :: "('a \<Rightarrow> 'b) \<Rightarrow> ('a \<Rightarrow> 'a \<Rightarrow> bool) \<Rightarrow> 'a \<Rightarrow> ('a, 'b) conversion" where
  "NUMERIC_CMP1_CAST cast CA a = GET_CONVERTED (\<lambda>v. CA v a) cast"

definition NUMERIC_CMP1_MASK ::
  "('a::semiring_bit_operations \<Rightarrow> 'b) \<Rightarrow> ('a \<Rightarrow> 'a \<Rightarrow> bool) \<Rightarrow> 'a \<Rightarrow> 'a \<Rightarrow> ('a, 'b) conversion" where
  "NUMERIC_CMP1_MASK cast CA M a = GET_CONVERTED (\<lambda>v. CA v a) (\<lambda>v. cast (v AND M))"

definition NUMERIC_CMP1_F :: "('a \<Rightarrow> 'a \<Rightarrow> bool) \<Rightarrow> ('a \<Rightarrow> 'b) \<Rightarrow> 'a \<Rightarrow> ('a, 'b) conversion" where
  "NUMERIC_CMP1_F CA F a = GET_CONVERTED (\<lambda>v. CA v a) F"

definition NUMERIC_CMP1_CAST_K :: "('a \<Rightarrow> 'b) \<Rightarrow> ('a \<Rightarrow> 'a \<Rightarrow> bool) \<Rightarrow> 'a \<Rightarrow> ('a, 'b) conversion" where
  "NUMERIC_CMP1_CAST_K cast CA A = GET_CONVERTED (\<lambda>v. CA v A) cast"

definition NUMERIC_CMP2_CAST ::
  "('a \<Rightarrow> 'b) \<Rightarrow> ('a \<Rightarrow> 'a \<Rightarrow> bool) \<Rightarrow> ('a \<Rightarrow> 'a \<Rightarrow> bool) \<Rightarrow> 'a \<Rightarrow> 'a \<Rightarrow> ('a, 'b) conversion" where
  "NUMERIC_CMP2_CAST cast CA CB a b = GET_CONVERTED (\<lambda>v. CA v a \<and> CB v b) cast"

definition NUMERIC_CMP2_MASK ::
  "('a::semiring_bit_operations \<Rightarrow> 'b) \<Rightarrow> ('a \<Rightarrow> 'a \<Rightarrow> bool) \<Rightarrow> ('a \<Rightarrow> 'a \<Rightarrow> bool) \<Rightarrow> 'a \<Rightarrow> 'a \<Rightarrow> 'a \<Rightarrow>
   ('a, 'b) conversion" where
  "NUMERIC_CMP2_MASK cast CA CB M a b = GET_CONVERTED (\<lambda>v. CA v a \<and> CB v b) (\<lambda>v. cast (v AND M))"

definition NUMERIC_CMP2_F ::
  "('a \<Rightarrow> 'a \<Rightarrow> bool) \<Rightarrow> ('a \<Rightarrow> 'a \<Rightarrow> bool) \<Rightarrow> ('a \<Rightarrow> 'b) \<Rightarrow> 'a \<Rightarrow> 'a \<Rightarrow> ('a, 'b) conversion" where
  "NUMERIC_CMP2_F CA CB F a b = GET_CONVERTED (\<lambda>v. CA v a \<and> CB v b) F"

definition NUMERIC_CMP2_CAST_K ::
  "('a \<Rightarrow> 'b) \<Rightarrow> ('a \<Rightarrow> 'a \<Rightarrow> bool) \<Rightarrow> 'a \<Rightarrow> ('a \<Rightarrow> 'a \<Rightarrow> bool) \<Rightarrow> 'a \<Rightarrow> ('a, 'b) conversion" where
  "NUMERIC_CMP2_CAST_K cast CA A CB B = GET_CONVERTED (\<lambda>v. CA v A \<and> CB v B) cast"

definition NUMERIC_GELE_CAST :: "('a::ord \<Rightarrow> 'b) \<Rightarrow> 'a \<Rightarrow> 'a \<Rightarrow> ('a, 'b) conversion" where
  "NUMERIC_GELE_CAST cast = NUMERIC_CMP2_CAST cast (\<lambda>v a. v \<ge> a) (\<lambda>v b. v \<le> b)"

definition NUMERIC_GELE_CAST_K :: "('a::ord \<Rightarrow> 'b) \<Rightarrow> 'a \<Rightarrow> 'a \<Rightarrow> ('a, 'b) conversion" where
  "NUMERIC_GELE_CAST_K cast A B = NUMERIC_CMP2_CAST_K cast (\<lambda>v a. v \<ge> a) A (\<lambda>v b. v \<le> b) B"

text \<open>\<open>DECL_SANCUS_uint\<close> and \<open>DECL_SANCUS_uintu\<close>, with the cast to the type and its mask.\<close>

definition DECL_uint :: "('a::{ord,zero} \<Rightarrow> 'b) \<Rightarrow> 'a \<Rightarrow> ('a, 'b) conversion" where
  "DECL_uint cast MASK = NUMERIC_GELE_CAST_K cast 0 MASK"

definition DECL_uintu :: "('a::ord \<Rightarrow> 'b) \<Rightarrow> 'a \<Rightarrow> ('a, 'b) conversion" where
  "DECL_uintu cast MASK = NUMERIC_CMP1_CAST_K cast (\<lambda>v a. v \<le> a) MASK"

lemma gele_template: "NUMERIC_GELE_CAST cast a b = GET_CONVERTED (gele a b) cast"
    "NUMERIC_GELE_CAST_K cast a b = GET_CONVERTED (gele a b) cast"
  by (simp_all add: NUMERIC_GELE_CAST_def NUMERIC_CMP2_CAST_def NUMERIC_GELE_CAST_K_def NUMERIC_CMP2_CAST_K_def
      GET_CONVERTED_def gele_def [abs_def])

text \<open>
  The two functions of a declaration agree: the one returns where the other says so, with the value the
  other stores.
\<close>

lemma conversion_agrees:
  "fst (GET_CONVERTED test fn) v = Inr r \<longleftrightarrow> snd (GET_CONVERTED test fn) v (Some old) = (True, Some r)"
  "fst (GET_CONVERTED test fn) v = Inl e \<longleftrightarrow>
     e = Assert_Fail \<and> snd (GET_CONVERTED test fn) v out = (False, out)"
  by (auto simp: GET_CONVERTED_def converted_def get_converted_def chk_def)

text \<open>A mask that keeps the values the bound lets through changes nothing.\<close>

lemma mask_is_cast:
  fixes a :: "'w::len word"
  assumes "\<And>v. CA v a \<Longrightarrow> v \<le> mask n"
  shows "NUMERIC_CMP1_MASK cast CA (mask n) a = NUMERIC_CMP1_CAST cast CA a"
proof -
  have "v AND mask n = v" if "CA v a" for v
  proof -
    have "uint v \<le> uint (mask n :: 'w word)" using assms [OF that] by (simp add: word_le_def)
    also have "\<dots> = mask (min LENGTH('w) n)" by transfer simp
    also have "\<dots> \<le> mask n" unfolding mask_eq_exp_minus_1 by (intro diff_right_mono power_increasing) simp_all
    finally have "take_bit n (uint v) = uint v" by (simp add: take_bit_int_eq_self_iff mask_eq_exp_minus_1)
    then show ?thesis by (simp add: and_mask_bintr)
  qed
  then show ?thesis
    by (auto simp: NUMERIC_CMP1_MASK_def NUMERIC_CMP1_CAST_def GET_CONVERTED_def converted_def [abs_def]
        get_converted_def [abs_def] chk_def fun_eq_iff split: option.split)
qed

subsection \<open>Ranges given by the caller\<close>

definition sancus_urll :: "int \<Rightarrow> int \<Rightarrow> int \<Rightarrow> u32 exec" where
  "sancus_urll v a b = converted (gele a b) word_of_int v"

definition sancus_get_urll :: "int \<Rightarrow> int \<Rightarrow> int \<Rightarrow> u32 option \<Rightarrow> bool \<times> u32 option" where
  "sancus_get_urll v a b = get_converted (gele a b) word_of_int v"

definition sancus_urzu :: "u64 \<Rightarrow> u64 \<Rightarrow> u64 \<Rightarrow> u32 exec" where
  "sancus_urzu v a b = converted (gele a b) ucast v"

definition sancus_get_urzu :: "u64 \<Rightarrow> u64 \<Rightarrow> u64 \<Rightarrow> u32 option \<Rightarrow> bool \<times> u32 option" where
  "sancus_get_urzu v a b = get_converted (gele a b) ucast v"

definition sancus_urzd :: "int \<Rightarrow> int \<Rightarrow> int \<Rightarrow> u32 exec" where
  "sancus_urzd v a b = converted (gele a b) word_of_int v"

definition sancus_get_urzd :: "int \<Rightarrow> int \<Rightarrow> int \<Rightarrow> u32 option \<Rightarrow> bool \<times> u32 option" where
  "sancus_get_urzd v a b = get_converted (gele a b) word_of_int v"

definition sancus_drl :: "int \<Rightarrow> int \<Rightarrow> int \<Rightarrow> int exec" where
  "sancus_drl v a b = converted (gele a b) int_cast v"

definition sancus_get_drl :: "int \<Rightarrow> int \<Rightarrow> int \<Rightarrow> int option \<Rightarrow> bool \<times> int option" where
  "sancus_get_drl v a b = get_converted (gele a b) int_cast v"

definition sancus_drll :: "int \<Rightarrow> int \<Rightarrow> int \<Rightarrow> int exec" where
  "sancus_drll v a b = converted (gele a b) int_cast v"

definition sancus_get_drll :: "int \<Rightarrow> int \<Rightarrow> int \<Rightarrow> int option \<Rightarrow> bool \<times> int option" where
  "sancus_get_drll v a b = get_converted (gele a b) int_cast v"

definition sancus_drzu :: "u64 \<Rightarrow> u64 \<Rightarrow> u64 \<Rightarrow> int exec" where
  "sancus_drzu v a b = converted (gele a b) (\<lambda>v. int_cast (uint v)) v"

definition sancus_get_drzu :: "u64 \<Rightarrow> u64 \<Rightarrow> u64 \<Rightarrow> int option \<Rightarrow> bool \<times> int option" where
  "sancus_get_drzu v a b = get_converted (gele a b) (\<lambda>v. int_cast (uint v)) v"

definition sancus_drzd :: "int \<Rightarrow> int \<Rightarrow> int \<Rightarrow> int exec" where
  "sancus_drzd v a b = converted (gele a b) int_cast v"

definition sancus_get_drzd :: "int \<Rightarrow> int \<Rightarrow> int \<Rightarrow> int option \<Rightarrow> bool \<times> int option" where
  "sancus_get_drzd v a b = get_converted (gele a b) int_cast v"

subsection \<open>The uintN_t types\<close>

abbreviation MASK8 :: int where "MASK8 \<equiv> 0xff"
abbreviation MASK16 :: int where "MASK16 \<equiv> 0xffff"
abbreviation MASK32 :: int where "MASK32 \<equiv> 0xffffffff"

definition sancus_u32ll :: "int \<Rightarrow> u32 exec" where "sancus_u32ll v = converted (gele 0 MASK32) word_of_int v"
definition sancus_u16ll :: "int \<Rightarrow> u16 exec" where "sancus_u16ll v = converted (gele 0 MASK16) word_of_int v"
definition sancus_u8ll :: "int \<Rightarrow> byte exec" where "sancus_u8ll v = converted (gele 0 MASK8) word_of_int v"

definition sancus_u32l :: "int \<Rightarrow> u32 exec" where "sancus_u32l v = converted (gele 0 MASK32) word_of_int v"
definition sancus_u16l :: "int \<Rightarrow> u16 exec" where "sancus_u16l v = converted (gele 0 MASK16) word_of_int v"
definition sancus_u8l :: "int \<Rightarrow> byte exec" where "sancus_u8l v = converted (gele 0 MASK8) word_of_int v"

definition sancus_u32zd :: "int \<Rightarrow> u32 exec" where "sancus_u32zd v = converted (gele 0 MASK32) word_of_int v"
definition sancus_u16zd :: "int \<Rightarrow> u16 exec" where "sancus_u16zd v = converted (gele 0 MASK16) word_of_int v"
definition sancus_u8zd :: "int \<Rightarrow> byte exec" where "sancus_u8zd v = converted (gele 0 MASK8) word_of_int v"

definition sancus_u32zu :: "u64 \<Rightarrow> u32 exec" where "sancus_u32zu v = converted (\<lambda>v. v \<le> 0xffffffff) ucast v"
definition sancus_u16zu :: "u64 \<Rightarrow> u16 exec" where "sancus_u16zu v = converted (\<lambda>v. v \<le> 0xffff) ucast v"
definition sancus_u8zu :: "u64 \<Rightarrow> byte exec" where "sancus_u8zu v = converted (\<lambda>v. v \<le> 0xff) ucast v"

definition sancus_get_u32ll :: "int \<Rightarrow> u32 option \<Rightarrow> bool \<times> u32 option" where
  "sancus_get_u32ll v = get_converted (gele 0 MASK32) word_of_int v"
definition sancus_get_u16ll :: "int \<Rightarrow> u16 option \<Rightarrow> bool \<times> u16 option" where
  "sancus_get_u16ll v = get_converted (gele 0 MASK16) word_of_int v"
definition sancus_get_u8ll :: "int \<Rightarrow> byte option \<Rightarrow> bool \<times> byte option" where
  "sancus_get_u8ll v = get_converted (gele 0 MASK8) word_of_int v"
definition sancus_get_u32l :: "int \<Rightarrow> u32 option \<Rightarrow> bool \<times> u32 option" where
  "sancus_get_u32l v = get_converted (gele 0 MASK32) word_of_int v"
definition sancus_get_u16l :: "int \<Rightarrow> u16 option \<Rightarrow> bool \<times> u16 option" where
  "sancus_get_u16l v = get_converted (gele 0 MASK16) word_of_int v"
definition sancus_get_u8l :: "int \<Rightarrow> byte option \<Rightarrow> bool \<times> byte option" where
  "sancus_get_u8l v = get_converted (gele 0 MASK8) word_of_int v"
definition sancus_get_u32zd :: "int \<Rightarrow> u32 option \<Rightarrow> bool \<times> u32 option" where
  "sancus_get_u32zd v = get_converted (gele 0 MASK32) word_of_int v"
definition sancus_get_u16zd :: "int \<Rightarrow> u16 option \<Rightarrow> bool \<times> u16 option" where
  "sancus_get_u16zd v = get_converted (gele 0 MASK16) word_of_int v"
definition sancus_get_u8zd :: "int \<Rightarrow> byte option \<Rightarrow> bool \<times> byte option" where
  "sancus_get_u8zd v = get_converted (gele 0 MASK8) word_of_int v"
definition sancus_get_u32zu :: "u64 \<Rightarrow> u32 option \<Rightarrow> bool \<times> u32 option" where
  "sancus_get_u32zu v = get_converted (\<lambda>v. v \<le> 0xffffffff) ucast v"
definition sancus_get_u8zu :: "u64 \<Rightarrow> byte option \<Rightarrow> bool \<times> byte option" where
  "sancus_get_u8zu v = get_converted (\<lambda>v. v \<le> 0xff) ucast v"
definition sancus_get_u16zu :: "u64 \<Rightarrow> u16 option \<Rightarrow> bool \<times> u16 option" where
  "sancus_get_u16zu v = get_converted (\<lambda>v. v \<le> 0xffff) ucast v"

text \<open>The declarations are instances of the templates.\<close>

lemma declared_ranges:
  "NUMERIC_GELE_CAST word_of_int a b = (\<lambda>v. sancus_urll v a b, \<lambda>v. sancus_get_urll v a b)"
  "NUMERIC_GELE_CAST ucast c d = (\<lambda>v. sancus_urzu v c d, \<lambda>v. sancus_get_urzu v c d)"
  "NUMERIC_GELE_CAST int_cast a b = (\<lambda>v. sancus_drl v a b, \<lambda>v. sancus_get_drl v a b)"
  by (simp_all add: gele_template GET_CONVERTED_def sancus_urll_def sancus_get_urll_def sancus_urzu_def
      sancus_get_urzu_def sancus_drl_def sancus_get_drl_def)

lemma declared_uints:
  "DECL_uint word_of_int MASK32 = (sancus_u32ll, sancus_get_u32ll)"
  "DECL_uint word_of_int MASK16 = (sancus_u16l, sancus_get_u16l)"
  "DECL_uint word_of_int MASK8 = (sancus_u8zd, sancus_get_u8zd)"
  "DECL_uintu ucast 0xffff = (sancus_u16zu, sancus_get_u16zu)"
  by (simp_all add: DECL_uint_def DECL_uintu_def gele_template NUMERIC_CMP1_CAST_K_def GET_CONVERTED_def fun_eq_iff
      sancus_u32ll_def sancus_get_u32ll_def sancus_u16l_def sancus_get_u16l_def sancus_u8zd_def sancus_get_u8zd_def
      sancus_u16zu_def sancus_get_u16zu_def)

subsection \<open>Strings to numbers\<close>

text \<open>
  \<open>strtol\<close> and its relatives in base ten: white space, a sign, digits; the value is clamped to the
  range of the type, and the end is the first byte not taken, the start when there is no digit.
\<close>

definition is_space :: "byte \<Rightarrow> bool" where
  "is_space c \<longleftrightarrow> c = 32 \<or> (9 \<le> c \<and> c \<le> 13)"

definition is_digit :: "byte \<Rightarrow> bool" where
  "is_digit c \<longleftrightarrow> 48 \<le> c \<and> c \<le> 57"

definition digits_value :: "byte list \<Rightarrow> int" where
  "digits_value ds = foldl (\<lambda>a c. 10 * a + (uint c - 48)) 0 ds"

definition split_sign :: "byte list \<Rightarrow> bool \<times> byte list" where
  "split_sign r = (case r of c # cs \<Rightarrow> if c = 45 then (True, cs) else if c = 43 then (False, cs) else (False, r)
                   | [] \<Rightarrow> (False, r))"

definition strto :: "(bool \<Rightarrow> int \<Rightarrow> int) \<Rightarrow> byte list \<Rightarrow> (int \<times> nat) exec" where
  "strto fin blk =
     (let (neg, r) = split_sign (dropWhile is_space blk);
          ds = takeWhile is_digit r; rest = dropWhile is_digit r
      in if rest = [] then Inl Bad_Access
         else if ds = [] then Inr (0, 0)
         else Inr (fin neg (digits_value ds), length blk - length rest))"

definition clamp :: "int \<Rightarrow> int \<Rightarrow> int \<Rightarrow> int" where
  "clamp lo hi v = max lo (min hi v)"

definition strtol :: "byte list \<Rightarrow> (int \<times> nat) exec" where
  "strtol = strto (\<lambda>neg n. clamp LONG_MIN LONG_MAX (if neg then - n else n))"

definition strtoul :: "byte list \<Rightarrow> (int \<times> nat) exec" where
  "strtoul = strto (\<lambda>neg n. if n \<ge> 2 ^ 64 then 2 ^ 64 - 1 else if neg then (- n) mod 2 ^ 64 else n)"

text \<open>
  The template \<open>DECL_SANCUS_STRTO\<close> over the zero of the type and the library function: the result
  and \<open>*out\<close>.
\<close>

definition get_strto :: "'v \<Rightarrow> (byte list \<Rightarrow> ('v \<times> nat) exec) \<Rightarrow> byte list option \<Rightarrow> (bool \<times> 'v) exec" where
  "get_strto z F s =
     (case s of
        None \<Rightarrow> Inr (False, z)
      | Some blk \<Rightarrow>
          ebind (mem_get 0 1 blk) (\<lambda>c.
            if c = [0] then Inr (False, z)
            else ebind (F blk) (\<lambda>(v, e).
              ebind (mem_get e 1 blk) (\<lambda>d. Inr (d = [0], v)))))"

definition sancus_get_ls :: "byte list option \<Rightarrow> (bool \<times> int) exec" where "sancus_get_ls = get_strto 0 strtol"
definition sancus_get_lls :: "byte list option \<Rightarrow> (bool \<times> int) exec" where "sancus_get_lls = get_strto 0 strtol"
definition sancus_get_uls :: "byte list option \<Rightarrow> (bool \<times> int) exec" where "sancus_get_uls = get_strto 0 strtoul"
definition sancus_get_ulls :: "byte list option \<Rightarrow> (bool \<times> int) exec" where "sancus_get_ulls = get_strto 0 strtoul"

text \<open>\<open>DECL_SANCUS_GELE_STRTO\<close>: parse, then convert within the caller's range.\<close>

definition get_gele_strto ::
  "(byte list option \<Rightarrow> (bool \<times> 'v) exec) \<Rightarrow> ('v \<Rightarrow> 'v \<Rightarrow> 'v \<Rightarrow> 'b option \<Rightarrow> bool \<times> 'b option) \<Rightarrow>
   byte list option \<Rightarrow> 'v \<Rightarrow> 'v \<Rightarrow> 'b option \<Rightarrow> (bool \<times> 'b option) exec" where
  "get_gele_strto F0 F1 s a b out =
     ebind (F0 s) (\<lambda>(ok, v). Inr (if ok then F1 v a b out else (False, out)))"

definition sancus_get_urlls :: "byte list option \<Rightarrow> int \<Rightarrow> int \<Rightarrow> u32 option \<Rightarrow> (bool \<times> u32 option) exec" where
  "sancus_get_urlls = get_gele_strto sancus_get_lls sancus_get_urll"

definition sancus_get_drls :: "byte list option \<Rightarrow> int \<Rightarrow> int \<Rightarrow> int option \<Rightarrow> (bool \<times> int option) exec" where
  "sancus_get_drls = get_gele_strto sancus_get_ls sancus_get_drl"

definition sancus_get_drlls :: "byte list option \<Rightarrow> int \<Rightarrow> int \<Rightarrow> int option \<Rightarrow> (bool \<times> int option) exec" where
  "sancus_get_drlls = get_gele_strto sancus_get_lls sancus_get_drll"

text \<open>\<open>DECL_SANCUS_GELE_STRTO_K\<close>: parse, then convert within the range of the declaration.\<close>

definition get_gele_strto_k ::
  "(byte list option \<Rightarrow> (bool \<times> 'v::ord) exec) \<Rightarrow> ('v \<Rightarrow> 'b) \<Rightarrow> 'v \<Rightarrow> 'v \<Rightarrow>
   byte list option \<Rightarrow> 'b option \<Rightarrow> (bool \<times> 'b option) exec" where
  "get_gele_strto_k F0 cast A B s out =
     ebind (F0 s) (\<lambda>(ok, v).
       Inr (if ok \<and> v \<ge> A \<and> v \<le> B
            then (True, case out of Some _ \<Rightarrow> Some (cast v) | None \<Rightarrow> None) else (False, out)))"

definition sancus_get_ds :: "byte list option \<Rightarrow> int option \<Rightarrow> (bool \<times> int option) exec" where
  "sancus_get_ds = get_gele_strto_k sancus_get_ls int_cast INT_MIN INT_MAX"

subsection \<open>Decimal strings\<close>

fun dec_nat :: "nat \<Rightarrow> byte list" where
  "dec_nat n = (if n < 10 then [word_of_nat (48 + n)] else dec_nat (n div 10) @ [word_of_nat (48 + n mod 10)])"

declare dec_nat.simps [simp del]

definition dec :: "int \<Rightarrow> byte list" where
  "dec z = (if z < 0 then 45 # dec_nat (nat (- z)) else dec_nat (nat z))"

lemma uint_digit: "n < 10 \<Longrightarrow> uint (word_of_nat (48 + n) :: byte) = int n + 48"
proof -
  assume "n < 10"
  then have "unat (word_of_nat (48 + n) :: byte) = 48 + n" by (intro unat_of_nat_small) simp
  then have "int (unat (word_of_nat (48 + n) :: byte)) = int n + 48" by (simp del: int_nat_eq)
  then show ?thesis by simp
qed

lemma is_digit_dec: "n < 10 \<Longrightarrow> is_digit (word_of_nat (48 + n))"
  using uint_digit [of n] by (simp add: is_digit_def word_le_def del: of_nat_add)

lemma dec_nat_digits: "list_all is_digit (dec_nat n)"
  by (induction n rule: dec_nat.induct)
    (subst dec_nat.simps, simp add: is_digit_dec del: of_nat_add)

lemma dec_nat_value: "digits_value (dec_nat n) = int n"
proof (induction n rule: dec_nat.induct)
  case (1 n)
  show ?case
  proof (cases "n < 10")
    case True
    then show ?thesis
      by (subst dec_nat.simps) (simp add: digits_value_def uint_digit del: of_nat_add)
  next
    case False
    have "10 * (int n div 10) + int n mod 10 = int n" by simp
    with 1 False show ?thesis
      by (subst dec_nat.simps)
        (simp add: digits_value_def uint_digit zdiv_int zmod_int del: of_nat_add)
  qed
qed

lemma dec_nat_ne: "dec_nat n \<noteq> []"
  by (subst dec_nat.simps) simp

lemma dec_nat_length: "n < 10 ^ Suc k \<Longrightarrow> length (dec_nat n) \<le> Suc k"
proof (induction k arbitrary: n)
  case 0
  then show ?case by (subst dec_nat.simps) simp
next
  case (Suc k)
  then have "n div 10 < 10 ^ Suc k" by (simp add: div_less_iff_less_mult)
  with Suc.IH [of "n div 10"] show ?case by (subst dec_nat.simps) simp
qed

lemma digit_not_sign: "is_digit c \<Longrightarrow> c \<noteq> 45 \<and> c \<noteq> 43 \<and> c \<noteq> 0 \<and> \<not> is_space c"
  by (auto simp: is_digit_def is_space_def word_le_def)

lemma dec_sign: "split_sign (dropWhile is_space (dec z @ r)) = (z < 0, dec_nat (nat \<bar>z\<bar>) @ r)"
proof -
  obtain d ds where d: "dec_nat (nat \<bar>z\<bar>) = d # ds" using dec_nat_ne by (meson neq_Nil_conv)
  then have "is_digit d" using dec_nat_digits [of "nat \<bar>z\<bar>"] by simp
  with d digit_not_sign [of d] show ?thesis
    by (auto simp: dec_def split_sign_def is_space_def abs_if)
qed

lemma takeWhile_digits:
  "takeWhile is_digit (dec_nat n @ 0 # r) = dec_nat n" "dropWhile is_digit (dec_nat n @ 0 # r) = 0 # r"
proof -
  have "\<not> is_digit 0" by (simp add: is_digit_def)
  moreover have "\<And>x. x \<in> set (dec_nat n) \<Longrightarrow> is_digit x"
    using dec_nat_digits [of n] by (simp add: list_all_iff)
  ultimately show "takeWhile is_digit (dec_nat n @ 0 # r) = dec_nat n"
      "dropWhile is_digit (dec_nat n @ 0 # r) = 0 # r"
    by (simp_all add: takeWhile_append2 dropWhile_append2)
qed

lemma strto_dec: "strto fin (dec z @ 0 # r) = Inr (fin (z < 0) \<bar>z\<bar>, length (dec z))"
  unfolding strto_def dec_sign Let_def prod.case takeWhile_digits
  by (simp add: dec_nat_value dec_nat_ne)

lemma get_strto_dec:
  assumes "F = strto fin"
  shows "get_strto 0 F (Some (dec z @ 0 # r)) = Inr (True, fin (z < 0) \<bar>z\<bar>)"
proof -
  obtain c cs where c: "dec z = c # cs" "c \<noteq> 0"
  proof (cases "z < 0")
    case False
    obtain d ds where d: "dec_nat (nat z) = d # ds" using dec_nat_ne by (meson neq_Nil_conv)
    with digit_not_sign [of d] dec_nat_digits [of "nat z"] have "d \<noteq> 0" by simp
    with d False that show ?thesis by (simp add: dec_def)
  qed (simp add: dec_def)
  then show ?thesis
    using strto_dec [of fin z r] assms by (simp add: get_strto_def)
qed

lemma uint_of_int_small: "0 \<le> v \<Longrightarrow> v < 2 ^ LENGTH('a) \<Longrightarrow> uint (word_of_int v :: 'a::len word) = v"
  by (simp add: unsigned_of_int take_bit_int_eq_self)

subsection \<open>Properties\<close>

text \<open>
  \<open>sancus_get_ls\<close> reads the decimal text of every number of the type back, and takes the text of
  every other number too, storing the nearest limit: an overflow goes unnoticed.
\<close>

theorem get_ls_decimal:
  "sancus_get_ls (Some (dec z @ 0 # rest)) =
     Inr (True, if z < LONG_MIN then LONG_MIN else if z > LONG_MAX then LONG_MAX else z)"
  using get_strto_dec [OF strtol_def, of z rest] by (auto simp: sancus_get_ls_def clamp_def)

text \<open>
  \<open>sancus_get_ds\<close> reads the decimal text of exactly the numbers of type \<open>int\<close> and stores nothing
  for the others.
\<close>

theorem get_ds_decimal:
  "sancus_get_ds (Some (dec z @ 0 # rest)) (Some old) =
     Inr (if INT_MIN \<le> z \<and> z \<le> INT_MAX then (True, Some z) else (False, Some old))"
  using get_strto_dec [OF strtol_def, of z rest]
  by (auto simp: sancus_get_ds_def get_gele_strto_k_def sancus_get_ls_def clamp_def)

text \<open>
  The checked conversions to the \<open>uintN_t\<close> types keep the value, and stop the program on exactly
  the values that do not fit.
\<close>

theorem uint_conversions_exact:
  "(case sancus_u32ll v of Inr r \<Rightarrow> uint r = v | Inl e \<Rightarrow> e = Assert_Fail \<and> (v < 0 \<or> 2 ^ 32 \<le> v)) \<and>
   (case sancus_u16l v of Inr r \<Rightarrow> uint r = v | Inl e \<Rightarrow> e = Assert_Fail \<and> (v < 0 \<or> 2 ^ 16 \<le> v)) \<and>
   (case sancus_u8zd v of Inr r \<Rightarrow> uint r = v | Inl e \<Rightarrow> e = Assert_Fail \<and> (v < 0 \<or> 2 ^ 8 \<le> v)) \<and>
   (case sancus_u16zu w of Inr r \<Rightarrow> uint r = uint w | Inl e \<Rightarrow> e = Assert_Fail \<and> 2 ^ 16 \<le> uint w)"
proof (intro conjI)
  note k = uint_of_int_small [of v]
  show "case sancus_u32ll v of Inr r \<Rightarrow> uint r = v | Inl e \<Rightarrow> e = Assert_Fail \<and> (v < 0 \<or> 2 ^ 32 \<le> v)"
    using k [where 'a = 32] by (auto simp: sancus_u32ll_def converted_def gele_def chk_def)
  show "case sancus_u16l v of Inr r \<Rightarrow> uint r = v | Inl e \<Rightarrow> e = Assert_Fail \<and> (v < 0 \<or> 2 ^ 16 \<le> v)"
    using k [where 'a = 16] by (auto simp: sancus_u16l_def converted_def gele_def chk_def)
  show "case sancus_u8zd v of Inr r \<Rightarrow> uint r = v | Inl e \<Rightarrow> e = Assert_Fail \<and> (v < 0 \<or> 2 ^ 8 \<le> v)"
    using k [where 'a = 8] by (auto simp: sancus_u8zd_def converted_def gele_def chk_def)
  have "uint (ucast w :: u16) = uint w" if "w \<le> 0xffff"
    using that by (simp add: unsigned_ucast_eq take_bit_int_eq_self word_le_def)
  then show "case sancus_u16zu w of Inr r \<Rightarrow> uint r = uint w | Inl e \<Rightarrow> e = Assert_Fail \<and> 2 ^ 16 \<le> uint w"
    by (auto simp: sancus_u16zu_def converted_def chk_def word_le_def)
qed

end
