(* ===== verification/Bits.thy ===== *)
theory Bits
  imports Prelude
begin

text \<open>
  Bit fields, \<^verbatim>\<open>include/sancus/bit.h\<close>, and bounded copies, \<^verbatim>\<open>include/sancus/string.h\<close>. A shift by the
  width of the type or more is a \<open>Bad_Shift\<close> fault.
\<close>

subsection \<open>Bit fields\<close>

definition shl :: "u64 \<Rightarrow> nat \<Rightarrow> u64 exec" where
  "shl x n = chk Bad_Shift (n < 64) (Inr (push_bit n x))"

definition shr :: "u64 \<Rightarrow> nat \<Rightarrow> u64 exec" where
  "shr x n = chk Bad_Shift (n < 64) (Inr (drop_bit n x))"

definition BIT :: "nat \<Rightarrow> u64 exec" where
  "BIT n = shl 1 n"

definition sancus_bit_cms :: "u64 \<Rightarrow> u64 \<Rightarrow> u64 \<Rightarrow> nat \<Rightarrow> u64 exec" where
  "sancus_bit_cms old value msk shift =
     ebind (shl msk shift) (\<lambda>m.
     let old = old AND NOT m in
     ebind (shl (value AND msk) shift) (\<lambda>value. Inr (value OR old)))"

definition sancus_bit_unmask :: "u64 \<Rightarrow> u32 \<Rightarrow> nat \<Rightarrow> u64 exec" where
  "sancus_bit_unmask value msk shift = ebind (shr value shift) (\<lambda>v. Inr (v AND ucast msk))"

definition sancus_bit_has_bit :: "u64 \<Rightarrow> nat \<Rightarrow> bool exec" where
  "sancus_bit_has_bit msk n = ebind (BIT n) (\<lambda>b. Inr (msk AND b \<noteq> 0))"

definition sancus_bit_has_flag :: "u64 \<Rightarrow> u32 \<Rightarrow> bool" where
  "sancus_bit_has_flag flags flag \<longleftrightarrow> flags AND ucast flag = ucast flag"

lemma shl_small [simp]: "n < 64 \<Longrightarrow> shl x n = Inr (push_bit n x)"
  by (simp add: shl_def)

lemma shr_small [simp]: "n < 64 \<Longrightarrow> shr x n = Inr (drop_bit n x)"
  by (simp add: shr_def)

lemma has_bit_bit: "n < 64 \<Longrightarrow> sancus_bit_has_bit msk n = Inr (bit msk n)"
  by (simp add: sancus_bit_has_bit_def BIT_def bit_iff_and_push_bit_not_eq_0)

lemma cms_bit:
  assumes "shift < 64"
  shows "\<exists>w. sancus_bit_cms old value msk shift = Inr w \<and>
    (\<forall>n < 64. bit w n = (if shift \<le> n \<and> bit msk (n - shift) then bit value (n - shift) else bit old n))"
  using assms by (auto simp: sancus_bit_cms_def bit_simps)

subsection \<open>Bounded copies\<close>

text \<open>The destination is the block from the pointer on; the result is \<open>ret\<close> and the block.\<close>

definition sancus_memcpy :: "byte list \<Rightarrow> int \<Rightarrow> byte list \<Rightarrow> u64 \<Rightarrow> (int \<times> byte list) exec" where
  "sancus_memcpy dest dest_size src n =
     (let over = long_cast (uint n) > dest_size;
          ret = (if over then - ENOBUFS else long_cast (uint n));
          n = (if over then word_of_int dest_size else n)
      in if n > 0 then
           ebind (mem_get 0 (unat n) src) (\<lambda>x. ebind (mem_put 0 x dest) (\<lambda>dest. Inr (ret, dest)))
         else Inr (ret, dest))"

definition sancus_strncpy :: "byte list \<Rightarrow> int \<Rightarrow> byte list \<Rightarrow> u64 \<Rightarrow> (int \<times> byte list) exec" where
  "sancus_strncpy dest dest_size src n =
     (if dest_size > 0 then
        (let sz = word_of_int dest_size;
             ret = (if n < sz then long_cast (uint n) else - ENOBUFS);
             n = (if n < sz then n else sz - 1)
         in ebind (if n > 0 then ebind (mem_get 0 (unat n) src) (\<lambda>x. mem_put 0 x dest) else Inr dest) (\<lambda>dest.
            ebind (mem_put (unat n) [0] dest) (\<lambda>dest. Inr (ret, dest))))
      else Inr (- ENOBUFS, dest))"

definition sancus_strcpy :: "byte list \<Rightarrow> int \<Rightarrow> byte list option \<Rightarrow> (int \<times> byte list) exec" where
  "sancus_strcpy dest dest_size src =
     (case src of
        None \<Rightarrow> sancus_strncpy dest dest_size [] 0
      | Some s \<Rightarrow>
          ebind (mem_get 0 1 s) (\<lambda>c.
          ebind (if c \<noteq> [0] then strlen s else Inr 0) (\<lambda>n.
            sancus_strncpy dest dest_size s (word_of_nat n))))"

lemma strncpy_spec:
  assumes "0 < dest_size" and "dest_size \<le> LONG_MAX" and "nat dest_size \<le> length dest"
    and "length xs < 2 ^ 63"
  defines "k \<equiv> min (length xs) (nat dest_size - 1)"
  shows "sancus_strncpy dest dest_size (xs @ rest) (word_of_nat (length xs)) =
    Inr (if int (length xs) < dest_size then int (length xs) else - ENOBUFS,
         overwrite 0 (take k xs @ [0]) dest)"
proof -
  obtain d where d: "dest_size = int d" "0 < d" "d \<le> length dest" "d < 2 ^ 63"
    using assms(1-3) by (intro that [of "nat dest_size"]) auto
  have u: "unat (word_of_nat d :: u64) = d" "unat (word_of_nat (length xs) :: u64) = length xs"
    using d(4) assms(4) by (auto intro!: unat_of_nat_small)
  have lt: "(word_of_nat (length xs) :: u64) < word_of_nat d \<longleftrightarrow> length xs < d"
    using u by (simp add: word_less_nat_alt)
  have "unat (1 :: u64) \<le> unat (word_of_nat d :: u64)" using u d(2) by simp
  then have s1: "unat (word_of_nat d - 1 :: u64) = d - 1" by (simp add: unat_minus_nat u)
  define n :: u64 where "n = (if length xs < d then word_of_nat (length xs) else word_of_nat d - 1)"
  have n: "unat n = k" using u s1 by (simp add: n_def k_def d(1))
  have kx: "k \<le> length xs" "k < d" using d(2) by (auto simp: k_def d(1))
  have pos: "n > 0 \<longleftrightarrow> k > 0" using n by (simp add: word_gt_0 unat_eq_0 [symmetric] del: unat_eq_0) 
  have "(if n > 0 then ebind (mem_get 0 (unat n) (xs @ rest)) (\<lambda>x. mem_put 0 x dest) else Inr dest) =
      Inr (overwrite 0 (take k xs) dest)"
    using kx d(3) n pos by simp
  moreover have "overwrite k [0] (overwrite 0 (take k xs) dest) = overwrite 0 (take k xs @ [0]) dest"
    using kx d(3) by (simp add: overwrite_def)
  moreover have "uint (word_of_nat (length xs) :: u64) = int (length xs)"
    using arg_cong [OF u(2), of int] by simp
  then have "long_cast (uint (word_of_nat (length xs) :: u64)) = int (length xs)" using assms(4) by simp
  ultimately show ?thesis
    using kx d n u lt pos by (simp add: sancus_strncpy_def Let_def n_def [symmetric])
qed

subsection \<open>Properties\<close>

text \<open>
  A field set by \<open>sancus_bit_cms\<close> is read back by \<open>sancus_bit_unmask\<close>, and every bit outside the
  shifted mask is as before.
\<close>

theorem bit_field_roundtrip:
  assumes "shift \<le> 32"
  shows "\<exists>w. sancus_bit_cms old value (ucast (msk :: u32)) shift = Inr w \<and>
    sancus_bit_unmask w msk shift = Inr (value AND ucast msk) \<and>
    w AND NOT (push_bit shift (ucast msk)) = old AND NOT (push_bit shift (ucast msk))"
proof -
  let ?m = "ucast msk :: u64"
  let ?w = "push_bit shift (value AND ?m) OR (old AND NOT (push_bit shift ?m))"
  have "sancus_bit_cms old value ?m shift = Inr ?w" using assms by (simp add: sancus_bit_cms_def)
  moreover have "drop_bit shift ?w AND ?m = value AND ?m"
    using assms by (intro bit_eqI) (auto simp: bit_simps dest: bit_imp_le_length)
  moreover have "?w AND NOT (push_bit shift ?m) = old AND NOT (push_bit shift ?m)"
    by (rule bit_eqI) (auto simp: bit_simps)
  ultimately show ?thesis using assms by (simp add: sancus_bit_unmask_def)
qed

theorem bit_field_roundtrip_witness:
  "\<exists>w. sancus_bit_cms 0xffff 0x12 0xff 4 = Inr w \<and> sancus_bit_unmask w 0xff 4 = Inr 0x12"
  using bit_field_roundtrip [of 4 "0xffff" "0x12" "0xff"] by auto

text \<open>
  \<open>sancus_strcpy\<close> into a buffer of positive size: as much of the string as leaves room for the
  terminator, always terminated, nothing written behind it; the length is returned when all of it
  fits, \<open>-ENOBUFS\<close> otherwise.
\<close>

theorem strcpy_spec:
  assumes "0 < dest_size" and "dest_size \<le> LONG_MAX" and "nat dest_size \<le> length dest"
    and "length xs < 2 ^ 63" and "0 \<notin> set xs"
  shows "sancus_strcpy dest dest_size (Some (xs @ 0 # rest)) =
    Inr (if int (length xs) < dest_size then int (length xs) else - ENOBUFS,
         overwrite 0 (take (min (length xs) (nat dest_size - 1)) xs @ [0]) dest)"
  using strncpy_spec [OF assms(1-4), of "0 # rest"] assms(5)
  by (cases xs) (simp_all add: sancus_strcpy_def)

theorem strcpy_spec_witness:
  "sancus_strcpy [9, 9, 9, 9] 3 (Some [65, 66, 67, 0]) = Inr (- ENOBUFS, [65, 66, 0, 9])"
  using strcpy_spec [of 3 "[9, 9, 9, 9]" "[65, 66, 67]" "[]"] by (simp add: overwrite_def)

end
