(* ===== verification/Alloc.thy ===== *)
theory Alloc
  imports Prelude
begin

text \<open>
  The allocator of \<^verbatim>\<open>include/sancus/alloc.h\<close> and \<^verbatim>\<open>src/sancus/alloc.c\<close>. All memory goes through one function
  pointer with the interface of \<open>realloc\<close>, which is the state; the function it points to is not part of
  the sources. Memory is a map from addresses to blocks, and a pointer is an option, \<open>None\<close> for \<open>NULL\<close>.
\<close>

type_synonym memory = "nat \<rightharpoonup> byte list"
type_synonym realloc = "nat option \<Rightarrow> u64 \<Rightarrow> memory \<Rightarrow> nat option \<times> memory"

subsection \<open>Operations\<close>

definition sancus_set_realloc :: "realloc \<Rightarrow> realloc \<Rightarrow> realloc" where
  "sancus_set_realloc f old = f"

definition sancus_alloc :: "realloc \<Rightarrow> u64 \<Rightarrow> memory \<Rightarrow> nat option \<times> memory" where
  "sancus_alloc sancus_realloc_ptr S m = sancus_realloc_ptr None S m"

definition sancus_realloc :: "realloc \<Rightarrow> nat option \<Rightarrow> u64 \<Rightarrow> memory \<Rightarrow> nat option \<times> memory" where
  "sancus_realloc sancus_realloc_ptr P S m = sancus_realloc_ptr P S m"

text \<open>\<open>memset\<close> of the bytes of a block, which has to be there and hold them.\<close>

definition memset :: "nat \<Rightarrow> byte \<Rightarrow> u64 \<Rightarrow> memory \<Rightarrow> memory exec" where
  "memset a c n m =
     (case m a of
        None \<Rightarrow> Inl Bad_Access
      | Some blk \<Rightarrow> ebind (mem_put 0 (replicate (unat n) c) blk) (\<lambda>blk. Inr (m(a \<mapsto> blk))))"

definition sancus_zalloc :: "realloc \<Rightarrow> u64 \<Rightarrow> memory \<Rightarrow> (nat option \<times> memory) exec" where
  "sancus_zalloc f n m =
     (let (ptr, m) = sancus_alloc f n m in
      case ptr of
        Some a \<Rightarrow> ebind (memset a 0 n m) (\<lambda>m. Inr (ptr, m))
      | None \<Rightarrow> Inr (ptr, m))"

text \<open>The pointer variable is set to \<open>NULL\<close>: the result is its new value.\<close>

definition sancus_free :: "realloc \<Rightarrow> nat option \<Rightarrow> memory \<Rightarrow> nat option \<times> memory" where
  "sancus_free f P m = (let (_, m) = f P 0 m in (None, m))"

subsection \<open>What is documented of \<open>realloc\<close>\<close>

text \<open>
  Without a block it allocates a new one of the size asked for, with any contents, or fails and leaves
  memory alone; size zero releases a block.
\<close>

definition allocates :: "realloc \<Rightarrow> bool" where
  "allocates f \<longleftrightarrow>
     (\<forall>n m. case f None n m of
        (None, m') \<Rightarrow> m' = m
      | (Some a, m') \<Rightarrow> m a = None \<and> (\<exists>blk. length blk = unat n \<and> m' = m(a \<mapsto> blk)))"

definition releases :: "realloc \<Rightarrow> bool" where
  "releases f \<longleftrightarrow> (\<forall>a m. snd (f (Some a) 0 m) = m(a := None))"

text \<open>
  With any such function in place, \<open>sancus_zalloc\<close> never writes outside a block: it fails with memory
  unchanged or gives a new block of zeroes and touches nothing else, and \<open>sancus_free\<close> of what it gave
  restores memory and leaves no pointer behind.
\<close>

theorem zalloc_free:
  assumes "allocates f" and "releases f"
  shows "\<exists>p m'. sancus_zalloc (sancus_set_realloc f old) n m = Inr (p, m') \<and>
    (case p of
       None \<Rightarrow> m' = m
     | Some a \<Rightarrow> m a = None \<and> m' = m(a \<mapsto> replicate (unat n) 0) \<and>
         sancus_free (sancus_set_realloc f old) p m' = (None, m))"
proof -
  obtain p m1 where f: "f None n m = (p, m1)" by (cases "f None n m")
  have c: "case f None n m of (None, m') \<Rightarrow> m' = m
      | (Some a, m') \<Rightarrow> m a = None \<and> (\<exists>blk. length blk = unat n \<and> m' = m(a \<mapsto> blk))"
    by (rule assms(1) [unfolded allocates_def, THEN spec, THEN spec])
  show ?thesis
  proof (cases p)
    case None
    then show ?thesis using c f by (simp add: sancus_zalloc_def sancus_alloc_def sancus_set_realloc_def)
  next
    case (Some a)
    then obtain blk where b: "m a = None" "length blk = unat n" "m1 = m(a \<mapsto> blk)" using c f by auto
    have "snd (f (Some a) 0 (m(a \<mapsto> x))) = m" for x
      using assms(2) b(1) by (simp add: releases_def fun_upd_idem)
    then have "sancus_free f (Some a) (m(a \<mapsto> x)) = (None, m)" for x
      by (metis (no_types, lifting) sancus_free_def case_prod_unfold Let_def)
    moreover have "sancus_zalloc f n m = Inr (Some a, m(a \<mapsto> replicate (unat n) 0))"
      using f Some b by (simp add: sancus_zalloc_def sancus_alloc_def memset_def overwrite_def)
    ultimately show ?thesis using b(1) by (simp add: sancus_set_realloc_def)
  qed
qed

text \<open>An allocator of one block at address 1.\<close>

definition one_block :: realloc where
  "one_block p n m =
     (case p of
        None \<Rightarrow> if m 1 = None then (Some 1, m(1 \<mapsto> replicate (unat n) 7)) else (None, m)
      | Some a \<Rightarrow> (None, m(a := None)))"

theorem zalloc_free_witness:
  "sancus_zalloc one_block 3 Map.empty = Inr (Some 1, [1 \<mapsto> [0, 0, 0]]) \<and>
   sancus_free one_block (Some 1) [1 \<mapsto> [0, 0, 0]] = (None, Map.empty)"
proof -
  have "replicate 3 (0 :: byte) = [0, 0, 0]" by (simp add: numeral_3_eq_3)
  then have z: "replicate (unat (3 :: u64)) (0 :: byte) = [0, 0, 0]" by simp
  have "allocates one_block" "releases one_block"
    by (auto simp: allocates_def releases_def one_block_def intro: exI [of _ "replicate _ 7"])
  from zalloc_free [OF this, of one_block 3 Map.empty] show ?thesis
    unfolding z sancus_set_realloc_def
    by (auto simp: sancus_zalloc_def sancus_alloc_def one_block_def memset_def split: option.splits)
qed

end
