(* ===== verification/Double.thy ===== *)
theory Double
  imports Prelude Complex_Main "HOL-Library.Log_Nat"
begin

text \<open>
  The floating types of the target, as C on x86-64 gives them to the sources: \<open>double\<close> is IEEE
  binary64 and \<open>long double\<close> the 80-bit extended format, both rounding to nearest, ties to even. A
  finite value is the rational number it denotes; the two zeros are one value, since no operation
  used by the sources tells them apart. An operation computes the exact rational result and rounds it
  once. The lemmas bound the error of a rounding, show that the numbers of a format round to
  themselves, and that rounding keeps order.
\<close>

subsection \<open>Formats\<close>

record fp_format =
  fp_prec :: nat
  fp_emin :: int
  fp_emax :: int

text \<open>The digits of the significand, the exponent of the smallest positive number, the first power of two out of range.\<close>

definition binary64 :: fp_format where
  "binary64 = \<lparr>fp_prec = 53, fp_emin = -1074, fp_emax = 1024\<rparr>"

definition x87_extended :: fp_format where
  "x87_extended = \<lparr>fp_prec = 64, fp_emin = -16445, fp_emax = 16384\<rparr>"

lemma format_fields [simp]:
  "fp_prec binary64 = 53" "fp_emin binary64 = - 1074" "fp_emax binary64 = 1024"
  "fp_prec x87_extended = 64" "fp_emin x87_extended = - 16445" "fp_emax x87_extended = 16384"
  by (simp_all add: binary64_def x87_extended_def)

definition pow2 :: "int \<Rightarrow> rat" where
  "pow2 k = (if 0 \<le> k then 2 ^ nat k else 1 / 2 ^ nat (- k))"

text \<open>The exponent of a positive rational: the largest \<open>k\<close> with \<open>2\<^sup>k \<le> x\<close>.\<close>

definition ilog2 :: "rat \<Rightarrow> int" where
  "ilog2 x =
     (let (p, q) = quotient_of x; k = bitlen p - bitlen q
      in if pow2 k \<le> x then k else k - 1)"

text \<open>Round to an integer, ties to even.\<close>

definition round_even :: "rat \<Rightarrow> int" where
  "round_even y =
     (let n = \<lfloor>y\<rfloor>; f = y - of_int n
      in if f < 1/2 then n else if f > 1/2 then n + 1 else if even n then n else n + 1)"

text \<open>The spacing of the format around \<open>x\<close>, and the nearest multiple of it.\<close>

definition ulp_exp :: "fp_format \<Rightarrow> rat \<Rightarrow> int" where
  "ulp_exp F x = (if x = 0 then fp_emin F else max (fp_emin F) (ilog2 \<bar>x\<bar> - int (fp_prec F) + 1))"

definition fp_round :: "fp_format \<Rightarrow> rat \<Rightarrow> rat" where
  "fp_round F x = (let u = pow2 (ulp_exp F x) in of_int (round_even (x / u)) * u)"

subsection \<open>Values and operations\<close>

datatype fp = Fin rat | Inf bool | NaN

text \<open>\<open>Inf True\<close> is the negative infinity.\<close>

definition fp_of_rat :: "fp_format \<Rightarrow> rat \<Rightarrow> fp" where
  "fp_of_rat F x =
     (let r = fp_round F x in if r \<noteq> 0 \<and> fp_emax F \<le> ilog2 \<bar>r\<bar> then Inf (r < 0) else Fin r)"

definition fp_of_int :: "fp_format \<Rightarrow> int \<Rightarrow> fp" where
  "fp_of_int F n = fp_of_rat F (of_int n)"

fun fp_neg :: "fp \<Rightarrow> fp" where
  "fp_neg (Fin x) = Fin (- x)"
| "fp_neg (Inf s) = Inf (\<not> s)"
| "fp_neg NaN = NaN"

fun fp_add :: "fp_format \<Rightarrow> fp \<Rightarrow> fp \<Rightarrow> fp" where
  "fp_add F (Fin x) (Fin y) = fp_of_rat F (x + y)"
| "fp_add F (Inf s) (Fin y) = Inf s"
| "fp_add F (Fin x) (Inf t) = Inf t"
| "fp_add F (Inf s) (Inf t) = (if s = t then Inf s else NaN)"
| "fp_add F NaN b = NaN"
| "fp_add F a NaN = NaN"

definition fp_sub :: "fp_format \<Rightarrow> fp \<Rightarrow> fp \<Rightarrow> fp" where
  "fp_sub F a b = fp_add F a (fp_neg b)"

text \<open>Products and quotients with a finite, positive constant, the only ones the sources form.\<close>

fun fp_mul_k :: "fp_format \<Rightarrow> fp \<Rightarrow> rat \<Rightarrow> fp" where
  "fp_mul_k F (Fin x) k = fp_of_rat F (x * k)"
| "fp_mul_k F (Inf s) k = Inf s"
| "fp_mul_k F NaN k = NaN"

fun fp_div_k :: "fp_format \<Rightarrow> fp \<Rightarrow> rat \<Rightarrow> fp" where
  "fp_div_k F (Fin x) k = fp_of_rat F (x / k)"
| "fp_div_k F (Inf s) k = Inf s"
| "fp_div_k F NaN k = NaN"

text \<open>The order of the comparisons; every one with a NaN is false.\<close>

fun fp_less_eq :: "fp \<Rightarrow> fp \<Rightarrow> bool" where
  "fp_less_eq (Fin x) (Fin y) \<longleftrightarrow> x \<le> y"
| "fp_less_eq (Inf s) (Fin y) \<longleftrightarrow> s"
| "fp_less_eq (Fin x) (Inf t) \<longleftrightarrow> \<not> t"
| "fp_less_eq (Inf s) (Inf t) \<longleftrightarrow> s \<or> \<not> t"
| "fp_less_eq NaN b \<longleftrightarrow> False"
| "fp_less_eq a NaN \<longleftrightarrow> False"

definition fp_less :: "fp \<Rightarrow> fp \<Rightarrow> bool" where
  "fp_less a b \<longleftrightarrow> fp_less_eq a b \<and> \<not> fp_less_eq b a"

text \<open>The comparisons of C are those of the class \<open>ord\<close>, whose laws a NaN does not satisfy.\<close>

instantiation fp :: ord
begin

definition less_eq_fp :: "fp \<Rightarrow> fp \<Rightarrow> bool" where
  "less_eq_fp = fp_less_eq"

definition less_fp :: "fp \<Rightarrow> fp \<Rightarrow> bool" where
  "less_fp = fp_less"

instance ..

end

lemma fp_order_simps [simp]:
  "Fin x \<le> Fin y \<longleftrightarrow> x \<le> y" "Fin x < Fin y \<longleftrightarrow> x < y"
  "Inf s \<le> Fin y \<longleftrightarrow> s" "Fin x \<le> Inf t \<longleftrightarrow> \<not> t" "Inf s \<le> Inf t \<longleftrightarrow> s \<or> \<not> t"
  "\<not> NaN \<le> a" "\<not> a \<le> NaN"
  by (cases a; auto simp: less_eq_fp_def less_fp_def fp_less_def)+

text \<open>
  The cast to \<open>long\<close> drops the fraction; a value whose integral part does not fit, an infinity or
  a NaN is undefined. The cast between formats rounds.
\<close>

definition rat_trunc :: "rat \<Rightarrow> int" where
  "rat_trunc x = (if 0 \<le> x then \<lfloor>x\<rfloor> else - \<lfloor>- x\<rfloor>)"

fun fp_to_long :: "fp \<Rightarrow> int exec" where
  "fp_to_long (Fin x) =
     chk Bad_Convert (LONG_MIN \<le> rat_trunc x \<and> rat_trunc x \<le> LONG_MAX) (Inr (rat_trunc x))"
| "fp_to_long (Inf s) = Inl Bad_Convert"
| "fp_to_long NaN = Inl Bad_Convert"

fun fp_convert :: "fp_format \<Rightarrow> fp \<Rightarrow> fp" where
  "fp_convert F (Fin x) = fp_of_rat F x"
| "fp_convert F (Inf s) = Inf s"
| "fp_convert F NaN = NaN"

text \<open>The values of a format: significand and exponent in range.\<close>

definition fp_number :: "fp_format \<Rightarrow> rat \<Rightarrow> bool" where
  "fp_number F x \<longleftrightarrow> fp_round F x = x \<and> \<bar>x\<bar> < pow2 (fp_emax F)"

fun fp_value :: "fp_format \<Rightarrow> fp \<Rightarrow> bool" where
  "fp_value F (Fin x) \<longleftrightarrow> fp_number F x"
| "fp_value F (Inf s) \<longleftrightarrow> True"
| "fp_value F NaN \<longleftrightarrow> True"

subsection \<open>Powers of two and exponents\<close>

lemma pow2_pos [simp]: "0 < pow2 k"
  by (simp add: pow2_def)

lemma pow2_ge0 [simp]: "0 \<le> pow2 k" "pow2 k \<noteq> 0"
  by (simp_all add: pow2_def)

lemma pow2_add: "pow2 (a + b) = pow2 a * pow2 b"
proof -
  have pi: "pow2 k = power_int 2 k" for k by (simp add: pow2_def power_int_def field_simps)
  show ?thesis unfolding pi by (simp add: power_int_add)
qed

lemma pow2_nat: "pow2 (int n) = 2 ^ n"
  by (simp add: pow2_def)

lemma pow2_le: "a \<le> b \<Longrightarrow> pow2 a \<le> pow2 b"
proof -
  assume "a \<le> b"
  then have "pow2 b = pow2 a * 2 ^ nat (b - a)"
    using pow2_add [of a "b - a"] by (simp add: pow2_def)
  moreover have "(1 :: rat) \<le> 2 ^ nat (b - a)" by simp
  ultimately show ?thesis using mult_left_mono [of 1 "2 ^ nat (b - a)" "pow2 a"] by simp
qed

lemma pow2_less_iff: "pow2 a < pow2 b \<longleftrightarrow> a < b"
proof
  show "pow2 a < pow2 b \<Longrightarrow> a < b" using pow2_le [of b a] by (meson leD leI)
  assume "a < b"
  then have "pow2 (a + 1) \<le> pow2 b" by (intro pow2_le) simp
  moreover have "pow2 (a + 1) = 2 * pow2 a" by (simp add: pow2_add) (simp add: pow2_def)
  ultimately show "pow2 a < pow2 b" using pow2_pos [of a] by linarith
qed

lemma pow2_diff: "pow2 (a - b) = pow2 a / pow2 b"
  using pow2_add [of "a - b" b] by (simp add: field_simps)

lemma pow2_Suc: "pow2 (k + 1) = 2 * pow2 k"
  by (simp add: pow2_add) (simp add: pow2_def)

lemma ilog2_bounds:
  assumes "0 < x" shows "pow2 (ilog2 x) \<le> x" "x < pow2 (ilog2 x + 1)"
proof -
  obtain p q where pq: "quotient_of x = (p, q)" by fastforce
  have q: "q > 0" and x: "x = of_int p / of_int q"
    using quotient_of_denom_pos [OF pq] quotient_of_div [OF pq] by auto
  with assms have p: "p > 0" by (simp add: zero_less_divide_iff)
  define a b where ab: "a = floorlog 2 (nat p)" "b = floorlog 2 (nat q)"
  have bd: "rat_of_int n < pow2 (int (floorlog 2 (nat n)))"
      "pow2 (int (floorlog 2 (nat n)) - 1) \<le> rat_of_int n" if "n > 0" for n
  proof -
    let ?l = "floorlog 2 (nat n)"
    have l: "2 ^ (?l - 1) \<le> nat n" "nat n < 2 ^ ?l" "?l > 0"
      using floorlog_bounds [of "nat n" 2] that by (auto simp: floorlog_eq_zero_iff intro!: Nat.gr0I)
    have n: "rat_of_int n = rat_of_nat (nat n)" using that by simp
    show "rat_of_int n < pow2 (int ?l)" using l(2) unfolding n pow2_nat by (simp del: of_nat_nat)
    have "int ?l - 1 = int (?l - 1)" using l(3) by simp
    then show "pow2 (int ?l - 1) \<le> rat_of_int n" using l(1) unfolding n by (simp add: pow2_nat del: of_nat_nat of_nat_diff)
  qed
  note bp = bd [OF p, folded ab] and bq = bd [OF q, folded ab]
  let ?k = "int a - int b"
  have "x < pow2 (int a) / pow2 (int b - 1)"
    unfolding x using bp(1) bq(2) p q by (intro frac_less) auto
  then have hi: "x < pow2 (?k + 1)" by (simp add: pow2_diff [symmetric] algebra_simps)
  have "pow2 (int a - 1) / pow2 (int b) < x"
    unfolding x using bp(2) bq(1) p q by (intro frac_less2) auto
  then have lo: "pow2 (?k - 1) \<le> x" by (simp add: pow2_diff [symmetric] algebra_simps)
  have k: "ilog2 x = (if pow2 ?k \<le> x then ?k else ?k - 1)" by (simp add: ilog2_def pq ab Let_def bitlen_def)
  show "pow2 (ilog2 x) \<le> x" "x < pow2 (ilog2 x + 1)" unfolding k using hi lo by (auto split: if_splits)
qed

lemma ilog2_unique: "pow2 k \<le> x \<Longrightarrow> x < pow2 (k + 1) \<Longrightarrow> ilog2 x = k"
proof -
  assume a: "pow2 k \<le> x" "x < pow2 (k + 1)"
  have x: "0 < x" using a(1) pow2_pos [of k] by linarith
  have "pow2 k < pow2 (ilog2 x + 1)" "pow2 (ilog2 x) < pow2 (k + 1)"
    using a ilog2_bounds [OF x] by linarith+
  then show ?thesis unfolding pow2_less_iff by linarith
qed

lemma ilog2_less: "0 < x \<Longrightarrow> x < pow2 k \<Longrightarrow> ilog2 x < k"
  using ilog2_bounds(1) [of x] pow2_less_iff [of "ilog2 x" k] by linarith

lemma ilog2_ge: "pow2 k \<le> x \<Longrightarrow> k \<le> ilog2 x"
proof -
  assume a: "pow2 k \<le> x"
  have "0 < x" using a pow2_pos [of k] by linarith
  then have "pow2 k < pow2 (ilog2 x + 1)" using a ilog2_bounds(2) [of x] by linarith
  then show ?thesis unfolding pow2_less_iff by linarith
qed

subsection \<open>Rounding\<close>

lemma round_even_of_int [simp]: "round_even (of_int n) = n"
  by (simp add: round_even_def Let_def)

lemma round_even_near: "\<bar>of_int (round_even y) - y\<bar> \<le> 1/2"
proof -
  have "of_int \<lfloor>y\<rfloor> \<le> y" "y < of_int \<lfloor>y\<rfloor> + 1" by linarith+
  then show ?thesis unfolding round_even_def Let_def abs_le_iff by (simp split: if_split) linarith
qed

lemma round_even_mono: "x \<le> y \<Longrightarrow> round_even x \<le> round_even y"
proof -
  assume xy: "x \<le> y"
  show ?thesis
  proof (cases "\<lfloor>x\<rfloor> = \<lfloor>y\<rfloor>")
    case True
    with xy show ?thesis by (auto simp: round_even_def Let_def)
  next
    case False
    with floor_mono [OF xy] have "\<lfloor>x\<rfloor> + 1 \<le> \<lfloor>y\<rfloor>" by simp
    moreover have "round_even x \<le> \<lfloor>x\<rfloor> + 1" "\<lfloor>y\<rfloor> \<le> round_even y" by (auto simp: round_even_def Let_def)
    ultimately show ?thesis by linarith
  qed
qed

lemma round_even_neg: "round_even (- y) = - round_even y"
proof (cases "y = of_int \<lfloor>y\<rfloor>")
  case True
  then show ?thesis by (metis of_int_minus round_even_of_int)
next
  case False
  then have fl: "\<lfloor>- y\<rfloor> = - \<lfloor>y\<rfloor> - 1" by linarith
  define n f where nf: "n = \<lfloor>y\<rfloor>" "f = y - of_int n"
  then have f: "- y - of_int (- n - 1) = 1 - f" by simp
  show ?thesis unfolding round_even_def Let_def fl nf(1) [symmetric] f nf(2) [symmetric] by auto
qed

lemma fp_round_0 [simp]: "fp_round F 0 = 0"
  using round_even_of_int [of 0] by (simp add: fp_round_def Let_def)

lemma ulp_exp_neg: "ulp_exp F (- x) = ulp_exp F x"
  by (simp add: ulp_exp_def)

lemma fp_round_neg: "fp_round F (- x) = - fp_round F x"
  by (simp add: fp_round_def Let_def ulp_exp_neg round_even_neg)

lemma ulp_exp_ge: "fp_emin F \<le> ulp_exp F x"
  by (simp add: ulp_exp_def)

lemma ulp_exp_le:
  assumes "\<bar>x\<bar> < pow2 k" "fp_emin F \<le> k - int (fp_prec F)"
  shows "ulp_exp F x \<le> k - int (fp_prec F)"
  using assms ilog2_less [of "\<bar>x\<bar>" k] by (auto simp: ulp_exp_def)

text \<open>The rounded number is within half a spacing of the exact one.\<close>

lemma fp_round_near: "\<bar>fp_round F x - x\<bar> \<le> pow2 (ulp_exp F x) / 2"
proof -
  let ?u = "pow2 (ulp_exp F x)"
  have "fp_round F x - x = (of_int (round_even (x / ?u)) - x / ?u) * ?u"
    by (simp add: fp_round_def Let_def left_diff_distrib)
  then have "\<bar>fp_round F x - x\<bar> = \<bar>of_int (round_even (x / ?u)) - x / ?u\<bar> * ?u"
    by (simp add: abs_mult)
  also have "\<dots> \<le> 1/2 * ?u" using round_even_near by (intro mult_right_mono) auto
  finally show ?thesis by simp
qed

lemma fp_round_error:
  assumes "\<bar>x\<bar> < pow2 k" "fp_emin F \<le> k - int (fp_prec F)"
  shows "\<bar>fp_round F x - x\<bar> \<le> pow2 (k - int (fp_prec F)) / 2"
  using fp_round_near [of F x] pow2_le [OF ulp_exp_le [OF assms]] by linarith

text \<open>Multiples of the spacing are kept, and bound what lies on their side.\<close>

lemma fp_round_multiple:
  "x = of_int m * pow2 (ulp_exp F x) \<Longrightarrow> fp_round F x = x"
  unfolding fp_round_def Let_def
  by (metis nonzero_mult_div_cancel_right pow2_ge0(2) round_even_of_int)

lemma fp_round_le:
  assumes "x \<le> of_int m * pow2 (ulp_exp F x)" shows "fp_round F x \<le> of_int m * pow2 (ulp_exp F x)"
proof -
  have "x / pow2 (ulp_exp F x) \<le> of_int m" using assms by (simp add: divide_le_eq)
  from round_even_mono [OF this] show ?thesis by (simp add: fp_round_def Let_def)
qed

lemma fp_round_ge:
  assumes "of_int m * pow2 (ulp_exp F x) \<le> x" shows "of_int m * pow2 (ulp_exp F x) \<le> fp_round F x"
proof -
  have "of_int m \<le> x / pow2 (ulp_exp F x)" using assms by (simp add: le_divide_eq)
  from round_even_mono [OF this] show ?thesis by (simp add: fp_round_def Let_def)
qed

lemma pow2_multiple: "u \<le> e \<Longrightarrow> of_int m * pow2 e = of_int (m * 2 ^ nat (e - u)) * pow2 u"
  using pow2_add [of "e - u" u] by (simp add: pow2_def [of "e - u"])

text \<open>A number of at most \<open>fp_prec\<close> digits on the grid of the format rounds to itself.\<close>

lemma fp_round_exact:
  assumes p: "0 < fp_prec F" and e: "fp_emin F \<le> e" and m: "\<bar>m\<bar> \<le> 2 ^ fp_prec F"
  shows "fp_round F (of_int m * pow2 e) = of_int m * pow2 e"
proof (cases "\<bar>m\<bar> < 2 ^ fp_prec F")
  case True
  let ?x = "of_int m * pow2 e" let ?k = "int (fp_prec F) + e"
  have "rat_of_int \<bar>m\<bar> < of_int (2 ^ fp_prec F)" using True by (simp only: of_int_less_iff)
  then have "\<bar>?x\<bar> < pow2 ?k" by (simp add: abs_mult pow2_add pow2_nat)
  from ulp_exp_le [OF this, of F] e have "ulp_exp F ?x \<le> e" by simp
  from fp_round_multiple [OF pow2_multiple [OF this]] show ?thesis .
next
  case False
  then have m': "\<bar>m\<bar> = 2 ^ fp_prec F" using m by linarith
  let ?x = "of_int m * pow2 e" let ?k = "int (fp_prec F) + e"
  have "rat_of_int \<bar>m\<bar> = 2 ^ fp_prec F" unfolding m' by simp
  then have x: "\<bar>?x\<bar> = pow2 ?k" by (simp add: abs_mult pow2_add pow2_nat)
  then have "ilog2 \<bar>?x\<bar> = ?k" by (intro ilog2_unique) (simp_all add: pow2_less_iff)
  then have u: "ulp_exp F ?x = e + 1" using e x pow2_pos [of ?k] by (auto simp: ulp_exp_def)
  obtain q where q: "fp_prec F = Suc q" using p gr0_implies_Suc by blast
  then have "2 dvd \<bar>m\<bar>" unfolding m' by simp
  then obtain h where "m = 2 * h" by auto
  then have "?x = of_int h * pow2 (ulp_exp F ?x)" unfolding u by (simp add: pow2_Suc)
  from fp_round_multiple [OF this] show ?thesis .
qed

lemma fp_round_form:
  "\<exists>m e. fp_round F x = of_int m * pow2 e \<and> fp_emin F \<le> e \<and> \<bar>m\<bar> \<le> 2 ^ fp_prec F"
proof (cases "x = 0")
  case False
  let ?e = "ulp_exp F x"
  have "\<bar>x\<bar> < pow2 (ilog2 \<bar>x\<bar> + 1)" using False ilog2_bounds(2) [of "\<bar>x\<bar>"] by simp
  also have "\<dots> \<le> pow2 (int (fp_prec F) + ?e)" using False by (intro pow2_le) (simp add: ulp_exp_def)
  finally have "\<bar>x\<bar> / pow2 ?e < 2 ^ fp_prec F" by (simp add: pow2_add pow2_nat divide_less_eq)
  then have "x / pow2 ?e \<le> of_int (2 ^ fp_prec F)" "of_int (- (2 ^ fp_prec F)) \<le> x / pow2 ?e"
    by (auto simp: abs_if field_simps split: if_splits)
  then have "\<bar>round_even (x / pow2 ?e)\<bar> \<le> 2 ^ fp_prec F"
    using round_even_mono [of "x / pow2 ?e" "of_int (2 ^ fp_prec F)"]
      round_even_mono [of "of_int (- (2 ^ fp_prec F))" "x / pow2 ?e"]
    unfolding round_even_of_int by linarith
  then show ?thesis using ulp_exp_ge [of F x] by (auto simp: fp_round_def Let_def)
qed (rule exI [of _ 0], rule exI [of _ "fp_emin F"], simp)

lemma fp_round_idem: "0 < fp_prec F \<Longrightarrow> fp_round F (fp_round F x) = fp_round F x"
  using fp_round_form [of F x] fp_round_exact by metis

subsection \<open>Order\<close>

lemma fp_round_mono_pos:
  assumes p: "0 < fp_prec F" and x: "0 < x" and xy: "x \<le> y" shows "fp_round F x \<le> fp_round F y"
proof -
  have y: "0 < y" using x xy by simp
  have l: "ilog2 x \<le> ilog2 y" using ilog2_ge [of "ilog2 x" y] ilog2_bounds(1) [OF x] xy by linarith
  show ?thesis
  proof (cases "ulp_exp F x = ulp_exp F y")
    case True
    have "x / pow2 (ulp_exp F y) \<le> y / pow2 (ulp_exp F y)" using xy by (intro divide_right_mono) auto
    from round_even_mono [OF this] show ?thesis by (simp add: fp_round_def Let_def True)
  next
    case False
    let ?b = "ilog2 y" let ?B = "of_int 1 * pow2 ?b"
    have u: "ulp_exp F y \<le> ?b" "ulp_exp F x \<le> ?b" "ilog2 x < ?b"
      using False l p x y by (auto simp: ulp_exp_def)
    have "x \<le> ?B" using ilog2_bounds(2) [OF x] pow2_le [of "ilog2 x + 1" ?b] u(3) by simp
    then have "fp_round F x \<le> ?B" unfolding pow2_multiple [OF u(2)] by (rule fp_round_le)
    moreover have "?B \<le> y" using ilog2_bounds(1) [OF y] by simp
    then have "?B \<le> fp_round F y" unfolding pow2_multiple [OF u(1)] by (rule fp_round_ge)
    ultimately show ?thesis by simp
  qed
qed

lemma fp_round_nonneg: "0 \<le> x \<Longrightarrow> 0 \<le> fp_round F x"
  using fp_round_ge [of 0 F x] by simp

lemma fp_round_mono: "0 < fp_prec F \<Longrightarrow> x \<le> y \<Longrightarrow> fp_round F x \<le> fp_round F y"
proof -
  assume p: "0 < fp_prec F" and xy: "x \<le> y"
  consider "0 < x" | "x \<le> 0" "0 \<le> y" | "0 < - y" "- y \<le> - x" using xy by linarith
  then show ?thesis
  proof cases
    case 1 then show ?thesis by (rule fp_round_mono_pos [OF p _ xy])
  next
    case 2
    then have "0 \<le> fp_round F (- x)" "0 \<le> fp_round F y" using fp_round_nonneg by auto
    then show ?thesis by (simp add: fp_round_neg)
  next
    case 3
    from fp_round_mono_pos [OF p 3] show ?thesis by (simp add: fp_round_neg)
  qed
qed

subsection \<open>Results of the operations\<close>

definition fp_proper :: "fp_format \<Rightarrow> bool" where
  "fp_proper F \<longleftrightarrow> 0 < fp_prec F \<and> fp_emin F + int (fp_prec F) \<le> fp_emax F"

lemma fp_proper_formats [simp]: "fp_proper binary64" "fp_proper x87_extended"
  by (simp_all add: fp_proper_def)

lemma fp_of_rat_alt:
  "fp_of_rat F x =
     (let r = fp_round F x in if pow2 (fp_emax F) \<le> \<bar>r\<bar> then Inf (r < 0) else Fin r)"
proof -
  have "r \<noteq> 0 \<and> fp_emax F \<le> ilog2 \<bar>r\<bar> \<longleftrightarrow> pow2 (fp_emax F) \<le> \<bar>r\<bar>" for r
    using ilog2_ge [of "fp_emax F" "\<bar>r\<bar>"] ilog2_less [of "\<bar>r\<bar>" "fp_emax F"] pow2_pos [of "fp_emax F"]
    by (cases "r = 0") (auto simp: not_le [symmetric] simp del: pow2_pos)
  then show ?thesis by (simp add: fp_of_rat_def Let_def)
qed

lemma fp_of_rat_value: "fp_proper F \<Longrightarrow> fp_value F (fp_of_rat F x)"
  using fp_round_idem [of F x] by (simp add: fp_of_rat_alt Let_def fp_number_def fp_proper_def)

lemma fp_add_value: "fp_proper F \<Longrightarrow> fp_value F a \<Longrightarrow> fp_value F b \<Longrightarrow> fp_value F (fp_add F a b)"
  by (cases "(F, a, b)" rule: fp_add.cases) (auto simp: fp_of_rat_value)

lemma fp_neg_value: "fp_value F a \<Longrightarrow> fp_value F (fp_neg a)"
  by (cases a) (auto simp: fp_number_def fp_round_neg)

lemma fp_mul_k_value: "fp_proper F \<Longrightarrow> fp_value F (fp_mul_k F a k)"
  by (cases a) (auto simp: fp_of_rat_value)

lemma fp_div_k_value: "fp_proper F \<Longrightarrow> fp_value F (fp_div_k F a k)"
  by (cases a) (auto simp: fp_of_rat_value)

lemma fp_convert_value: "fp_proper F \<Longrightarrow> fp_value F (fp_convert F a)"
  by (cases a) (auto simp: fp_of_rat_value)

text \<open>A result below the largest power of two of the format does not overflow.\<close>

lemma fp_of_rat_Fin:
  assumes "fp_proper F" "\<bar>x\<bar> \<le> pow2 k" "fp_emin F \<le> k" "k < fp_emax F"
  shows "fp_of_rat F x = Fin (fp_round F x)"
proof -
  have p: "0 < fp_prec F" using assms(1) by (simp add: fp_proper_def)
  have "fp_round F (pow2 k) = pow2 k" using fp_round_exact [OF p assms(3), of 1] by simp
  then have "fp_round F \<bar>x\<bar> \<le> pow2 k" using fp_round_mono [OF p assms(2)] by simp
  moreover have "pow2 k < pow2 (fp_emax F)" using assms(4) by (simp add: pow2_less_iff)
  moreover have "\<bar>fp_round F x\<bar> = fp_round F \<bar>x\<bar>"
    using fp_round_nonneg [of x F] fp_round_nonneg [of "- x" F] by (cases "0 \<le> x") (auto simp: fp_round_neg)
  ultimately show ?thesis by (simp add: fp_of_rat_alt Let_def)
qed

lemma fp_of_rat_exact:
  assumes "fp_number F x" shows "fp_of_rat F x = Fin x"
  using assms by (simp add: fp_of_rat_alt fp_number_def Let_def)

lemma fp_of_rat_mono:
  "fp_proper F \<Longrightarrow> x \<le> y \<Longrightarrow> fp_of_rat F x = Fin r \<Longrightarrow> fp_of_rat F y = Fin q \<Longrightarrow> r \<le> q"
  using fp_round_mono [of F x y]
  by (auto simp: fp_of_rat_def fp_proper_def Let_def split: if_splits)

lemma fp_of_rat_neg: "fp_of_rat F (- x) = fp_neg (fp_of_rat F x)"
  by (auto simp: fp_of_rat_def Let_def fp_round_neg)

text \<open>One rounding to \<open>double\<close> of a number below \<open>2\<^sup>k\<close>.\<close>

lemma double_round:
  assumes "\<bar>x\<bar> < pow2 k" "- 1021 \<le> k" "k < 1024"
  obtains r where "fp_of_rat binary64 x = Fin r" "r \<le> x + pow2 (k - 54)" "x \<le> r + pow2 (k - 54)"
proof
  show "fp_of_rat binary64 x = Fin (fp_round binary64 x)"
    using assms by (intro fp_of_rat_Fin [of _ _ k]) auto
  have "\<bar>fp_round binary64 x - x\<bar> \<le> pow2 (k - 53) / 2"
    using fp_round_error [of x k binary64] assms by simp
  then show "fp_round binary64 x \<le> x + pow2 (k - 54)" "x \<le> fp_round binary64 x + pow2 (k - 54)"
    using pow2_Suc [of "k - 54"] by simp_all
qed

lemma double_of_int:
  assumes "\<bar>n\<bar> \<le> 2 ^ 53" shows "fp_of_int binary64 n = Fin (of_int n)"
proof -
  have "fp_round binary64 (of_int n * pow2 0) = of_int n * pow2 0"
    using assms by (intro fp_round_exact) auto
  then have n: "fp_round binary64 (of_int n) = of_int n" by (simp add: pow2_def)
  have "rat_of_int \<bar>n\<bar> \<le> of_int (2 ^ 53)" using assms by (simp only: of_int_le_iff)
  also have "\<dots> < pow2 1024" using pow2_less_iff [of 53 1024] by (simp add: pow2_def [of 53])
  finally show ?thesis using n
    by (simp add: fp_of_int_def fp_of_rat_exact fp_number_def)
qed

end
