(* ===== verification/Time_Fp.thy ===== *)
theory Time_Fp
  imports Double Clock
begin

text \<open>
  The conversions between durations and \<open>double\<close> of \<^verbatim>\<open>include/sancus/time.h\<close> and the clock reading as
  a \<open>double\<close> of \<^verbatim>\<open>include/sancus/clock.h\<close>, over the model of IEEE arithmetic in \<open>Double\<close>. Every
  operation on a \<open>double\<close> rounds once. The lemmas follow the rounding errors through each function:
  the conversions there and back give the duration they were given as long as the seconds leave
  enough digits for the nanoseconds.
\<close>

subsection \<open>Conversions\<close>

definition sancus_time_fp_to_ts :: "fp \<Rightarrow> timespec exec" where
  "sancus_time_fp_to_ts d =
     ebind (fp_to_long d) (\<lambda>sec.
     let d = fp_sub binary64 d (fp_of_int binary64 sec);
         d = fp_mul_k binary64 d 1000000000;
         d = fp_add binary64 d (Fin (1/2))
     in ebind (fp_to_long d) (\<lambda>nsec. Inr \<lparr>tv_sec = sec, tv_nsec = nsec\<rparr>))"

definition sancus_time_fp_to_ms :: "fp \<Rightarrow> int exec" where
  "sancus_time_fp_to_ms d =
     (let d = fp_mul_k binary64 d 1000;
          d = (if d < Fin 0 then fp_sub binary64 d (Fin (1/2)) else fp_add binary64 d (Fin (1/2)))
      in fp_to_long d)"

definition sancus_time_ts_to_fp :: "timespec \<Rightarrow> fp" where
  "sancus_time_ts_to_fp t =
     (let d = fp_of_int binary64 (tv_nsec t);
          d = fp_div_k binary64 d 1000000000
      in fp_add binary64 d (fp_of_int binary64 (tv_sec t)))"

definition sancus_time_ms_to_fp :: "int \<Rightarrow> fp exec" where
  "sancus_time_ms_to_fp ms =
     (let x = (if ms < 0 then - ms else ms) in
      chk Signed_Overflow (x \<le> INT_MAX)
        (let d = fp_of_int binary64 (x sdiv SEC_TO_MS 1);
             x = int_cast (x smod SEC_TO_MS 1);
             d = fp_add binary64 d (fp_div_k binary64 (fp_of_int binary64 x) 1000)
         in Inr (if ms < 0 then fp_neg d else d)))"

text \<open>\<open>A += B\<close> in seconds: the sign of the sum, and the sum.\<close>

definition sancus_time_add_fp :: "timespec \<Rightarrow> fp \<Rightarrow> (int \<times> timespec) exec" where
  "sancus_time_add_fp a sec = ebind (sancus_time_fp_to_ts sec) (\<lambda>b. sancus_time_add a b)"

definition sancus_now_fp :: "reading \<Rightarrow> sancus_clock option \<Rightarrow> timespec \<Rightarrow> fp" where
  "sancus_now_fp sys backend ts0 =
     sancus_time_ts_to_fp (case sancus_now sys backend (Some ts0) of (_, Some ts) \<Rightarrow> ts | (_, None) \<Rightarrow> ts0)"


subsection \<open>Errors of the conversions\<close>

lemma rat_trunc_eq: "of_int n \<le> x \<Longrightarrow> x < of_int n + 1 \<Longrightarrow> 0 \<le> n \<Longrightarrow> rat_trunc x = n"
proof -
  assume a: "of_int n \<le> x" "x < of_int n + 1" "0 \<le> n"
  then have "0 \<le> rat_of_int n" by simp
  then have "0 \<le> x" using a by linarith
  then show ?thesis using a by (simp add: rat_trunc_def floor_unique)
qed

lemma rat_trunc_neg: "rat_trunc (- x) = - rat_trunc x"
  by (auto simp: rat_trunc_def)

text \<open>The \<open>double\<close> of a duration: two roundings away from it.\<close>

lemma ts_to_fp_near:
  assumes "0 \<le> s" "s < 2 ^ k" "k \<le> 53" "0 \<le> n" "n < 1000000000"
  obtains d where "sancus_time_ts_to_fp \<lparr>tv_sec = s, tv_nsec = n\<rparr> = Fin d" "of_int s \<le> d"
    "\<bar>d - (of_int s + of_int n / 1000000000)\<bar> \<le> pow2 (int k - 54) + pow2 (- 54)"
proof -
  let ?f = "rat_of_int n / 1000000000"
  have n: "0 \<le> rat_of_int n" "rat_of_int n \<le> 999999999" using assms(4,5) by auto
  then have "\<bar>?f\<bar> < pow2 0" by (simp add: pow2_def)
  then obtain f where f: "fp_of_rat binary64 ?f = Fin f" "f \<le> ?f + pow2 (0 - 54)" "?f \<le> f + pow2 (0 - 54)"
    by (rule double_round) auto
  have s: "0 \<le> rat_of_int s" "rat_of_int s \<le> 2 ^ k - 1"
    using assms(1,2) of_int_le_iff [where 'a = rat, of s "2 ^ k - 1"] by (simp_all del: of_int_le_iff)
  have e: "pow2 (0 - 54) < 1 / 2000000000" by (simp add: pow2_def)
  have "f + of_int s < 2 ^ k" "- (f + of_int s) < 1" using f(2,3) n s e by linarith+
  moreover have "(1 :: rat) \<le> 2 ^ k" by simp
  ultimately have "\<bar>f + of_int s\<bar> < 2 ^ k" unfolding abs_less_iff by (intro conjI) linarith+
  then have "\<bar>f + of_int s\<bar> < pow2 (int k)" by (simp add: pow2_nat)
  then obtain d where d: "fp_of_rat binary64 (f + of_int s) = Fin d"
      "d \<le> f + of_int s + pow2 (int k - 54)" "f + of_int s \<le> d + pow2 (int k - 54)"
    by (rule double_round) (use assms(3) in auto)
  have i: "fp_of_int binary64 n = Fin (of_int n)" "fp_of_int binary64 s = Fin (of_int s)"
  proof -
    have "(2 :: int) ^ k \<le> 2 ^ 53" using assms(3) by (intro power_increasing) auto
    then show "fp_of_int binary64 s = Fin (of_int s)" using assms by (intro double_of_int) linarith
    show "fp_of_int binary64 n = Fin (of_int n)" using assms by (intro double_of_int) auto
  qed
  have "0 \<le> f"
    using n fp_of_rat_mono [OF fp_proper_formats(1) _ double_of_int [of 0, unfolded fp_of_int_def] f(1)] by simp
  then have sd: "of_int s \<le> d"
    using fp_of_rat_mono [OF fp_proper_formats(1) _ i(2) [unfolded fp_of_int_def] d(1)] by simp
  show thesis
  proof
    show "of_int s \<le> d" by (rule sd)
    show "sancus_time_ts_to_fp \<lparr>tv_sec = s, tv_nsec = n\<rparr> = Fin d"
      by (simp add: sancus_time_ts_to_fp_def i f(1) d(1))
    show "\<bar>d - (of_int s + ?f)\<bar> \<le> pow2 (int k - 54) + pow2 (- 54)"
      using d(2,3) f(2,3) by (simp add: abs_le_iff)
  qed
qed

text \<open>The nanoseconds of a fraction of a second: three roundings, and one half before the cut.\<close>

lemma fp_nsec_near:
  assumes "0 \<le> f" "f \<le> 1"
  obtains d where
    "fp_add binary64 (fp_mul_k binary64 (fp_of_rat binary64 f) 1000000000) (Fin (1/2)) = Fin d"
    "\<bar>d - (f * 1000000000 + 1/2)\<bar> \<le> pow2 (- 22)"
proof -
  have "\<bar>f\<bar> < pow2 1" using assms by (simp add: pow2_def)
  then obtain a where a: "fp_of_rat binary64 f = Fin a" "a \<le> f + pow2 (1 - 54)" "f \<le> a + pow2 (1 - 54)"
    by (rule double_round) auto
  have e: "pow2 (1 - 54) = 1 / 9007199254740992" "pow2 30 = 1073741824"
      "pow2 (30 - 54) = 1 / 16777216" "pow2 (- 22) = 1 / 4194304"
    by (simp_all add: pow2_def)
  have "\<bar>a * 1000000000\<bar> < pow2 30"
    unfolding abs_less_iff e using a(2,3) assms unfolding e by (intro conjI) linarith+
  then obtain b where b: "fp_of_rat binary64 (a * 1000000000) = Fin b"
      "b \<le> a * 1000000000 + pow2 (30 - 54)" "a * 1000000000 \<le> b + pow2 (30 - 54)"
    by (rule double_round) auto
  have "\<bar>b + 1/2\<bar> < pow2 30"
    unfolding abs_less_iff e using a(2,3) b(2,3) assms unfolding e by (intro conjI) linarith+
  then obtain d where d: "fp_of_rat binary64 (b + 1/2) = Fin d"
      "d \<le> b + 1/2 + pow2 (30 - 54)" "b + 1/2 \<le> d + pow2 (30 - 54)"
    by (rule double_round) auto
  show thesis
  proof
    show "fp_add binary64 (fp_mul_k binary64 (fp_of_rat binary64 f) 1000000000) (Fin (1/2)) = Fin d"
      by (simp add: a(1) b(1) d(1))
    show "\<bar>d - (f * 1000000000 + 1/2)\<bar> \<le> pow2 (- 22)"
      unfolding abs_le_iff e using a(2,3) b(2,3) d(2,3) unfolding e by (intro conjI) linarith+
  qed
qed

text \<open>The shape of \<open>sancus_time_fp_to_ts\<close> on a number whose seconds are \<open>s\<close>.\<close>

lemma fp_to_ts_run:
  assumes "of_int s \<le> d" "d < of_int s + 1" "0 \<le> s" "s < 2 ^ 53"
  obtains x where "\<bar>x - ((d - of_int s) * 1000000000 + 1/2)\<bar> \<le> pow2 (- 22)"
    "sancus_time_fp_to_ts (Fin d) = Inr \<lparr>tv_sec = s, tv_nsec = rat_trunc x\<rparr>"
    "0 \<le> rat_trunc x" "rat_trunc x \<le> 1000000000"
proof -
  have s: "rat_trunc d = s" "fp_of_int binary64 s = Fin (of_int s)"
    using assms by (auto intro!: rat_trunc_eq double_of_int)
  obtain x where x: "fp_add binary64 (fp_mul_k binary64 (fp_of_rat binary64 (d - of_int s)) 1000000000)
      (Fin (1/2)) = Fin x" "\<bar>x - ((d - of_int s) * 1000000000 + 1/2)\<bar> \<le> pow2 (- 22)"
    using fp_nsec_near [of "d - of_int s"] assms by auto
  have "pow2 (- 22) = 1 / 4194304" by (simp add: pow2_def)
  then have b: "0 \<le> x" "x < 1000000001" using x(2) assms(1,2) by (simp_all add: abs_le_iff)
  then have t: "0 \<le> rat_trunc x" "rat_trunc x \<le> 1000000000"
    by (simp_all add: rat_trunc_def floor_le_iff)
  show thesis
    using that [of x] x s t assms
    by (simp add: sancus_time_fp_to_ts_def fp_sub_def)
qed

text \<open>A number close enough to a duration is converted to it.\<close>

lemma fp_to_ts_near:
  assumes "of_int s \<le> d" "d \<le> of_int s + of_int n / 1000000000 + e" "of_int s + of_int n / 1000000000 \<le> d + e"
    and "e \<le> 466 / 1000000000000" "0 \<le> s" "s < 2 ^ 53" "0 \<le> n" "n < 1000000000"
  shows "sancus_time_fp_to_ts (Fin d) = Inr \<lparr>tv_sec = s, tv_nsec = n\<rparr>"
proof -
  have n: "rat_of_int n \<le> 999999999" using assms(8) by simp
  have hi: "d < of_int s + 1" using assms(2,4) n by linarith
  obtain x where x: "\<bar>x - ((d - of_int s) * 1000000000 + 1/2)\<bar> \<le> pow2 (- 22)"
      "sancus_time_fp_to_ts (Fin d) = Inr \<lparr>tv_sec = s, tv_nsec = rat_trunc x\<rparr>"
    using fp_to_ts_run [OF assms(1) hi] assms by auto
  have p: "pow2 (- 22) = 1 / 4194304" by (simp add: pow2_def)
  have "x \<le> (d - of_int s) * 1000000000 + 1/2 + 1 / 4194304" "(d - of_int s) * 1000000000 + 1/2 \<le> x + 1 / 4194304"
    using x(1) unfolding p abs_le_iff by linarith+
  then have "of_int n \<le> x" "x < of_int n + 1" using assms(2-4) by (simp_all add: algebra_simps)
  then have "rat_trunc x = n" using assms by (intro rat_trunc_eq)
  then show ?thesis using x(2) by simp
qed

lemma ts_fp_ts:
  assumes "0 \<le> s" "s < 8388608" "0 \<le> n" "n < 1000000000"
  shows "sancus_time_fp_to_ts (sancus_time_ts_to_fp \<lparr>tv_sec = s, tv_nsec = n\<rparr>) = Inr \<lparr>tv_sec = s, tv_nsec = n\<rparr>"
proof -
  let ?f = "rat_of_int n / 1000000000" let ?e = "pow2 (int 23 - 54) + pow2 (- 54)"
  obtain d where d: "sancus_time_ts_to_fp \<lparr>tv_sec = s, tv_nsec = n\<rparr> = Fin d" and lo: "of_int s \<le> d"
    and near: "\<bar>d - (of_int s + ?f)\<bar> \<le> ?e"
    using ts_to_fp_near [of s 23 n] assms by auto
  have "d \<le> of_int s + ?f + ?e" "of_int s + ?f \<le> d + ?e" using near unfolding abs_le_iff by linarith+
  moreover have "?e \<le> 466 / 1000000000000" by (simp add: pow2_def)
  ultimately show ?thesis using fp_to_ts_near [OF lo, of n ?e] d assms by simp
qed

lemma int_part_near:
  assumes "0 \<le> x" "x \<le> INT_MAX"
  obtains d where "fp_add binary64 (fp_of_int binary64 (x div 1000))
      (fp_div_k binary64 (fp_of_int binary64 (x mod 1000)) 1000) = Fin d"
    "d \<le> of_int x / 1000 + 1/100000" "of_int x / 1000 \<le> d + 1/100000" "0 \<le> d"
proof -
  let ?m = "rat_of_int (x mod 1000)" let ?q = "rat_of_int (x div 1000)"
  have "0 \<le> x mod 1000" "x mod 1000 \<le> 999" "0 \<le> x div 1000" "x div 1000 \<le> 2147483" using assms by auto
  then have b: "0 \<le> ?m" "?m \<le> 999" "0 \<le> ?q" "?q \<le> 2147483" by simp_all
  have "rat_of_int x = of_int (1000 * (x div 1000) + x mod 1000)" by simp
  also have "\<dots> = 1000 * ?q + ?m" by (simp only: of_int_add of_int_mult of_int_numeral)
  finally have x: "of_int x / 1000 = ?q + ?m / 1000" by simp
  have e: "pow2 (0 - 54) < 1 / 1000000" "pow2 (22 - 54) < 1 / 1000000" "pow2 22 = 4194304" "pow2 0 = 1"
    by (simp_all add: pow2_def)
  have "\<bar>?m / 1000\<bar> < pow2 0" unfolding e abs_less_iff using b by (intro conjI) linarith+
  then obtain f where f: "fp_of_rat binary64 (?m / 1000) = Fin f"
      "f \<le> ?m / 1000 + pow2 (0 - 54)" "?m / 1000 \<le> f + pow2 (0 - 54)"
    by (rule double_round) auto
  have "\<bar>?q + f\<bar> < pow2 22"
    unfolding e abs_less_iff using f(2,3) b e(1) by (intro conjI) linarith+
  then obtain d where d: "fp_of_rat binary64 (?q + f) = Fin d"
      "d \<le> ?q + f + pow2 (22 - 54)" "?q + f \<le> d + pow2 (22 - 54)"
    by (rule double_round) auto
  have i: "fp_of_int binary64 (x div 1000) = Fin ?q" "fp_of_int binary64 (x mod 1000) = Fin ?m"
    using assms by (auto intro!: double_of_int)
  show thesis
  proof
    show "fp_add binary64 (fp_of_int binary64 (x div 1000))
      (fp_div_k binary64 (fp_of_int binary64 (x mod 1000)) 1000) = Fin d"
      by (simp add: i f(1) d(1))
    show "d \<le> of_int x / 1000 + 1/100000" "of_int x / 1000 \<le> d + 1/100000"
      unfolding x using d(2,3) f(2,3) e(1,2) by linarith+
    have z: "fp_of_rat binary64 0 = Fin 0" using double_of_int [of 0] by (simp add: fp_of_int_def)
    have "0 \<le> f" using fp_of_rat_mono [OF fp_proper_formats(1) _ z f(1)] b by simp
    then show "0 \<le> d" using fp_of_rat_mono [OF fp_proper_formats(1) _ z d(1)] b by simp
  qed
qed

lemma ms_to_fp_run:
  assumes "INT_MIN < ms" "ms \<le> INT_MAX"
  obtains d where "sancus_time_ms_to_fp ms = Inr (Fin d)" "if ms < 0 then d \<le> 0 else 0 \<le> d"
    "d \<le> of_int ms / 1000 + 1/100000" "of_int ms / 1000 \<le> d + 1/100000"
proof -
  obtain d where d: "fp_add binary64 (fp_of_int binary64 (\<bar>ms\<bar> div 1000))
      (fp_div_k binary64 (fp_of_int binary64 (\<bar>ms\<bar> mod 1000)) 1000) = Fin d"
    "d \<le> of_int \<bar>ms\<bar> / 1000 + 1/100000" "of_int \<bar>ms\<bar> / 1000 \<le> d + 1/100000" "0 \<le> d"
    using int_part_near [of "\<bar>ms\<bar>"] assms by (auto simp: abs_le_iff)
  have x: "(if ms < 0 then - ms else ms) = \<bar>ms\<bar>" "\<bar>ms\<bar> \<le> INT_MAX" using assms by auto
  have m: "0 \<le> \<bar>ms\<bar> mod 1000" "\<bar>ms\<bar> mod 1000 < 1000" by simp_all
  then have c: "int_cast (\<bar>ms\<bar> mod 1000) = \<bar>ms\<bar> mod 1000" by (intro int_cast_id) linarith+
  have s: "\<bar>ms\<bar> sdiv SEC_TO_MS 1 = \<bar>ms\<bar> div 1000" "\<bar>ms\<bar> smod SEC_TO_MS 1 = \<bar>ms\<bar> mod 1000"
    by (simp_all add: SEC_TO_MS_def sdiv_nonneg signed_modulo_int_def sgn_if)
  show thesis
  proof
    show "sancus_time_ms_to_fp ms = Inr (Fin (if ms < 0 then - d else d))"
      unfolding sancus_time_ms_to_fp_def Let_def x(1) s c d(1) using x(2) by simp
    show "if ms < 0 then (if ms < 0 then - d else d) \<le> 0 else 0 \<le> (if ms < 0 then - d else d)"
      using d(4) by simp
    show "(if ms < 0 then - d else d) \<le> of_int ms / 1000 + 1/100000"
      "of_int ms / 1000 \<le> (if ms < 0 then - d else d) + 1/100000"
      using d(2,3) by (auto simp: abs_if split: if_splits)
  qed
qed

lemma fp_to_ms_pos:
  assumes "0 \<le> ms" "ms \<le> INT_MAX" "d \<le> of_int ms / 1000 + 1/100000" "of_int ms / 1000 \<le> d + 1/100000"
  obtains a b where "fp_of_rat binary64 (d * 1000) = Fin a" "fp_of_rat binary64 (a + 1/2) = Fin b"
    "rat_trunc b = ms" "0 < ms \<Longrightarrow> 0 < a" "0 \<le> d \<Longrightarrow> 0 \<le> a"
proof -
  have ms: "0 \<le> rat_of_int ms" "rat_of_int ms \<le> 2147483647" using assms(1,2) by simp_all
  have e: "pow2 (32 - 54) < 1 / 1000000" "pow2 32 = 4294967296" by (simp_all add: pow2_def)
  have "\<bar>d * 1000\<bar> < pow2 32" unfolding e abs_less_iff using assms(3,4) ms by (intro conjI) linarith+
  then obtain a where a: "fp_of_rat binary64 (d * 1000) = Fin a"
      "a \<le> d * 1000 + pow2 (32 - 54)" "d * 1000 \<le> a + pow2 (32 - 54)"
    by (rule double_round) auto
  have "\<bar>a + 1/2\<bar> < pow2 32"
    unfolding e abs_less_iff using assms(3,4) ms a(2,3) e(1) by (intro conjI) linarith+
  then obtain b where b: "fp_of_rat binary64 (a + 1/2) = Fin b"
      "b \<le> a + 1/2 + pow2 (32 - 54)" "a + 1/2 \<le> b + pow2 (32 - 54)"
    by (rule double_round) auto
  have "rat_trunc b = ms" using assms a(2,3) b(2,3) e(1) by (intro rat_trunc_eq) linarith+
  moreover have "0 < a" if "0 < ms"
  proof -
    have "1 \<le> rat_of_int ms" using that by simp
    then show ?thesis using assms(4) a(3) e(1) by linarith
  qed
  moreover have "0 \<le> a" if "0 \<le> d"
    using that fp_of_rat_mono [OF fp_proper_formats(1) _ double_of_int [of 0, unfolded fp_of_int_def] a(1)]
    by simp
  ultimately show thesis using a(1) b(1) that by blast
qed


lemma ms_fp_ms:
  assumes "INT_MIN < ms" "ms \<le> INT_MAX"
  shows "ebind (sancus_time_ms_to_fp ms) sancus_time_fp_to_ms = Inr ms"
proof -
  obtain d where d: "sancus_time_ms_to_fp ms = Inr (Fin d)" "if ms < 0 then d \<le> 0 else 0 \<le> d"
      "d \<le> of_int ms / 1000 + 1/100000" "of_int ms / 1000 \<le> d + 1/100000"
    using ms_to_fp_run [OF assms] by blast
  have "sancus_time_fp_to_ms (Fin d) = Inr ms"
  proof (cases "ms < 0")
    case False
    then have ms: "0 \<le> ms" and d0: "0 \<le> d" using d(2) by simp_all
    obtain a b where ab: "fp_of_rat binary64 (d * 1000) = Fin a" "fp_of_rat binary64 (a + 1/2) = Fin b"
        "rat_trunc b = ms" "0 \<le> a"
      using fp_to_ms_pos [OF ms assms(2) d(3,4)] d0 by metis
    then show ?thesis
      using assms by (simp add: sancus_time_fp_to_ms_def)
  next
    case True
    then have ms: "0 \<le> - ms" "- ms \<le> INT_MAX" "0 < - ms" using assms by simp_all
    have nd: "- d \<le> of_int (- ms) / 1000 + 1/100000" "of_int (- ms) / 1000 \<le> - d + 1/100000"
      using d(3,4) by simp_all
    obtain a b where ab: "fp_of_rat binary64 (- d * 1000) = Fin a" "fp_of_rat binary64 (a + 1/2) = Fin b"
        "rat_trunc b = - ms" "0 < a"
      using fp_to_ms_pos [OF ms(1,2) nd] ms(3) by metis
    have a: "fp_of_rat binary64 (d * 1000) = Fin (- a)"
      using fp_of_rat_neg [of binary64 "- d * 1000"] ab(1) by simp
    have b: "fp_of_rat binary64 (- a - 1/2) = Fin (- b)"
      using fp_of_rat_neg [of binary64 "a + 1/2"] ab(2) by simp
    show ?thesis
      using ab(3,4) a b assms
      by (simp add: sancus_time_fp_to_ms_def fp_sub_def rat_trunc_neg)
  qed
  then show ?thesis using d(1) by simp
qed

subsection \<open>Properties\<close>

text \<open>
  C13. A canonical duration from zero up to \<open>2\<^sup>23\<close> seconds (97 days), that is with seconds from 0 to
  \<open>2\<^sup>23 - 1\<close> and nanoseconds from 0 to 999999999, survives the conversion to \<open>double\<close> and back to the
  nanosecond: the rounding errors of the six operations stay below half a nanosecond. Negative
  durations do not.
\<close>

theorem ts_fp_roundtrip:
  assumes "0 \<le> tv_sec ts" "tv_sec ts < 2 ^ 23" "0 \<le> tv_nsec ts" "tv_nsec ts < 1000000000"
  shows "sancus_time_fp_to_ts (sancus_time_ts_to_fp ts) = Inr ts"
  using ts_fp_ts assms by (cases ts) simp

theorem ts_fp_roundtrip_witness:
  "sancus_time_fp_to_ts (sancus_time_ts_to_fp \<lparr>tv_sec = 86400, tv_nsec = 123456789\<rparr>) =
     Inr \<lparr>tv_sec = 86400, tv_nsec = 123456789\<rparr>"
  using ts_fp_roundtrip [of "\<lparr>tv_sec = 86400, tv_nsec = 123456789\<rparr>"] by simp

text \<open>
  Every \<open>int\<close> of milliseconds survives the conversion to \<open>double\<close> and back, negative ones too;
  the one \<open>int\<close> whose magnitude is not an \<open>int\<close> overflows.
\<close>

theorem ms_fp_roundtrip:
  assumes "INT_MIN \<le> ms" "ms \<le> INT_MAX"
  shows "ebind (sancus_time_ms_to_fp ms) sancus_time_fp_to_ms =
     (if ms = INT_MIN then Inl Signed_Overflow else Inr ms)"
proof (cases "ms = INT_MIN")
  case True
  then show ?thesis by (simp add: sancus_time_ms_to_fp_def)
next
  case False
  then show ?thesis using ms_fp_ms [of ms] assms by simp
qed

theorem ms_fp_roundtrip_witness:
  "ebind (sancus_time_ms_to_fp (- 1500)) sancus_time_fp_to_ms = Inr (- 1500)"
  using ms_fp_roundtrip [of "- 1500"] by simp

text \<open>
  On a \<open>double\<close> from zero to \<open>2\<^sup>53\<close> seconds \<open>sancus_time_fp_to_ts\<close> gives the whole seconds, and
  nanoseconds from zero to \<open>10\<^sup>9\<close>, the latter included, within a half and a rounding of the exact ones.
\<close>

theorem fp_to_ts_bounds:
  assumes "0 \<le> d" "d < 2 ^ 53"
  shows "\<exists>n. sancus_time_fp_to_ts (Fin d) = Inr \<lparr>tv_sec = \<lfloor>d\<rfloor>, tv_nsec = n\<rparr> \<and>
     0 \<le> n \<and> n \<le> 1000000000 \<and> \<bar>of_int n - (d - of_int \<lfloor>d\<rfloor>) * 1000000000\<bar> \<le> 1/2 + 1 / 2 ^ 22"
proof -
  let ?f = "(d - of_int \<lfloor>d\<rfloor>) * 1000000000"
  have s: "of_int \<lfloor>d\<rfloor> \<le> d" "d < of_int \<lfloor>d\<rfloor> + 1" "0 \<le> \<lfloor>d\<rfloor>" "\<lfloor>d\<rfloor> < 2 ^ 53"
    using assms by (simp_all add: floor_less_iff) linarith
  obtain x where x: "\<bar>x - (?f + 1/2)\<bar> \<le> pow2 (- 22)"
      "sancus_time_fp_to_ts (Fin d) = Inr \<lparr>tv_sec = \<lfloor>d\<rfloor>, tv_nsec = rat_trunc x\<rparr>"
      "0 \<le> rat_trunc x" "rat_trunc x \<le> 1000000000"
    using fp_to_ts_run [OF s] by blast
  have p: "pow2 (- 22) = 1 / 4194304" by (simp add: pow2_def)
  have "0 \<le> ?f" using s(1) by simp
  then have "0 \<le> x" using x(1) unfolding p abs_le_iff by linarith
  then have "of_int (rat_trunc x) \<le> x" "x < of_int (rat_trunc x) + 1" by (simp_all add: rat_trunc_def) linarith
  then have "\<bar>of_int (rat_trunc x) - ?f\<bar> \<le> 1/2 + 1 / 2 ^ 22"
    using x(1) unfolding p abs_le_iff by (intro conjI) simp_all
  with x(2-4) show ?thesis by blast
qed

theorem fp_to_ts_bounds_witness:
  "\<exists>n. sancus_time_fp_to_ts (Fin (5/2)) = Inr \<lparr>tv_sec = \<lfloor>5/2 :: rat\<rfloor>, tv_nsec = n\<rparr> \<and> 0 \<le> n \<and> n \<le> 1000000000"
  using fp_to_ts_bounds [of "5/2"] by auto

text \<open>
  \<open>sancus_time_fp_to_ts\<close> does not give the library's canonical form. A negative number gets a
  negative count of nanoseconds beside its negative seconds, one nanosecond short, where the form
  has the sign on the seconds alone; a number just below a second gets a whole second of nanoseconds.
\<close>

theorem fp_to_ts_not_canonical:
  "sancus_time_fp_to_ts (Fin (- 3/2)) = Inr \<lparr>tv_sec = - 1, tv_nsec = - 499999999\<rparr> \<and>
   sancus_time_fp_to_ts (Fin (1 - 1 / 2 ^ 32)) = Inr \<lparr>tv_sec = 0, tv_nsec = 1000000000\<rparr>"
proof
  show "sancus_time_fp_to_ts (Fin (- 3/2)) = Inr \<lparr>tv_sec = - 1, tv_nsec = - 499999999\<rparr>"
    by code_simp
  obtain x where x: "\<bar>x - ((1 - 1 / 2 ^ 32 - of_int 0) * 1000000000 + 1/2)\<bar> \<le> pow2 (- 22)"
      "sancus_time_fp_to_ts (Fin (1 - 1 / 2 ^ 32)) = Inr \<lparr>tv_sec = 0, tv_nsec = rat_trunc x\<rparr>"
    using fp_to_ts_run [of 0 "1 - 1 / 2 ^ 32"] by auto
  have "pow2 (- 22) = 1 / 4194304" by (simp add: pow2_def)
  then have "rat_trunc x = 1000000000" using x(1) by (intro rat_trunc_eq) (simp_all add: abs_le_iff)
  with x(2) show "sancus_time_fp_to_ts (Fin (1 - 1 / 2 ^ 32)) = Inr \<lparr>tv_sec = 0, tv_nsec = 1000000000\<rparr>"
    by simp
qed

text \<open>The addition of the library on non-negative seconds and a count of nanoseconds below two seconds.\<close>

lemma time_add_carries:
  assumes "0 \<le> tv_sec a" "tv_sec a < 2 ^ 61" "0 \<le> tv_nsec a" "tv_nsec a < 1000000000"
    and "0 \<le> s" "s < 2 ^ 61" "0 \<le> n" "n \<le> 1000000000"
  shows "\<exists>r. sancus_time_add a \<lparr>tv_sec = s, tv_nsec = n\<rparr> = Inr (sgn (tv_value r), r) \<and>
    canonical r \<and> 0 \<le> tv_sec r \<and> 0 \<le> tv_nsec r \<and> tv_value r = tv_value a + 1000000000 * s + n"
proof -
  let ?s = "tv_sec a + s" and ?n = "tv_nsec a + n"
  let ?v = "1000000000 * ?s + ?n"
  have t: "sancus_time_add a \<lparr>tv_sec = s, tv_nsec = n\<rparr> = sancus_time_fix \<lparr>tv_sec = ?s, tv_nsec = ?n\<rparr>"
    using assms by (simp add: sancus_time_add_def time_add_def)
  have "fix_gives ?s ?n ?v"
  proof (cases "?n < 1000000000")
    case True
    then show ?thesis using assms by (subst fix_gives_keep) (auto simp: tv_value_def)
  next
    case False
    then show ?thesis using assms by (subst fix_gives_carry) (auto simp: tv_value_def)
  qed
  then obtain r where r: "sancus_time_fix \<lparr>tv_sec = ?s, tv_nsec = ?n\<rparr> = Inr (sgn ?v, r)" "canonical r" "tv_value r = ?v"
    by (auto simp: fix_gives_def)
  moreover have "0 \<le> tv_sec r \<and> 0 \<le> tv_nsec r"
    using r(2,3) assms by (auto simp: canonical_def tv_value_def split: if_splits)
  moreover have "tv_value a = 1000000000 * tv_sec a + tv_nsec a" using assms by (simp add: tv_value_def)
  ultimately show ?thesis unfolding t by auto
qed

text \<open>
  C23. \<open>sancus_time_add_fp\<close> adds a number of seconds from zero to \<open>2\<^sup>53\<close> to a canonical duration
  that is not negative: no overflow, the carry of the nanoseconds is taken also when the rounding
  gives a whole second of them, the result is canonical with its sign as answer, and it is within
  half a nanosecond and a rounding of the exact sum. The \<open>double\<close> of a canonical duration below
  \<open>2\<^sup>23\<close> seconds is added exactly.
\<close>

theorem add_fp_near:
  assumes "0 \<le> tv_sec a" "tv_sec a < 2 ^ 61" "0 \<le> tv_nsec a" "tv_nsec a < 1000000000"
  shows "(\<forall>d. 0 \<le> d \<longrightarrow> d < 2 ^ 53 \<longrightarrow>
       (\<exists>r. sancus_time_add_fp a (Fin d) = Inr (sgn (tv_value r), r) \<and> canonical r \<and>
          0 \<le> tv_sec r \<and> 0 \<le> tv_nsec r \<and>
          \<bar>of_int (tv_value r) - (of_int (tv_value a) + 1000000000 * d)\<bar> \<le> 1/2 + 1 / 2 ^ 22)) \<and>
    (\<forall>b. 0 \<le> tv_sec b \<longrightarrow> tv_sec b < 2 ^ 23 \<longrightarrow> 0 \<le> tv_nsec b \<longrightarrow> tv_nsec b < 1000000000 \<longrightarrow>
       (\<exists>r. sancus_time_add_fp a (sancus_time_ts_to_fp b) = Inr (sgn (tv_value r), r) \<and> canonical r \<and>
          tv_value r = tv_value a + tv_value b))"
proof (intro conjI allI impI)
  fix d :: rat assume d: "0 \<le> d" "d < 2 ^ 53"
  obtain n where n: "sancus_time_fp_to_ts (Fin d) = Inr \<lparr>tv_sec = \<lfloor>d\<rfloor>, tv_nsec = n\<rparr>" "0 \<le> n" "n \<le> 1000000000"
      "\<bar>of_int n - (d - of_int \<lfloor>d\<rfloor>) * 1000000000\<bar> \<le> 1/2 + 1 / 2 ^ 22"
    using fp_to_ts_bounds [OF d] by blast
  have "0 \<le> \<lfloor>d\<rfloor>" "\<lfloor>d\<rfloor> < 2 ^ 61" using d by (simp_all add: floor_less_iff)
  from time_add_carries [OF assms this n(2,3)] n(1)
  obtain r where r: "sancus_time_add_fp a (Fin d) = Inr (sgn (tv_value r), r)" "canonical r"
      "0 \<le> tv_sec r" "0 \<le> tv_nsec r" "tv_value r = tv_value a + 1000000000 * \<lfloor>d\<rfloor> + n"
    by (auto simp: sancus_time_add_fp_def)
  have "of_int (tv_value r) - (of_int (tv_value a) + 1000000000 * d) =
      of_int n - (d - of_int \<lfloor>d\<rfloor>) * 1000000000" by (simp add: r(5) algebra_simps)
  then have "\<bar>of_int (tv_value r) - (of_int (tv_value a) + 1000000000 * d)\<bar> \<le> 1/2 + 1 / 2 ^ 22"
    using n(4) by (simp only:)
  with r(1-4) show "\<exists>r. sancus_time_add_fp a (Fin d) = Inr (sgn (tv_value r), r) \<and> canonical r \<and>
      0 \<le> tv_sec r \<and> 0 \<le> tv_nsec r \<and>
      \<bar>of_int (tv_value r) - (of_int (tv_value a) + 1000000000 * d)\<bar> \<le> 1/2 + 1 / 2 ^ 22"
    by blast
next
  fix b :: timespec assume b: "0 \<le> tv_sec b" "tv_sec b < 2 ^ 23" "0 \<le> tv_nsec b" "tv_nsec b < 1000000000"
  then have "sancus_time_fp_to_ts (sancus_time_ts_to_fp b) = Inr b" using ts_fp_ts by (cases b) simp
  moreover have "tv_value b = 1000000000 * tv_sec b + tv_nsec b" using b by (simp add: tv_value_def)
  ultimately show "\<exists>r. sancus_time_add_fp a (sancus_time_ts_to_fp b) = Inr (sgn (tv_value r), r) \<and> canonical r \<and>
      tv_value r = tv_value a + tv_value b"
    using time_add_carries [OF assms b(1) _ b(3)] b
    by (cases b) (auto simp: sancus_time_add_fp_def)
qed

theorem add_fp_near_witness:
  "\<exists>r. sancus_time_add_fp \<lparr>tv_sec = 1, tv_nsec = 999000000\<rparr> (Fin (5/2)) = Inr (sgn (tv_value r), r) \<and>
     \<bar>of_int (tv_value r) - (4499000000 :: rat)\<bar> \<le> 1/2 + 1 / 2 ^ 22"
proof -
  have v: "tv_value \<lparr>tv_sec = 1, tv_nsec = 999000000\<rparr> = 1999000000" by (simp add: tv_value_def)
  show ?thesis
    using add_fp_near [of "\<lparr>tv_sec = 1, tv_nsec = 999000000\<rparr>", THEN conjunct1, rule_format, of "5/2"]
    by (auto simp: v)
qed

text \<open>
  The clock read as a \<open>double\<close> is within a rounding of the reading, \<open>2\<^sup>-22\<close> seconds (a quarter of a
  microsecond) for every time before 2038.
\<close>

theorem now_fp_near:
  assumes "0 \<le> tv_sec ts" "tv_sec ts < 2 ^ 31" "0 \<le> tv_nsec ts" "tv_nsec ts < 1000000000"
  shows "\<exists>d. sancus_now_fp (0, ts) None ts0 = Fin d \<and>
     \<bar>d - (of_int (tv_sec ts) + of_int (tv_nsec ts) / 1000000000)\<bar> \<le> 1 / 2 ^ 22"
proof -
  have ts: "\<lparr>tv_sec = tv_sec ts, tv_nsec = tv_nsec ts\<rparr> = ts" by simp
  obtain d where d: "sancus_time_ts_to_fp ts = Fin d"
    "\<bar>d - (of_int (tv_sec ts) + of_int (tv_nsec ts) / 1000000000)\<bar> \<le> pow2 (int 31 - 54) + pow2 (- 54)"
    by (rule ts_to_fp_near [OF assms(1,2) _ assms(3,4), unfolded ts]) simp
  have p: "pow2 (int 31 - 54) + pow2 (- 54) \<le> 1 / 2 ^ 22" by (simp add: pow2_def)
  have n: "sancus_now_fp (0, ts) None ts0 = sancus_time_ts_to_fp ts"
    by (simp add: sancus_now_fp_def sancus_now_def sancus_clock_gettime_def sancus_gettime_def)
  show ?thesis using order_trans [OF d(2) p] unfolding n d(1) by blast
qed

theorem now_fp_near_witness:
  "\<exists>d. sancus_now_fp (0, \<lparr>tv_sec = 1700000000, tv_nsec = 5\<rparr>) None \<lparr>tv_sec = 0, tv_nsec = 0\<rparr> = Fin d \<and>
     \<bar>d - (1700000000 + 5 / 1000000000)\<bar> \<le> 1 / 2 ^ 22"
  using now_fp_near [of "\<lparr>tv_sec = 1700000000, tv_nsec = 5\<rparr>" "\<lparr>tv_sec = 0, tv_nsec = 0\<rparr>"] by simp

end
