(* ===== verification/Types_Fp.thy ===== *)
theory Types_Fp
  imports Types Double
begin

text \<open>
  The conversions to \<open>double\<close> of \<^verbatim>\<open>include/sancus/types.h\<close>: numbers within a range as a \<open>double\<close>, and
  text to \<open>double\<close> and \<open>long double\<close>. \<open>strtod\<close> and \<open>strtold\<close> of the standard library are modelled in the
  C locale: white space, a sign, then a decimal or hexadecimal number, an infinity or a NaN; the
  value is the nearest one of the format.
\<close>

subsection \<open>Ranges\<close>

definition sancus_frll :: "int \<Rightarrow> int \<Rightarrow> int \<Rightarrow> fp exec" where
  "sancus_frll v a b = converted (gele a b) (fp_of_int binary64) v"

definition sancus_get_frll :: "int \<Rightarrow> int \<Rightarrow> int \<Rightarrow> fp option \<Rightarrow> bool \<times> fp option" where
  "sancus_get_frll v a b = get_converted (gele a b) (fp_of_int binary64) v"

definition sancus_frzd :: "int \<Rightarrow> int \<Rightarrow> int \<Rightarrow> fp exec" where
  "sancus_frzd v a b = converted (gele a b) (fp_of_int binary64) v"

definition sancus_get_frzd :: "int \<Rightarrow> int \<Rightarrow> int \<Rightarrow> fp option \<Rightarrow> bool \<times> fp option" where
  "sancus_get_frzd v a b = get_converted (gele a b) (fp_of_int binary64) v"

definition sancus_frf :: "fp \<Rightarrow> fp \<Rightarrow> fp \<Rightarrow> fp exec" where
  "sancus_frf v a b = converted (gele a b) (\<lambda>v. v) v"

definition sancus_get_frf :: "fp \<Rightarrow> fp \<Rightarrow> fp \<Rightarrow> fp option \<Rightarrow> bool \<times> fp option" where
  "sancus_get_frf v a b = get_converted (gele a b) (\<lambda>v. v) v"

definition sancus_frff :: "fp \<Rightarrow> fp \<Rightarrow> fp \<Rightarrow> fp exec" where
  "sancus_frff v a b = converted (gele a b) (fp_convert binary64) v"

definition sancus_get_frff :: "fp \<Rightarrow> fp \<Rightarrow> fp \<Rightarrow> fp option \<Rightarrow> bool \<times> fp option" where
  "sancus_get_frff v a b = get_converted (gele a b) (fp_convert binary64) v"

subsection \<open>Text\<close>

definition to_lower :: "byte \<Rightarrow> byte" where
  "to_lower c = (if 65 \<le> c \<and> c \<le> 90 then c + 32 else c)"

definition is_xdigit :: "byte \<Rightarrow> bool" where
  "is_xdigit c \<longleftrightarrow> is_digit c \<or> (97 \<le> to_lower c \<and> to_lower c \<le> 102)"

definition xdigit_value :: "byte \<Rightarrow> int" where
  "xdigit_value c = (if is_digit c then uint c - 48 else uint (to_lower c) - 87)"

definition base_value :: "int \<Rightarrow> byte list \<Rightarrow> int" where
  "base_value b ds = foldl (\<lambda>a c. b * a + xdigit_value c) 0 ds"

text \<open>Digits with at most one point, at least one digit: the value and the rest.\<close>

definition scan_mantissa :: "(byte \<Rightarrow> bool) \<Rightarrow> int \<Rightarrow> byte list \<Rightarrow> (rat \<times> byte list) option" where
  "scan_mantissa dig b s =
     (let ip = takeWhile dig s; r = dropWhile dig s;
          (fr, r) = (case r of
                       c # t \<Rightarrow> if c = 46 then (takeWhile dig t, dropWhile dig t) else ([], r)
                     | [] \<Rightarrow> ([], r))
      in if ip = [] \<and> fr = [] then None
         else Some (of_int (base_value b (ip @ fr)) / of_int b ^ length fr, r))"

text \<open>An exponent after its letter; without a digit nothing is taken.\<close>

definition scan_exponent :: "byte \<Rightarrow> byte list \<Rightarrow> int \<times> byte list" where
  "scan_exponent mark s =
     (case s of
        c # t \<Rightarrow>
          if to_lower c = mark then
            let (neg, r) = split_sign t; ds = takeWhile is_digit r
            in if ds = [] then (0, s)
               else (if neg then - digits_value ds else digits_value ds, dropWhile is_digit r)
          else (0, s)
      | [] \<Rightarrow> (0, s))"

definition pow10 :: "int \<Rightarrow> rat" where
  "pow10 k = (if 0 \<le> k then 10 ^ nat k else 1 / 10 ^ nat (- k))"

text \<open>The characters in parentheses a NaN may carry.\<close>

definition skip_nchars :: "byte list \<Rightarrow> byte list" where
  "skip_nchars s =
     (case s of
        c # t \<Rightarrow>
          if c = 40 then
            case dropWhile (\<lambda>c. is_digit c \<or> (97 \<le> to_lower c \<and> to_lower c \<le> 122) \<or> c = 95) t of
              d # r \<Rightarrow> if d = 41 then r else s
            | [] \<Rightarrow> s
          else s
      | [] \<Rightarrow> s)"

definition scan_fp :: "fp_format \<Rightarrow> byte list \<Rightarrow> (fp \<times> byte list) option" where
  "scan_fp F s =
     (if map to_lower (take 8 s) = [105, 110, 102, 105, 110, 105, 116, 121] then Some (Inf False, drop 8 s)
      else if map to_lower (take 3 s) = [105, 110, 102] then Some (Inf False, drop 3 s)
      else if map to_lower (take 3 s) = [110, 97, 110] then Some (NaN, skip_nchars (drop 3 s))
      else
        case (if map to_lower (take 2 s) = [48, 120] then scan_mantissa is_xdigit 16 (drop 2 s) else None) of
          Some (m, r) \<Rightarrow> let (e, r) = scan_exponent 112 r in Some (fp_of_rat F (m * pow2 e), r)
        | None \<Rightarrow>
            (case scan_mantissa is_digit 10 s of
               Some (m, r) \<Rightarrow> let (e, r) = scan_exponent 101 r in Some (fp_of_rat F (m * pow10 e), r)
             | None \<Rightarrow> None))"

text \<open>
  The value and where the text ends, the start when there is no number. The argument is a string;
  a block without its terminating zero is out of bounds.
\<close>

definition strtofp :: "fp_format \<Rightarrow> byte list \<Rightarrow> (fp \<times> nat) exec" where
  "strtofp F blk =
     (if 0 \<notin> set blk then Inl Bad_Access
      else
        let str = takeWhile (\<lambda>c. c \<noteq> 0) blk;
            (neg, r) = split_sign (dropWhile is_space str)
        in case scan_fp F r of
             None \<Rightarrow> Inr (Fin 0, 0)
           | Some (v, rest) \<Rightarrow> Inr (if neg then fp_neg v else v, length str - length rest))"

definition strtod :: "byte list \<Rightarrow> (fp \<times> nat) exec" where "strtod = strtofp binary64"
definition strtold :: "byte list \<Rightarrow> (fp \<times> nat) exec" where "strtold = strtofp x87_extended"

definition sancus_get_fs :: "byte list option \<Rightarrow> (bool \<times> fp) exec" where "sancus_get_fs = get_strto (Fin 0) strtod"
definition sancus_get_ffs :: "byte list option \<Rightarrow> (bool \<times> fp) exec" where "sancus_get_ffs = get_strto (Fin 0) strtold"

definition sancus_get_frlls :: "byte list option \<Rightarrow> int \<Rightarrow> int \<Rightarrow> fp option \<Rightarrow> (bool \<times> fp option) exec" where
  "sancus_get_frlls = get_gele_strto sancus_get_lls sancus_get_frll"

definition sancus_get_frfs :: "byte list option \<Rightarrow> fp \<Rightarrow> fp \<Rightarrow> fp option \<Rightarrow> (bool \<times> fp option) exec" where
  "sancus_get_frfs = get_gele_strto sancus_get_fs sancus_get_frf"

definition sancus_get_frffs :: "byte list option \<Rightarrow> fp \<Rightarrow> fp \<Rightarrow> fp option \<Rightarrow> (bool \<times> fp option) exec" where
  "sancus_get_frffs = get_gele_strto sancus_get_ffs sancus_get_frff"

subsection \<open>Decimal numbers\<close>

lemma base_value_digits: "list_all is_digit ds \<Longrightarrow> base_value 10 ds = digits_value ds"
  by (induction ds rule: rev_induct) (simp_all add: base_value_def digits_value_def xdigit_value_def)

lemma split_sign_number:
  assumes "list_all is_digit ip" "ip \<noteq> []"
  shows "split_sign (dropWhile is_space ((if neg then [45] else []) @ ip @ t)) = (neg, ip @ t)"
proof -
  obtain d ds where d: "ip = d # ds" using assms by (meson neq_Nil_conv)
  then have "is_digit d" using assms by simp
  with d digit_not_sign [of d] show ?thesis by (auto simp: split_sign_def is_space_def)
qed

lemma digit_plain: "is_digit c \<Longrightarrow> to_lower c = c \<and> c \<noteq> 105 \<and> c \<noteq> 110 \<and> c \<noteq> 46 \<and> c \<noteq> 120"
  by (auto simp: is_digit_def to_lower_def word_le_def)

lemma takeWhile_all: "list_all p xs \<Longrightarrow> \<not> p c \<Longrightarrow> takeWhile p (xs @ c # t) = xs \<and> dropWhile p (xs @ c # t) = c # t"
  by (induction xs) auto

lemma scan_mantissa_decimal:
  assumes "list_all is_digit ip" "list_all is_digit fr" "ip \<noteq> []"
  shows "scan_mantissa is_digit 10 (ip @ 46 # fr) = Some (of_int (digits_value (ip @ fr)) / 10 ^ length fr, [])"
proof -
  have "\<not> is_digit 46" by (simp add: is_digit_def)
  note t = takeWhile_all [OF assms(1) this, of fr]
  have f: "takeWhile is_digit fr = fr" "dropWhile is_digit fr = []"
    using assms(2) by (simp_all add: list_all_iff takeWhile_eq_all_conv dropWhile_eq_Nil_conv)
  show ?thesis
    unfolding scan_mantissa_def using t assms by (simp add: f base_value_digits)
qed

lemma scan_fp_decimal:
  assumes "list_all is_digit ip" "list_all is_digit fr" "ip \<noteq> []"
  shows "scan_fp F (ip @ 46 # fr) = Some (fp_of_rat F (of_int (digits_value (ip @ fr)) / 10 ^ length fr), [])"
proof -
  obtain d ds where d: "ip = d # ds" using assms by (meson neq_Nil_conv)
  have dd: "is_digit d" "list_all is_digit ds" using assms d by simp_all
  have hx: "map to_lower (take 2 (ip @ 46 # fr)) \<noteq> [48, 120]"
  proof (cases ds)
    case Nil
    then show ?thesis using d by (simp add: to_lower_def)
  next
    case (Cons e es)
    then show ?thesis using d dd digit_plain [of e] by simp
  qed
  have "map to_lower (take 8 (ip @ 46 # fr)) \<noteq> [105, 110, 102, 105, 110, 105, 116, 121]"
    "map to_lower (take 3 (ip @ 46 # fr)) \<noteq> [105, 110, 102]"
    "map to_lower (take 3 (ip @ 46 # fr)) \<noteq> [110, 97, 110]"
    using digit_plain [OF dd(1)] d by simp_all
  then show ?thesis
    unfolding scan_fp_def using hx scan_mantissa_decimal [OF assms]
    by (simp add: scan_exponent_def pow10_def)
qed

lemma strtofp_decimal:
  assumes "list_all is_digit ip" "list_all is_digit fr" "ip \<noteq> []"
  shows "strtofp F ((if neg then [45] else []) @ ip @ 46 # fr @ 0 # rest) =
    Inr (let v = of_int (digits_value (ip @ fr)) / 10 ^ length fr in
         (fp_of_rat F (if neg then - v else v), length ((if neg then [45 :: byte] else []) @ ip @ 46 # fr)))"
proof -
  let ?s = "(if neg then [45 :: byte] else []) @ ip @ 46 # fr"
  have nz: "list_all (\<lambda>c. c \<noteq> 0) ?s"
    using assms digit_not_sign by (auto simp: list_all_iff)
  have "takeWhile (\<lambda>c. c \<noteq> 0) (?s @ 0 # rest) = ?s" using takeWhile_all [OF nz, of 0 rest] by simp
  moreover have "split_sign (dropWhile is_space ?s) = (neg, ip @ 46 # fr)"
    using split_sign_number [OF assms(1,3), of neg "46 # fr"] by simp
  ultimately show ?thesis
    unfolding strtofp_def using scan_fp_decimal [OF assms, of F]
    by (simp add: Let_def fp_of_rat_neg)
qed


lemma get_gele_strto_range:
  assumes "get_gele_strto F0 (\<lambda>v a b. get_converted (T a b) fn v) s a b out = Inr (True, Some r)"
    and "out \<noteq> None"
  shows "\<exists>v. F0 s = Inr (True, v) \<and> T a b v \<and> r = fn v"
  using assms by (auto simp: get_gele_strto_def get_converted_def run_simps split: if_splits option.splits)

lemma get_fs_number:
  assumes "list_all is_digit ip" "list_all is_digit fr" "ip \<noteq> []"
    and "v = of_int (digits_value (ip @ fr)) / 10 ^ length fr"
    and "d = fp_of_rat binary64 (if neg then - v else v)"
    and "s = (if neg then [45] else []) @ ip @ 46 # fr @ 0 # rest"
  shows "sancus_get_fs (Some s) = Inr (True, d)"
proof -
  let ?s = "(if neg then [45 :: byte] else []) @ ip @ 46 # fr"
  have s: "s = ?s @ 0 # rest" using assms(6) by simp
  have l: "strtod s = Inr (d, length ?s)"
    using strtofp_decimal [OF assms(1-3), of binary64 neg rest] assms(4-6) by (simp add: strtod_def Let_def)
  have "hd s \<noteq> 0" using assms(1,3,6) digit_not_sign by (cases ip) auto
  moreover have "s \<noteq> []" unfolding s by simp
  ultimately have "mem_get 0 1 s = Inr [hd s]" by (cases s) (simp_all add: mem_get_def)
  moreover have "mem_get (length ?s) 1 s = Inr [0]" unfolding s by (simp add: mem_get_def)
  ultimately show ?thesis
    using \<open>hd s \<noteq> 0\<close> by (simp add: sancus_get_fs_def get_strto_def l)
qed

subsection \<open>Properties\<close>

text \<open>
  C29. \<open>sancus_get_fs\<close> reads every decimal number with a point, of any number of digits, as the
  \<open>double\<close> nearest to it, and \<open>sancus_get_frfs\<close> stores it when it lies in the range and leaves the
  output alone when it does not.
\<close>

theorem get_frfs_decimal:
  assumes "list_all is_digit ip" "list_all is_digit fr" "ip \<noteq> []"
    and "v = of_int (digits_value (ip @ fr)) / 10 ^ length fr"
    and "d = fp_of_rat binary64 (if neg then - v else v)"
    and "s = (if neg then [45] else []) @ ip @ 46 # fr @ 0 # rest"
  shows "sancus_get_fs (Some s) = Inr (True, d) \<and>
    sancus_get_frfs (Some s) a b (Some old) =
      Inr (if a \<le> d \<and> d \<le> b then (True, Some d) else (False, Some old))"
  using get_fs_number [OF assms]
  by (simp add: sancus_get_frfs_def get_gele_strto_def sancus_get_frf_def get_converted_def gele_def)

text \<open>\<open>-2.5\<close> within \<open>[-3, 0]\<close>.\<close>

theorem get_frfs_decimal_witness:
  "sancus_get_frfs (Some [45, 50, 46, 53, 0]) (Fin (- 3)) (Fin 0) (Some NaN) = Inr (True, Some (Fin (- 5/2)))"
proof -
  have n: "fp_of_rat binary64 (of_int (- 5) * pow2 (- 1)) = Fin (of_int (- 5) * pow2 (- 1))"
    by code_simp
  then have d: "fp_of_rat binary64 (- 5/2) = Fin (- 5/2)" by (simp add: pow2_def)
  show ?thesis
    using get_frfs_decimal [where ip = "[50]" and fr = "[53]" and neg = True and rest = "[]"
        and a = "Fin (- 3)" and b = "Fin 0" and old = NaN, OF _ _ _ refl refl refl] d
    by (simp add: is_digit_def digits_value_def)
qed

text \<open>
  A number of type \<open>long long\<close> within a range becomes a \<open>double\<close> between the \<open>double\<close>s of the
  bounds, the number itself up to \<open>2\<^sup>53\<close>; a number outside the range stops the program.
\<close>

theorem frll_between:
  assumes "LONG_MIN \<le> a" "b \<le> LONG_MAX"
  shows "case sancus_frll v a b of
      Inl e \<Rightarrow> e = Assert_Fail \<and> (v < a \<or> b < v)
    | Inr d \<Rightarrow> fp_of_int binary64 a \<le> d \<and> d \<le> fp_of_int binary64 b \<and>
        (\<bar>v\<bar> > 2 ^ 53 \<or> d = Fin (of_int v))"
proof (cases "a \<le> v \<and> v \<le> b")
  case True
  have f: "fp_of_int binary64 n = Fin (fp_round binary64 (of_int n))" if "a \<le> n" "n \<le> b" for n
  proof -
    have "\<bar>n\<bar> \<le> 2 ^ 63" using that assms by auto
    then have "rat_of_int \<bar>n\<bar> \<le> of_int (2 ^ 63)" by (simp only: of_int_le_iff)
    then have "\<bar>rat_of_int n\<bar> \<le> pow2 63" by (simp add: pow2_def)
    then show ?thesis unfolding fp_of_int_def by (rule fp_of_rat_Fin [rotated]) simp_all
  qed
  have "fp_round binary64 (of_int a) \<le> fp_round binary64 (of_int v)"
    "fp_round binary64 (of_int v) \<le> fp_round binary64 (of_int b)"
    using True by (auto intro!: fp_round_mono)
  then show ?thesis
    using True f [of a] f [of v] f [of b] double_of_int [of v]
    by (cases "\<bar>v\<bar> \<le> 2 ^ 53") (auto simp: sancus_frll_def converted_def gele_def)
qed (auto simp: sancus_frll_def converted_def gele_def)

theorem frll_between_witness:
  "fp_of_int binary64 5 \<le> fp_of_int binary64 7 \<and> sancus_frll 7 5 9 = Inr (Fin 7)"
  using frll_between [of 5 9 7] double_of_int [of 7] by (simp add: sancus_frll_def converted_def gele_def)

text \<open>
  The check of the range is made before the conversion rounds: the \<open>double\<close> \<open>sancus_frff\<close> and
  \<open>sancus_frll\<close> answer can lie outside the range they were given.
\<close>

theorem frff_outside_range:
  "sancus_frff (Fin (1 + 1 / 2 ^ 63)) (Fin (1 + 1 / 2 ^ 63)) (Fin 2) = Inr (Fin 1) \<and>
   sancus_frll (2 ^ 53 + 1) (2 ^ 53 + 1) (2 ^ 60) = Inr (Fin (2 ^ 53))"
proof
  have "ilog2 (1 + 1 / 2 ^ 63) = 0" "ilog2 (2 ^ 53 + 1) = 53"
    by (rule ilog2_unique; simp add: pow2_def)+
  moreover have "\<lfloor>9223372036854775809 / 2048 :: rat\<rfloor> = 4503599627370496" "\<lfloor>9007199254740993 / 2 :: rat\<rfloor> = 4503599627370496"
    by (rule floor_unique; simp)+
  ultimately have "fp_round binary64 (1 + 1 / 2 ^ 63) = 1" "fp_round binary64 (2 ^ 53 + 1) = 2 ^ 53"
    by (simp_all add: fp_round_def ulp_exp_def pow2_def round_even_def Let_def)
  moreover have "ilog2 1 = 0" "ilog2 (2 ^ 53) = 53" by (rule ilog2_unique; simp add: pow2_def)+
  ultimately show "sancus_frff (Fin (1 + 1 / 2 ^ 63)) (Fin (1 + 1 / 2 ^ 63)) (Fin 2) = Inr (Fin 1)"
    "sancus_frll (2 ^ 53 + 1) (2 ^ 53 + 1) (2 ^ 60) = Inr (Fin (2 ^ 53))"
    by (simp_all add: sancus_frff_def sancus_frll_def converted_def gele_def fp_of_int_def fp_of_rat_def Let_def)
qed

text \<open>
  Whatever the text, a \<open>double\<close> \<open>sancus_get_frfs\<close> stores lies in the range, and is not a NaN.
\<close>

theorem get_frfs_in_range:
  assumes "sancus_get_frfs s a b (Some old) = Inr (True, Some d)"
  shows "a \<le> d \<and> d \<le> b \<and> d \<noteq> NaN"
proof -
  have "\<exists>v. sancus_get_fs s = Inr (True, v) \<and> gele a b v \<and> d = v"
    using get_gele_strto_range [where T = "gele :: fp \<Rightarrow> _" and fn = "\<lambda>v. v"] assms
    by (simp add: sancus_get_frfs_def sancus_get_frf_def [abs_def])
  then show ?thesis by (cases a) (auto simp: gele_def)
qed

theorem get_frfs_in_range_witness: "Fin 0 \<le> Inf False \<and> Inf False \<le> Inf False"
proof -
  have "sancus_get_frfs (Some [105, 110, 102, 0]) (Fin 0) (Inf False) (Some NaN) = Inr (True, Some (Inf False))"
    by (simp add: sancus_get_frfs_def get_gele_strto_def sancus_get_frf_def get_converted_def gele_def
        sancus_get_fs_def get_strto_def strtod_def strtofp_def scan_fp_def to_lower_def split_sign_def
        is_space_def mem_get_def)
  from get_frfs_in_range [OF this] show ?thesis by (elim conjE) (intro conjI)
qed

end
