(* ===== verification/Time_Text.thy ===== *)
theory Time_Text
  imports Time_Fp Types_Fp
begin

text \<open>
  Durations as text: the format \<open>TIMESPEC_FMT\<close> with the arguments of \<open>TIMESPEC_SPLIT\<close>, both of
  \<^verbatim>\<open>include/sancus/time.h\<close>, and the way back through \<open>sancus_get_fs\<close> of \<^verbatim>\<open>include/sancus/types.h\<close> and
  \<open>sancus_time_fp_to_ts\<close>. The text of a canonical duration is a decimal number with its exact value.
\<close>

subsection \<open>Printing\<close>

text \<open>\<open>%0wld\<close> of a number that is not negative, and \<open>"%s%ld.%09ld"\<close>.\<close>

definition pad0 :: "nat \<Rightarrow> byte list \<Rightarrow> byte list" where
  "pad0 w ds = replicate (w - length ds) 48 @ ds"

definition TIMESPEC_FMT :: "string \<times> int \<times> int \<Rightarrow> byte list" where
  "TIMESPEC_FMT a = (case a of (sg, s, n) \<Rightarrow> map of_char sg @ dec s @ [46] @ pad0 9 (dec n))"

subsection \<open>Digits\<close>

lemma digits_value_append: "digits_value (a @ b) = digits_value a * 10 ^ length b + digits_value b"
proof (induction b rule: rev_induct)
  case (snoc c b)
  then show ?case by (simp add: digits_value_def algebra_simps)
qed (simp add: digits_value_def)

lemma digits_value_zeros: "digits_value (replicate k 48) = 0"
  by (induction k) (simp_all add: digits_value_def)

lemma pad0_digits:
  assumes "n < 10 ^ 9"
  shows "list_all is_digit (pad0 9 (dec_nat n))" "length (pad0 9 (dec_nat n)) = 9"
    "digits_value (pad0 9 (dec_nat n)) = int n"
proof -
  have l: "length (dec_nat n) \<le> 9" using dec_nat_length [of n 8] assms by simp
  have "is_digit 48" by (simp add: is_digit_def)
  then show "list_all is_digit (pad0 9 (dec_nat n))"
    using dec_nat_digits [of n] by (auto simp: pad0_def list_all_iff)
  show "length (pad0 9 (dec_nat n)) = 9" using l by (simp add: pad0_def)
  show "digits_value (pad0 9 (dec_nat n)) = int n"
    by (simp add: pad0_def digits_value_append digits_value_zeros dec_nat_value)
qed

text \<open>The text of a canonical duration: sign, seconds, and nine digits.\<close>

lemma fmt_canonical:
  assumes "canonical ts"
  shows "TIMESPEC_FMT (TIMESPEC_SPLIT ts) =
    (if tv_value ts < 0 then [45] else []) @ dec_nat (nat \<bar>tv_sec ts\<bar>) @ 46 # pad0 9 (dec_nat (nat \<bar>tv_nsec ts\<bar>))"
proof -
  have "tv_nsec ts < 0 \<Longrightarrow> tv_sec ts = 0" using assms by (auto simp: canonical_def split: if_splits)
  moreover have "tv_value ts < 0 \<longleftrightarrow> tv_sec ts < 0 \<or> tv_nsec ts < 0"
    using assms by (auto simp: canonical_def tv_value_def split: if_splits)
  ultimately show ?thesis by (auto simp: TIMESPEC_FMT_def TIMESPEC_SPLIT_def dec_def abs_if)
qed

lemma text_value:
  assumes "canonical ts"
  shows "of_int \<bar>tv_value ts\<bar> / 1000000000 =
    (of_int (digits_value (dec_nat (nat \<bar>tv_sec ts\<bar>) @ pad0 9 (dec_nat (nat \<bar>tv_nsec ts\<bar>)))) / 10 ^ 9 :: rat)"
proof -
  have n: "nat \<bar>tv_nsec ts\<bar> < 10 ^ 9" using assms by (auto simp: canonical_def abs_if split: if_splits)
  have "\<bar>tv_value ts\<bar> = \<bar>tv_sec ts\<bar> * 10 ^ 9 + \<bar>tv_nsec ts\<bar>"
    using assms by (auto simp: canonical_def tv_value_def abs_if split: if_splits)
  then show ?thesis using pad0_digits [OF n] by (simp add: digits_value_append dec_nat_value)
qed

lemma text_read:
  assumes "canonical ts"
  shows "sancus_get_fs (Some (TIMESPEC_FMT (TIMESPEC_SPLIT ts) @ 0 # rest)) =
    Inr (True, fp_of_rat binary64 (of_int (tv_value ts) / 1000000000))"
proof -
  let ?ip = "dec_nat (nat \<bar>tv_sec ts\<bar>)" let ?fr = "pad0 9 (dec_nat (nat \<bar>tv_nsec ts\<bar>))"
  let ?v = "of_int (digits_value (?ip @ ?fr)) / 10 ^ length ?fr :: rat"
  have n: "nat \<bar>tv_nsec ts\<bar> < 10 ^ 9" using assms by (auto simp: canonical_def abs_if split: if_splits)
  have "?v = of_int \<bar>tv_value ts\<bar> / 1000000000" using text_value [OF assms] pad0_digits(2) [OF n] by simp
  then have v: "(if tv_value ts < 0 then - ?v else ?v) = of_int (tv_value ts) / 1000000000" by simp
  have "sancus_get_fs (Some ((if tv_value ts < 0 then [45] else []) @ ?ip @ 46 # ?fr @ 0 # rest)) =
      Inr (True, fp_of_rat binary64 (if tv_value ts < 0 then - ?v else ?v))"
    by (rule get_fs_number [OF dec_nat_digits pad0_digits(1) [OF n] dec_nat_ne refl refl refl])
  then show ?thesis unfolding v fmt_canonical [OF assms] by simp
qed

subsection \<open>Properties\<close>

text \<open>
  C30. A canonical duration printed with \<open>TIMESPEC_FMT\<close> and read with \<open>sancus_get_fs\<close> is the \<open>double\<close> nearest
  to it, negative ones too; when it is not negative and shorter than \<open>2\<^sup>23\<close> seconds,
  \<open>sancus_time_fp_to_ts\<close> makes the same duration of it.
\<close>

theorem time_text_roundtrip:
  assumes "canonical ts"
  shows "\<exists>d. sancus_get_fs (Some (TIMESPEC_FMT (TIMESPEC_SPLIT ts) @ [0])) = Inr (True, d) \<and>
    d = fp_of_rat binary64 (of_int (tv_value ts) / 1000000000) \<and>
    (0 \<le> tv_value ts \<and> tv_sec ts < 2 ^ 23 \<longrightarrow> sancus_time_fp_to_ts d = Inr ts)"
proof (intro exI conjI impI)
  let ?v = "of_int (tv_value ts) / 1000000000 :: rat"
  show "sancus_get_fs (Some (TIMESPEC_FMT (TIMESPEC_SPLIT ts) @ [0])) = Inr (True, fp_of_rat binary64 ?v)"
    by (rule text_read [OF assms])
  assume a: "0 \<le> tv_value ts \<and> tv_sec ts < 2 ^ 23"
  then have s: "0 \<le> tv_sec ts" "0 \<le> tv_nsec ts" "tv_nsec ts < 1000000000" "tv_sec ts < 8388608"
    using assms by (auto simp: canonical_def tv_value_def split: if_splits)
  have v: "?v = of_int (tv_sec ts) + of_int (tv_nsec ts) / 1000000000"
    using s by (simp add: tv_value_def add_divide_distrib)
  have b: "rat_of_int (tv_sec ts) \<le> 8388607" "rat_of_int (tv_nsec ts) \<le> 999999999" "0 \<le> rat_of_int (tv_sec ts)"
      "0 \<le> rat_of_int (tv_nsec ts)" using s by simp_all
  have p: "pow2 23 = 8388608" by (simp add: pow2_def)
  have "\<bar>?v\<bar> < pow2 23" unfolding v p abs_less_iff using b by (intro conjI) linarith+
  then obtain d where d: "fp_of_rat binary64 ?v = Fin d" "d \<le> ?v + pow2 (23 - 54)" "?v \<le> d + pow2 (23 - 54)"
    by (rule double_round) auto
  have i: "fp_of_rat binary64 (of_int (tv_sec ts)) = Fin (of_int (tv_sec ts))"
    using double_of_int [of "tv_sec ts"] s by (simp add: fp_of_int_def)
  have lo: "of_int (tv_sec ts) \<le> d"
    using fp_of_rat_mono [OF fp_proper_formats(1) _ i d(1)] b(4) v by simp
  have "pow2 (23 - 54) \<le> 466 / 1000000000000" by (simp add: pow2_def)
  then show "sancus_time_fp_to_ts (fp_of_rat binary64 ?v) = Inr ts"
    using fp_to_ts_near [OF lo d(2,3) [unfolded v]] s d(1) by simp
qed simp

theorem time_text_roundtrip_witness:
  "\<exists>d. sancus_get_fs (Some (TIMESPEC_FMT (TIMESPEC_SPLIT \<lparr>tv_sec = 12, tv_nsec = 5\<rparr>) @ [0])) = Inr (True, d) \<and>
    sancus_time_fp_to_ts d = Inr \<lparr>tv_sec = 12, tv_nsec = 5\<rparr>"
  using time_text_roundtrip [of "\<lparr>tv_sec = 12, tv_nsec = 5\<rparr>"] by (auto simp: canonical_def tv_value_def)

text \<open>
  What \<open>sancus_time_fp_to_ts\<close> makes of \<open>-1.5\<close> is printed with two signs, and the text is not a number.
\<close>

theorem negative_text_unreadable:
  "TIMESPEC_FMT (TIMESPEC_SPLIT \<lparr>tv_sec = - 1, tv_nsec = - 499999999\<rparr>) =
     [45, 45, 49, 46, 52, 57, 57, 57, 57, 57, 57, 57, 57] \<and>
   sancus_get_fs (Some [45, 45, 49, 46, 52, 57, 57, 57, 57, 57, 57, 57, 57, 0]) = Inr (False, Fin 0)"
proof
  show "TIMESPEC_FMT (TIMESPEC_SPLIT \<lparr>tv_sec = - 1, tv_nsec = - 499999999\<rparr>) =
      [45, 45, 49, 46, 52, 57, 57, 57, 57, 57, 57, 57, 57]"
    by (simp add: TIMESPEC_FMT_def TIMESPEC_SPLIT_def dec_def pad0_def
        dec_nat.simps [of "numeral k" for k] dec_nat.simps [of "Suc 0"])
  show "sancus_get_fs (Some [45, 45, 49, 46, 52, 57, 57, 57, 57, 57, 57, 57, 57, 0]) = Inr (False, Fin 0)"
    by code_simp
qed

end
