(* ===== verification/DList.thy ===== *)
theory DList
  imports Prelude
begin

text \<open>
  The intrusive circular list of \<^verbatim>\<open>include/sancus/list.h\<close>. Nodes live at addresses; a heap maps
  an address to its \<open>struct sancus_list\<close>. A list is a head node and the nodes linked behind it;
  \<open>clist h H xs\<close> says that the nodes \<open>xs\<close> form the list with head \<open>H\<close>, forwards through \<open>next\<close>
  and backwards through \<open>prev\<close>. The iteration macros are loops that end only when the head comes
  round again, so they are partial functions whose result \<open>None\<close> means that they do not end.
\<close>

subsection \<open>Nodes and heap\<close>

type_synonym addr = nat

abbreviation (input) NULL :: addr where "NULL \<equiv> 0"

record sancus_list =
  prev_ptr :: addr
  next_ptr :: addr

type_synonym heap = "addr \<Rightarrow> sancus_list"

text \<open>\<open>DECL_SANCUS_LIST\<close>: the node at the address \<open>N\<close> when it is declared.\<close>

definition DECL_SANCUS_LIST :: "addr \<Rightarrow> sancus_list" where
  "DECL_SANCUS_LIST N = \<lparr>prev_ptr = N, next_ptr = N\<rparr>"

definition sancus_list_init :: "addr \<Rightarrow> heap \<Rightarrow> heap" where
  "sancus_list_init self h = h(self := \<lparr>prev_ptr = self, next_ptr = self\<rparr>)"

definition sancus_list__inject :: "addr \<Rightarrow> addr \<Rightarrow> addr \<Rightarrow> heap \<Rightarrow> heap" where
  "sancus_list__inject self prv nxt h =
     (let h1 = h(self := \<lparr>prev_ptr = prv, next_ptr = nxt\<rparr>);
          h2 = h1(prv := (h1 prv)\<lparr>next_ptr := self\<rparr>)
      in h2(nxt := (h2 nxt)\<lparr>prev_ptr := self\<rparr>))"

definition sancus_list_insert_before :: "addr \<Rightarrow> addr \<Rightarrow> heap \<Rightarrow> heap" where
  "sancus_list_insert_before I N h = sancus_list__inject I (prev_ptr (h N)) N h"

definition sancus_list_insert :: "addr \<Rightarrow> addr \<Rightarrow> heap \<Rightarrow> heap" where
  "sancus_list_insert H I h = sancus_list__inject I H (next_ptr (h H)) h"

definition sancus_list_append :: "addr \<Rightarrow> addr \<Rightarrow> heap \<Rightarrow> heap" where
  "sancus_list_append H I h = sancus_list__inject I (prev_ptr (h H)) H h"

definition sancus_list__del :: "addr \<Rightarrow> addr \<Rightarrow> heap \<Rightarrow> heap" where
  "sancus_list__del prv nxt h =
     (let h1 = h(nxt := (h nxt)\<lparr>prev_ptr := prv\<rparr>)
      in h1(prv := (h1 prv)\<lparr>next_ptr := nxt\<rparr>))"

definition sancus_list_del :: "addr \<Rightarrow> heap \<Rightarrow> heap" where
  "sancus_list_del S h = sancus_list__del (prev_ptr (h S)) (next_ptr (h S)) h"

definition sancus_list_swap :: "addr \<Rightarrow> addr \<Rightarrow> heap \<Rightarrow> heap" where
  "sancus_list_swap a b h =
     (let aux = \<lparr>prev_ptr = prev_ptr (h a), next_ptr = next_ptr (h a)\<rparr>;
          h1 = h(a := \<lparr>prev_ptr = prev_ptr (h b), next_ptr = next_ptr (h b)\<rparr>)
      in h1(b := \<lparr>prev_ptr = prev_ptr aux, next_ptr = next_ptr aux\<rparr>))"

subsection \<open>Iteration\<close>

text \<open>
  The four iteration macros. The plain ones run a body that leaves the links alone; the ones with
  a look-ahead pointer (\<open>foreach2\<close>, \<open>foreach_back2\<close>) allow a body that changes the heap.
\<close>

partial_function (option) foreach_from ::
  "(addr \<Rightarrow> 's \<Rightarrow> 's) \<Rightarrow> heap \<Rightarrow> addr \<Rightarrow> addr \<Rightarrow> 's \<Rightarrow> 's option" where
  "foreach_from body h H I s =
     (if I = H then Some s else foreach_from body h H (next_ptr (h I)) (body I s))"

definition sancus_list_foreach :: "(addr \<Rightarrow> 's \<Rightarrow> 's) \<Rightarrow> heap \<Rightarrow> addr \<Rightarrow> 's \<Rightarrow> 's option" where
  "sancus_list_foreach body h H s = foreach_from body h H (next_ptr (h H)) s"

partial_function (option) foreach_back_from ::
  "(addr \<Rightarrow> 's \<Rightarrow> 's) \<Rightarrow> heap \<Rightarrow> addr \<Rightarrow> addr \<Rightarrow> 's \<Rightarrow> 's option" where
  "foreach_back_from body h H I s =
     (if I = H then Some s else foreach_back_from body h H (prev_ptr (h I)) (body I s))"

definition sancus_list_foreach_back :: "(addr \<Rightarrow> 's \<Rightarrow> 's) \<Rightarrow> heap \<Rightarrow> addr \<Rightarrow> 's \<Rightarrow> 's option" where
  "sancus_list_foreach_back body h H s = foreach_back_from body h H (prev_ptr (h H)) s"

partial_function (option) foreach2_from ::
  "(addr \<Rightarrow> heap \<Rightarrow> heap) \<Rightarrow> addr \<Rightarrow> addr \<Rightarrow> addr \<Rightarrow> heap \<Rightarrow> heap option" where
  "foreach2_from body H I N h =
     (if I = H then Some h
      else let h' = body I h in foreach2_from body H N (next_ptr (h' N)) h')"

definition sancus_list_foreach2 :: "(addr \<Rightarrow> heap \<Rightarrow> heap) \<Rightarrow> addr \<Rightarrow> heap \<Rightarrow> heap option" where
  "sancus_list_foreach2 body H h =
     foreach2_from body H (next_ptr (h H)) (next_ptr (h (next_ptr (h H)))) h"

partial_function (option) foreach_back2_from ::
  "(addr \<Rightarrow> heap \<Rightarrow> heap) \<Rightarrow> addr \<Rightarrow> addr \<Rightarrow> addr \<Rightarrow> heap \<Rightarrow> heap option" where
  "foreach_back2_from body H I P h =
     (if I = H then Some h
      else let h' = body I h in foreach_back2_from body H P (prev_ptr (h' P)) h')"

definition sancus_list_foreach_back2 :: "(addr \<Rightarrow> heap \<Rightarrow> heap) \<Rightarrow> addr \<Rightarrow> heap \<Rightarrow> heap option" where
  "sancus_list_foreach_back2 body H h =
     foreach_back2_from body H (prev_ptr (h H)) (prev_ptr (h (prev_ptr (h H)))) h"

text \<open>\<open>sancus_list_get\<close>: the two loops with their early return, then the dispatch on the sign.\<close>

partial_function (option) get_forward :: "heap \<Rightarrow> addr \<Rightarrow> addr \<Rightarrow> int \<Rightarrow> addr option" where
  "get_forward h H item n =
     (if item = H then Some NULL
      else if n = 0 then Some item
      else get_forward h H (next_ptr (h item)) (n - 1))"

partial_function (option) get_backward :: "heap \<Rightarrow> addr \<Rightarrow> addr \<Rightarrow> int \<Rightarrow> addr option" where
  "get_backward h H item n =
     (if item = H then Some NULL
      else if n + 1 = 0 then Some item
      else get_backward h H (prev_ptr (h item)) (n + 1))"

definition sancus_list_get :: "heap \<Rightarrow> addr \<Rightarrow> int \<Rightarrow> addr option" where
  "sancus_list_get h H n =
     (if n < 0 then get_backward h H (prev_ptr (h H)) n
      else get_forward h H (next_ptr (h H)) n)"

definition sancus_list_size :: "heap \<Rightarrow> addr \<Rightarrow> nat option" where
  "sancus_list_size h H = sancus_list_foreach (\<lambda>_ i. i + 1) h H 0"

definition sancus_list_is_empty :: "heap \<Rightarrow> addr \<Rightarrow> bool" where
  "sancus_list_is_empty h H = (next_ptr (h H) = H)"

definition sancus_list_first :: "heap \<Rightarrow> addr \<Rightarrow> addr" where
  "sancus_list_first h H = (if sancus_list_is_empty h H then NULL else next_ptr (h H))"

definition sancus_list_last :: "heap \<Rightarrow> addr \<Rightarrow> addr" where
  "sancus_list_last h H = (if sancus_list_is_empty h H then NULL else prev_ptr (h H))"

definition sancus_list_next :: "heap \<Rightarrow> addr \<Rightarrow> addr \<Rightarrow> addr" where
  "sancus_list_next h H E =
     (if H = NULL \<or> E = NULL \<or> next_ptr (h E) = H then NULL else next_ptr (h E))"

subsection \<open>Representation\<close>

fun path :: "(addr \<Rightarrow> addr) \<Rightarrow> addr list \<Rightarrow> bool" where
  "path f (a # b # r) = (f a = b \<and> path f (b # r))"
| "path f _ = True"

definition clist :: "heap \<Rightarrow> addr \<Rightarrow> addr list \<Rightarrow> bool" where
  "clist h H xs \<longleftrightarrow> distinct (H # xs) \<and>
     path (\<lambda>a. next_ptr (h a)) (H # xs @ [H]) \<and> path (\<lambda>a. prev_ptr (h a)) (H # rev xs @ [H])"

lemma path_append: "path f (as @ b # cs) \<longleftrightarrow> path f (as @ [b]) \<and> path f (b # cs)"
proof (induction as)
  case (Cons a as)
  then show ?case by (cases as) auto
qed simp

lemma path_upd: "u \<notin> set (butlast l) \<Longrightarrow> path (f(u := v)) l = path f l"
  by (induction f l rule: path.induct) auto

text \<open>Splicing a node into a path and out of it, by one or two updates of the link function.\<close>

lemma path_splice_in:
  assumes "path f (as @ p # q # bs)" and "p \<notin> set as" and "p \<notin> set (butlast (q # bs))"
    and "x \<notin> set (as @ p # q # bs)"
  shows "path (f(x := q, p := x)) (as @ p # x # q # bs)"
proof -
  let ?f = "f(x := q, p := x)"
  have old: "path f (as @ [p])" "path f (q # bs)"
    using assms(1) path_append [of f as p "q # bs"] by simp_all
  have "path ?f (as @ [p])"
    using old(1) assms(2,4) by (simp add: path_upd butlast_append)
  moreover have "x \<notin> set (butlast (q # bs))"
    using assms(4) in_set_butlastD [of x "q # bs"] by auto
  then have "path ?f (q # bs)"
    using old(2) assms(3) by (simp add: path_upd del: butlast.simps)
  moreover have "?f p = x" "?f x = q" using assms(4) by auto
  ultimately show ?thesis using path_append [of ?f as p "x # q # bs"] by simp
qed

lemma path_splice_out:
  assumes "path f (as @ p # x # q # bs)" and "p \<notin> set as" and "p \<notin> set (butlast (q # bs))"
  shows "path (f(p := q)) (as @ p # q # bs)"
proof -
  have old: "path f (as @ [p])" "path f (q # bs)"
    using assms(1) path_append [of f as p "x # q # bs"] by simp_all
  have "path (f(p := q)) (as @ [p])" using old(1) assms(2) by (simp add: path_upd)
  moreover have "path (f(p := q)) (q # bs)" using old(2) assms(3) by (simp add: path_upd del: butlast.simps)
  ultimately show ?thesis using path_append [of "f(p := q)" as p "q # bs"] by simp
qed

text \<open>
  The cycle \<open>H # xs @ [H]\<close> read in both directions; a node is put between two neighbours or
  taken out from between them.
\<close>

definition cycle :: "heap \<Rightarrow> addr list \<Rightarrow> bool" where
  "cycle h c \<longleftrightarrow> distinct (butlast c) \<and> distinct (tl c) \<and>
     path (\<lambda>a. next_ptr (h a)) c \<and> path (\<lambda>a. prev_ptr (h a)) (rev c)"

lemma clist_cycle: "clist h H xs \<longleftrightarrow> cycle h (H # xs @ [H])"
  by (auto simp: clist_def cycle_def butlast_append)

lemma inject_links:
  "(\<lambda>a. next_ptr (sancus_list__inject x p q h a)) = (\<lambda>a. next_ptr (h a))(x := q, p := x)"
  "(\<lambda>a. prev_ptr (sancus_list__inject x p q h a)) = (\<lambda>a. prev_ptr (h a))(x := p, q := x)"
  by (auto simp: sancus_list__inject_def Let_def)

lemma del_links:
  "(\<lambda>a. next_ptr (sancus_list__del p q h a)) = (\<lambda>a. next_ptr (h a))(p := q)"
  "(\<lambda>a. prev_ptr (sancus_list__del p q h a)) = (\<lambda>a. prev_ptr (h a))(q := p)"
  by (auto simp: sancus_list__del_def Let_def)

lemma cycle_split_fresh:
  assumes "distinct (butlast (as @ p # q # bs))" and "distinct (tl (as @ p # q # bs))"
  shows "p \<notin> set as" "p \<notin> set (butlast (q # bs))" "q \<notin> set bs" "q \<notin> set (butlast (p # rev as))"
proof -
  have b: "butlast (as @ p # q # bs) = as @ p # butlast (q # bs)"
    by (simp add: butlast_append)
  show "p \<notin> set as" "p \<notin> set (butlast (q # bs))"
    using assms(1) unfolding b by auto
  show "q \<notin> set bs" using assms(2) by (cases as) auto
  show "q \<notin> set (butlast (p # rev as))"
    using assms(2) by (cases as) (auto simp: butlast_append dest: in_set_butlastD)
qed

lemma cycle_inject:
  assumes "cycle h (as @ p # q # bs)" and "x \<notin> set (as @ p # q # bs)"
  shows "cycle (sancus_list__inject x p q h) (as @ p # x # q # bs)"
proof -
  note d = cycle_split_fresh [of as p q bs]
  have dist: "distinct (butlast (as @ p # q # bs))" "distinct (tl (as @ p # q # bs))"
    and fwd: "path (\<lambda>a. next_ptr (h a)) (as @ p # q # bs)"
    and bwd: "path (\<lambda>a. prev_ptr (h a)) (rev bs @ q # p # rev as)"
    using assms(1) by (simp_all add: cycle_def)
  have "path ((\<lambda>a. next_ptr (h a))(x := q, p := x)) (as @ p # x # q # bs)"
    using path_splice_in [OF fwd] d [OF dist] assms(2) by blast
  moreover have "path ((\<lambda>a. prev_ptr (h a))(x := p, q := x)) (rev bs @ q # x # p # rev as)"
    using path_splice_in [OF bwd] d [OF dist] assms(2) by simp
  moreover have "distinct (butlast (as @ p # x # q # bs))" "distinct (tl (as @ p # x # q # bs))"
    using dist assms(2) by (auto simp: butlast_append tl_append split: list.splits dest: in_set_butlastD)
  ultimately show ?thesis by (simp add: cycle_def inject_links)
qed

lemma cycle_del:
  assumes "cycle h (as @ p # x # q # bs)"
  shows "cycle (sancus_list__del p q h) (as @ p # q # bs)"
proof -
  have dist: "distinct (butlast (as @ p # x # q # bs))" "distinct (tl (as @ p # x # q # bs))"
    and fwd: "path (\<lambda>a. next_ptr (h a)) (as @ p # x # q # bs)"
    and bwd: "path (\<lambda>a. prev_ptr (h a)) (rev bs @ q # x # p # rev as)"
    using assms by (simp_all add: cycle_def)
  have dist': "distinct (butlast (as @ p # q # bs))" "distinct (tl (as @ p # q # bs))"
    using dist by (auto simp: butlast_append tl_append split: list.splits)
  note d = cycle_split_fresh [OF dist']
  have "path ((\<lambda>a. next_ptr (h a))(p := q)) (as @ p # q # bs)"
    using path_splice_out [OF fwd] d by blast
  moreover have "path ((\<lambda>a. prev_ptr (h a))(q := p)) (rev bs @ q # p # rev as)"
    using path_splice_out [OF bwd] d by simp
  ultimately show ?thesis using dist' by (simp add: cycle_def del_links)
qed

text \<open>Neighbours on the cycle.\<close>

lemma cycle_next: "cycle h (as @ p # q # bs) \<Longrightarrow> next_ptr (h p) = q"
  using path_append [of "\<lambda>a. next_ptr (h a)" as p "q # bs"] by (simp add: cycle_def)

lemma cycle_prev: "cycle h (as @ p # q # bs) \<Longrightarrow> prev_ptr (h q) = p"
  using path_append [of "\<lambda>a. prev_ptr (h a)" "rev bs" q "p # rev as"] by (simp add: cycle_def)

lemma clist_ends:
  assumes "clist h H xs"
  shows "next_ptr (h H) = hd (xs @ [H])" and "prev_ptr (h H) = last (H # xs)"
proof -
  show "next_ptr (h H) = hd (xs @ [H])"
    using assms by (cases xs) (simp_all add: clist_def)
  show "prev_ptr (h H) = last (H # xs)"
    using assms by (cases xs rule: rev_cases) (simp_all add: clist_def)
qed

lemma snoc_view: "H # as = cs @ [p] \<Longrightarrow> H # as @ zs = cs @ p # zs"
  by (metis append.assoc append_Cons append_Nil)

lemma list_declared: "h(N := DECL_SANCUS_LIST N) = sancus_list_init N h"
  by (simp add: DECL_SANCUS_LIST_def sancus_list_init_def)

lemma clist_init: "clist (sancus_list_init H h) H []"
  by (simp add: clist_def sancus_list_init_def)

lemma clist_insert:
  assumes "clist h H xs" and "x \<notin> set (H # xs)"
  shows "clist (sancus_list_insert H x h) H (x # xs)"
proof -
  obtain q bs where e: "xs @ [H] = q # bs" by (cases "xs @ [H]") auto
  then have "q = next_ptr (h H)" using clist_ends(1) [OF assms(1)] by simp
  moreover have "cycle h ([] @ H # q # bs)" "x \<notin> set ([] @ H # q # bs)"
    using assms e [symmetric] by (auto simp: clist_cycle)
  ultimately show ?thesis
    using cycle_inject [of h "[]" H q bs x] e by (simp add: clist_cycle sancus_list_insert_def)
qed

lemma clist_insert_before:
  assumes "clist h H (as @ y # bs)" and "x \<notin> set (H # as @ y # bs)"
  shows "clist (sancus_list_insert_before x y h) H (as @ x # y # bs)"
proof -
  obtain cs p where e: "H # as = cs @ [p]" by (metis append_butlast_last_id list.discI)
  have c: "cycle h (cs @ p # y # bs @ [H])"
    using assms(1) snoc_view [OF e, of "y # bs @ [H]"] by (simp add: clist_cycle)
  have "set (cs @ p # y # bs @ [H]) = set (H # as @ y # bs)"
    using arg_cong [OF e, of set] by auto
  then have "cycle (sancus_list__inject x p y h) (cs @ p # x # y # bs @ [H])"
    using cycle_inject [OF c, of x] assms(2) by metis
  moreover have "cs @ p # x # y # bs @ [H] = H # (as @ x # y # bs) @ [H]"
    using snoc_view [OF e, of "x # y # bs @ [H]"] by simp
  ultimately show ?thesis
    using cycle_prev [OF c] by (simp add: clist_cycle sancus_list_insert_before_def)
qed

lemma clist_append:
  assumes "clist h H xs" and "x \<notin> set (H # xs)"
  shows "clist (sancus_list_append H x h) H (xs @ [x])"
proof -
  obtain cs p where e: "H # xs = cs @ [p]" by (metis append_butlast_last_id list.discI)
  have c: "cycle h (cs @ p # H # [])"
    using assms(1) snoc_view [OF e, of "[H]"] by (simp add: clist_cycle)
  have "x \<notin> set (cs @ p # H # [])" using assms(2) arg_cong [OF e, of set] by auto
  with c have "cycle (sancus_list__inject x p H h) (cs @ p # x # H # [])"
    by (rule cycle_inject)
  moreover have "cs @ p # x # [H] = H # (xs @ [x]) @ [H]"
    using snoc_view [OF e, of "[x, H]"] by simp
  ultimately show ?thesis
    using cycle_prev [OF c] by (simp add: clist_cycle sancus_list_append_def)
qed

lemma clist_del:
  assumes "clist h H (as @ x # bs)"
  shows "clist (sancus_list_del x h) H (as @ bs)"
proof -
  obtain cs p where e: "H # as = cs @ [p]" by (metis append_butlast_last_id list.discI)
  obtain q ds where f: "bs @ [H] = q # ds" by (cases "bs @ [H]") auto
  have c: "cycle h (cs @ p # x # q # ds)"
    using assms snoc_view [OF e, of "x # q # ds"] f by (simp add: clist_cycle)
  have "prev_ptr (h x) = p" using cycle_prev [OF c] .
  moreover have "next_ptr (h x) = q" using cycle_next [of h "cs @ [p]" x q ds] c by simp
  moreover have "cs @ p # q # ds = H # (as @ bs) @ [H]"
    using snoc_view [OF e, of "bs @ [H]"] f by simp
  ultimately show ?thesis
    using cycle_del [OF c] by (simp add: clist_cycle sancus_list_del_def)
qed

text \<open>What the operations write: the links of a member lead to the head and to members.\<close>

lemma clist_next_nth:
  assumes "clist h H xs" and "i < length xs"
  shows "next_ptr (h (xs ! i)) = (if Suc i < length xs then xs ! Suc i else H)"
proof -
  have "H # xs @ [H] = (H # take i xs) @ xs ! i # drop (Suc i) xs @ [H]"
    using id_take_nth_drop [OF assms(2)] by simp
  then have "cycle h ((H # take i xs) @ xs ! i # drop (Suc i) xs @ [H])"
    using assms(1) by (metis clist_cycle)
  then have "next_ptr (h (xs ! i)) = hd (drop (Suc i) xs @ [H])"
    using cycle_next [of h "H # take i xs" "xs ! i"] by (cases "drop (Suc i) xs @ [H]") auto
  then show ?thesis by (simp add: hd_append hd_drop_conv_nth)
qed

lemma clist_links:
  assumes "clist h H xs" and "y \<in> set (H # xs)"
  shows "next_ptr (h y) \<in> set (H # xs)" and "prev_ptr (h y) \<in> set (H # xs)"
proof -
  have "path f (x # zs @ [H]) \<Longrightarrow> y \<in> set (x # zs) \<Longrightarrow> f y \<in> set (H # zs)" for f x zs
    by (induction zs arbitrary: x) auto
  from this [of "\<lambda>a. next_ptr (h a)" H xs] this [of "\<lambda>a. prev_ptr (h a)" H "rev xs"]
  show "next_ptr (h y) \<in> set (H # xs)" "prev_ptr (h y) \<in> set (H # xs)"
    using assms by (auto simp: clist_def)
qed

lemma inject_other: "a \<noteq> x \<Longrightarrow> a \<noteq> p \<Longrightarrow> a \<noteq> q \<Longrightarrow> sancus_list__inject x p q h a = h a"
  by (simp add: sancus_list__inject_def Let_def)

lemma del_other: "a \<noteq> p \<Longrightarrow> a \<noteq> q \<Longrightarrow> sancus_list__del p q h a = h a"
  by (simp add: sancus_list__del_def Let_def)

subsection \<open>Iteration over a well-formed list\<close>

lemma path_step: "path f (x # xs @ [H]) \<longleftrightarrow> f x = hd (xs @ [H]) \<and> path f (xs @ [H])"
  by (cases xs) auto

lemma foreach_from_path:
  "path (\<lambda>a. next_ptr (h a)) (xs @ [H]) \<Longrightarrow> H \<notin> set xs \<Longrightarrow>
   foreach_from body h H (hd (xs @ [H])) s = Some (fold body xs s)"
proof (induction xs arbitrary: s)
  case (Cons x xs)
  have "next_ptr (h x) = hd (xs @ [H])" "path (\<lambda>a. next_ptr (h a)) (xs @ [H])"
    using Cons.prems(1) by (simp_all add: path_step)
  with Cons show ?case by (simp add: foreach_from.simps [of body h H x s])
qed (simp add: foreach_from.simps)

lemma foreach_back_from_path:
  "path (\<lambda>a. prev_ptr (h a)) (xs @ [H]) \<Longrightarrow> H \<notin> set xs \<Longrightarrow>
   foreach_back_from body h H (hd (xs @ [H])) s = Some (fold body xs s)"
proof (induction xs arbitrary: s)
  case (Cons x xs)
  have "prev_ptr (h x) = hd (xs @ [H])" "path (\<lambda>a. prev_ptr (h a)) (xs @ [H])"
    using Cons.prems(1) by (simp_all add: path_step)
  with Cons show ?case by (simp add: foreach_back_from.simps [of body h H x s])
qed (simp add: foreach_back_from.simps)

lemma clist_paths:
  assumes "clist h H xs"
  shows "path (\<lambda>a. next_ptr (h a)) (xs @ [H])" and "path (\<lambda>a. prev_ptr (h a)) (rev xs @ [H])" and "H \<notin> set xs"
    and "next_ptr (h H) = hd (xs @ [H])" and "prev_ptr (h H) = hd (rev xs @ [H])"
proof -
  show "path (\<lambda>a. next_ptr (h a)) (xs @ [H])" "next_ptr (h H) = hd (xs @ [H])"
    using assms by (simp_all add: clist_def path_step)
  show "path (\<lambda>a. prev_ptr (h a)) (rev xs @ [H])" "prev_ptr (h H) = hd (rev xs @ [H])"
    using assms by (simp_all add: clist_def path_step)
  show "H \<notin> set xs" using assms by (simp add: clist_def)
qed

lemma foreach_clist: "clist h H xs \<Longrightarrow> sancus_list_foreach body h H s = Some (fold body xs s)"
  by (simp add: sancus_list_foreach_def clist_paths foreach_from_path)

lemma foreach_back_clist:
  "clist h H xs \<Longrightarrow> sancus_list_foreach_back body h H s = Some (fold body (rev xs) s)"
  using foreach_back_from_path [of h "rev xs" H body s]
  by (simp add: sancus_list_foreach_back_def clist_paths)

lemma get_forward_path:
  "path (\<lambda>a. next_ptr (h a)) (xs @ [H]) \<Longrightarrow> H \<notin> set xs \<Longrightarrow> 0 \<le> n \<Longrightarrow>
   get_forward h H (hd (xs @ [H])) n = Some (if n < int (length xs) then xs ! nat n else NULL)"
proof (induction xs arbitrary: n)
  case (Cons x xs)
  have p: "next_ptr (h x) = hd (xs @ [H])" "path (\<lambda>a. next_ptr (h a)) (xs @ [H])"
    using Cons.prems(1) by (simp_all add: path_step)
  show ?case
  proof (cases "n = 0")
    case False
    then have "get_forward h H (hd (xs @ [H])) (n - 1) =
        Some (if n - 1 < int (length xs) then xs ! nat (n - 1) else NULL)"
      using Cons.IH p(2) Cons.prems(2,3) by simp
    with False p Cons.prems(2,3) show ?thesis
      by (simp add: get_forward.simps [of h H x n] nth_Cons' nat_diff_distrib)
  qed (use Cons.prems in \<open>simp add: get_forward.simps [of h H x 0]\<close>)
qed (simp add: get_forward.simps)

lemma get_backward_path:
  "path (\<lambda>a. prev_ptr (h a)) (xs @ [H]) \<Longrightarrow> H \<notin> set xs \<Longrightarrow> n < 0 \<Longrightarrow>
   get_backward h H (hd (xs @ [H])) n =
     Some (if - n \<le> int (length xs) then xs ! nat (- n - 1) else NULL)"
proof (induction xs arbitrary: n)
  case (Cons x xs)
  have p: "prev_ptr (h x) = hd (xs @ [H])" "path (\<lambda>a. prev_ptr (h a)) (xs @ [H])"
    using Cons.prems(1) by (simp_all add: path_step)
  show ?case
  proof (cases "n + 1 = 0")
    case False
    then have "get_backward h H (hd (xs @ [H])) (n + 1) =
        Some (if - (n + 1) \<le> int (length xs) then xs ! nat (- (n + 1) - 1) else NULL)"
      using Cons.IH p(2) Cons.prems(2,3) by simp
    moreover have "nat (- n - 1) = Suc (nat (- (n + 1) - 1))"
      using False Cons.prems(3) by simp
    ultimately show ?thesis
      using False p Cons.prems(2,3)
      by (simp add: get_backward.simps [of h H x n])
  qed (use Cons.prems in \<open>simp add: get_backward.simps [of h H x n]\<close>)
qed (simp add: get_backward.simps)

lemma get_clist:
  "clist h H xs \<Longrightarrow> sancus_list_get h H n =
     Some (if 0 \<le> n \<and> n < int (length xs) then xs ! nat n
           else if n < 0 \<and> - n \<le> int (length xs) then xs ! nat (int (length xs) + n)
           else NULL)"
proof (cases "n < 0")
  case True
  assume c: "clist h H xs"
  have "rev xs ! nat (- n - 1) = xs ! nat (int (length xs) + n)" if "- n \<le> int (length xs)"
  proof -
    have "length xs - Suc (nat (- n - 1)) = nat (int (length xs) + n)" using that True by linarith
    then show ?thesis using that True by (subst rev_nth) auto
  qed
  with True show ?thesis
    using get_backward_path [of h "rev xs" H n] clist_paths [OF c] by (simp add: sancus_list_get_def)
next
  case False
  assume c: "clist h H xs"
  with False show ?thesis
    using get_forward_path [of h xs H n] clist_paths [OF c] by (simp add: sancus_list_get_def)
qed

text \<open>Deleting the visited node inside \<open>foreach2\<close> leaves the look-ahead node in place.\<close>

lemma foreach2_del:
  "clist h H xs \<Longrightarrow>
   \<exists>h'. foreach2_from sancus_list_del H (next_ptr (h H)) (next_ptr (h (next_ptr (h H)))) h = Some h' \<and>
     clist h' H []"
proof (induction xs arbitrary: h)
  case Nil
  then have "next_ptr (h H) = H" by (simp add: clist_def)
  with Nil show ?case by (simp add: foreach2_from.simps)
next
  case (Cons x xs)
  let ?h = "sancus_list_del x h"
  have n: "next_ptr (h H) = x" and x: "x \<noteq> H" using Cons.prems by (auto simp: clist_def)
  have "next_ptr (h x) = hd (xs @ [H])" using Cons.prems by (simp add: clist_def path_step)
  moreover have c: "clist ?h H xs" using clist_del [of h H "[]" x xs] Cons.prems by simp
  ultimately have "next_ptr (h x) = next_ptr (?h H)" by (simp add: clist_paths(4))
  with Cons.IH [OF c] n x show ?case
    by (simp add: foreach2_from.simps [of sancus_list_del H x] Let_def)
qed

subsection \<open>The list interface\<close>

text \<open>
  What the users of the list rely on: a representation relation between a heap, a head and a
  sequence of nodes, and operations that act on the sequence.
\<close>

locale intrusive_list =
  fixes rep :: "'h \<Rightarrow> addr \<Rightarrow> addr list \<Rightarrow> bool"
    and mk :: "addr \<Rightarrow> 'h \<Rightarrow> 'h" and push :: "addr \<Rightarrow> addr \<Rightarrow> 'h \<Rightarrow> 'h"
    and snoc :: "addr \<Rightarrow> addr \<Rightarrow> 'h \<Rightarrow> 'h" and del :: "addr \<Rightarrow> 'h \<Rightarrow> 'h"
  assumes rep_mk: "rep (mk H h) H []"
    and rep_push: "rep h H xs \<Longrightarrow> x \<notin> set (H # xs) \<Longrightarrow> rep (push H x h) H (x # xs)"
    and rep_snoc: "rep h H xs \<Longrightarrow> x \<notin> set (H # xs) \<Longrightarrow> rep (snoc H x h) H (xs @ [x])"
    and rep_del: "rep h H (as @ x # bs) \<Longrightarrow> rep (del x h) H (as @ bs)"
begin

lemma snoc_all:
  "rep h H xs \<Longrightarrow> distinct (H # xs @ ys) \<Longrightarrow> rep (fold (snoc H) ys h) H (xs @ ys)"
proof (induction ys arbitrary: h xs)
  case (Cons y ys)
  then have "rep (snoc H y h) H (xs @ [y])" by (intro rep_snoc) auto
  then show ?case using Cons.IH [of "snoc H y h" "xs @ [y]"] Cons.prems(2) by simp
qed simp

lemma push_all:
  "rep h H xs \<Longrightarrow> distinct (H # ys @ xs) \<Longrightarrow> rep (fold (push H) ys h) H (rev ys @ xs)"
proof (induction ys arbitrary: h xs)
  case (Cons y ys)
  then have "rep (push H y h) H (y # xs)" by (intro rep_push) auto
  then show ?case using Cons.IH [of "push H y h" "y # xs"] Cons.prems(2) by simp
qed simp

lemma del_remove1: "rep h H xs \<Longrightarrow> x \<in> set xs \<Longrightarrow> rep (del x h) H (remove1 x xs)"
  by (auto dest!: split_list_first simp: remove1_append rep_del)

lemma build_all: "distinct (H # ys) \<Longrightarrow> rep (fold (snoc H) ys (mk H h)) H ys"
  using snoc_all [OF rep_mk, of H ys] by simp

end

interpretation dl: intrusive_list clist sancus_list_init sancus_list_insert sancus_list_append
    sancus_list_del
  by unfold_locales (fact clist_init clist_insert clist_append clist_del)+

subsection \<open>Properties\<close>

text \<open>The body of the loops below: note the visited node.\<close>

abbreviation visit :: "addr \<Rightarrow> addr list \<Rightarrow> addr list" where
  "visit i acc \<equiv> acc @ [i]"

lemma fold_visit: "fold visit xs acc = acc @ xs"
  by (induction xs arbitrary: acc) auto

lemma fold_count: "fold (\<lambda>_. Suc) xs n = n + length xs"
  by (induction xs arbitrary: n) auto

text \<open>
  C10. The editing operations refine the operations on sequences. A head set up with
  \<open>sancus_list_init\<close> is the empty list. On every well-formed list, the empty one included,
  inserting puts a fresh node at the front and appending puts it at the end; inserting before a
  member puts it there, deleting a member removes exactly it. The result is again a well-formed
  list, and the cells of no other node are written.
\<close>

theorem list_operations_refine:
  shows "clist (sancus_list_init H h) H [] \<and>
     (\<forall>xs x. clist h H xs \<longrightarrow> x \<notin> set (H # xs) \<longrightarrow>
        clist (sancus_list_insert H x h) H (x # xs) \<and>
        clist (sancus_list_append H x h) H (xs @ [x])) \<and>
     (\<forall>as y bs x. clist h H (as @ y # bs) \<longrightarrow> x \<notin> set (H # as @ y # bs) \<longrightarrow>
        clist (sancus_list_insert_before x y h) H (as @ x # y # bs)) \<and>
     (\<forall>as y bs. clist h H (as @ y # bs) \<longrightarrow> clist (sancus_list_del y h) H (as @ bs)) \<and>
     (\<forall>xs x a. clist h H xs \<longrightarrow> a \<notin> set (x # H # xs) \<longrightarrow>
        sancus_list_init H h a = h a \<and> sancus_list_insert H x h a = h a \<and>
        sancus_list_append H x h a = h a \<and>
        (\<forall>y\<in>set xs. sancus_list_insert_before x y h a = h a \<and> sancus_list_del y h a = h a))"
proof (intro conjI allI impI ballI)
  fix xs x a y assume c: "clist h H xs" and a: "a \<notin> set (x # H # xs)"
  then show "sancus_list_init H h a = h a" by (simp add: sancus_list_init_def)
  have "a \<noteq> next_ptr (h z)" "a \<noteq> prev_ptr (h z)" if "z \<in> set (H # xs)" for z
    using a clist_links [OF c that] by auto
  note n = this [of H] this [of y]
  then show "sancus_list_insert H x h a = h a" "sancus_list_append H x h a = h a"
    using a by (simp_all add: sancus_list_insert_def sancus_list_append_def inject_other)
  assume "y \<in> set xs"
  with a n have "a \<noteq> y" "a \<noteq> next_ptr (h y)" "a \<noteq> prev_ptr (h y)" by auto
  with a show "sancus_list_insert_before x y h a = h a" "sancus_list_del y h a = h a"
    by (simp_all add: sancus_list_insert_before_def sancus_list_del_def inject_other del_other)
qed (simp_all add: clist_init clist_insert clist_append clist_insert_before clist_del)

theorem list_operations_refine_witness:
  "clist (sancus_list_del 2 (sancus_list_append 1 2 (sancus_list_init 1 (\<lambda>_. \<lparr>prev_ptr = 0, next_ptr = 0\<rparr>)))) 1 []"
proof -
  let ?e = "sancus_list_init 1 (\<lambda>_. \<lparr>prev_ptr = 0, next_ptr = 0\<rparr>)"
  let ?h = "sancus_list_append 1 2 ?e"
  have "clist ?e 1 []" by (rule list_operations_refine [THEN conjunct1])
  then have "clist ?h 1 ([] @ 2 # [])"
    using list_operations_refine [of 1 ?e, THEN conjunct2, THEN conjunct1, rule_format, of "[]" 2]
    by (simp del: One_nat_def)
  then show ?thesis
    using list_operations_refine [of 1 ?h, THEN conjunct2, THEN conjunct2, THEN conjunct2,
      THEN conjunct1, rule_format, of "[]" 2 "[]"] by simp
qed

text \<open>
  C33. On a well-formed list every traversal ends: \<open>foreach\<close> visits the nodes in order,
  \<open>foreach_back\<close> in reverse order, the size is their number, and \<open>sancus_list_get\<close> returns the
  node at a position counted from the front, from the back for a negative one, and \<open>NULL\<close> past
  either end. The first and the last node are the ends of the sequence, \<open>NULL\<close> when it is empty,
  and \<open>sancus_list_next\<close> goes from every node that is not at \<open>NULL\<close> to the one behind it and from
  the last one to \<open>NULL\<close>.
\<close>

theorem list_traversal:
  assumes "clist h H xs"
  shows "sancus_list_foreach visit h H [] = Some xs \<and>
     sancus_list_foreach_back visit h H [] = Some (rev xs) \<and>
     sancus_list_size h H = Some (length xs) \<and>
     sancus_list_is_empty h H = (xs = []) \<and>
     sancus_list_get h H n =
       Some (if 0 \<le> n \<and> n < int (length xs) then xs ! nat n
             else if n < 0 \<and> - n \<le> int (length xs) then xs ! nat (int (length xs) + n)
             else NULL) \<and>
     sancus_list_first h H = (if xs = [] then NULL else hd xs) \<and>
     sancus_list_last h H = (if xs = [] then NULL else last xs) \<and>
     (NULL \<notin> set (H # xs) \<longrightarrow> (\<forall>i<length xs. sancus_list_next h H (xs ! i) =
        (if Suc i < length xs then xs ! Suc i else NULL)))"
proof -
  have e: "sancus_list_is_empty h H = (xs = [])"
    using clist_paths(3,4) [OF assms] by (cases xs) (auto simp: sancus_list_is_empty_def)
  have "sancus_list_first h H = (if xs = [] then NULL else hd xs)"
      "sancus_list_last h H = (if xs = [] then NULL else last xs)"
    using e clist_ends [OF assms] by (simp_all add: sancus_list_first_def sancus_list_last_def)
  moreover have "NULL \<notin> set (H # xs) \<Longrightarrow> i < length xs \<Longrightarrow>
      sancus_list_next h H (xs ! i) = (if Suc i < length xs then xs ! Suc i else NULL)" for i
    using clist_next_nth [OF assms, of i] clist_paths(3) [OF assms] nth_mem [of i xs]
      nth_mem [of "Suc i" xs]
    by (cases "xs ! i = NULL") (auto simp: sancus_list_next_def)
  ultimately show ?thesis
    using assms e
    by (simp add: foreach_clist foreach_back_clist get_clist fold_visit sancus_list_size_def fold_count)
qed

theorem list_traversal_witness:
  "sancus_list_foreach visit
     (sancus_list_append 1 3 (sancus_list_append 1 2 (sancus_list_init 1 (\<lambda>_. \<lparr>prev_ptr = 0, next_ptr = 0\<rparr>)))) 1 [] =
     Some [2, 3]"
proof -
  have "clist (sancus_list_append 1 3 (sancus_list_append 1 2
      (sancus_list_init 1 (\<lambda>_. \<lparr>prev_ptr = 0, next_ptr = 0\<rparr>)))) 1 [2, 3]"
    using dl.build_all [of 1 "[2, 3]"] by simp
  from list_traversal [OF this] show ?thesis by simp
qed

text \<open>
  A list built by appending distinct nodes to a fresh head is read back in the order of the
  appends, whatever the heap held before.
\<close>

theorem list_build_order:
  assumes "distinct (H # ys)"
  shows "sancus_list_foreach visit (fold (sancus_list_append H) ys (sancus_list_init H h)) H [] =
     Some ys"
  by (simp add: foreach_clist [OF dl.build_all [OF assms]] fold_visit)

theorem list_build_order_witness:
  "sancus_list_foreach visit
     (fold (sancus_list_append 9) [4, 2, 7] (sancus_list_init 9 (\<lambda>_. \<lparr>prev_ptr = 0, next_ptr = 0\<rparr>))) 9 [] =
     Some [4, 2, 7]"
  by (rule list_build_order) simp

text \<open>
  The look-ahead loop is safe for deletion: running \<open>sancus_list_del\<close> on every node from
  \<open>sancus_list_foreach2\<close> ends and leaves the list empty.
\<close>

theorem list_drain:
  assumes "clist h H xs"
  shows "\<exists>h'. sancus_list_foreach2 sancus_list_del H h = Some h' \<and> clist h' H []"
  using foreach2_del [OF assms] by (simp add: sancus_list_foreach2_def)

theorem list_drain_witness:
  "\<exists>h'. sancus_list_foreach2 sancus_list_del 9
      (fold (sancus_list_append 9) [4, 2] (sancus_list_init 9 (\<lambda>_. \<lparr>prev_ptr = 0, next_ptr = 0\<rparr>))) = Some h' \<and>
     clist h' 9 []"
  by (rule list_drain [OF dl.build_all]) simp

text \<open>
  \<open>sancus_list_swap\<close> on two neighbours does not exchange them: it rewrites the links of the two
  nodes but not of the nodes around them, and a later forward traversal misses the second.
\<close>

theorem list_swap_loses_node:
  assumes "clist h H (as @ x # y # bs)"
  shows "sancus_list_foreach visit (sancus_list_swap x y h) H [] = Some (as @ x # bs)"
proof -
  let ?n = "\<lambda>a. next_ptr (h a)" and ?h = "sancus_list_swap x y h"
  have d: "distinct (H # as @ x # y # bs)" and p: "path ?n ((H # as) @ x # y # bs @ [H])"
    using assms by (simp_all add: clist_def)
  have ny: "?n y = hd (bs @ [H])" and pb: "path ?n (bs @ [H])" and nx: "?n x = y"
    using p path_append [of ?n "H # as" x] by (simp_all add: path_step)
  have pa: "path ?n ((H # as) @ [x])" using p path_append [of ?n "H # as" x] by blast
  have sw: "(\<lambda>a. next_ptr (?h a)) = ?n(x := hd (bs @ [H]), y := y)"
    using d nx ny by (auto simp: sancus_list_swap_def Let_def)
  have "path (\<lambda>a. next_ptr (?h a)) ((H # as) @ [x])"
    unfolding sw using pa d by (simp add: path_upd butlast_append)
  moreover have "path (\<lambda>a. next_ptr (?h a)) (bs @ [H])"
    unfolding sw using pb d by (simp add: path_upd)
  moreover have "next_ptr (?h x) = hd (bs @ [H])"
    using fun_cong [OF sw, of x] d by simp
  ultimately have "path (\<lambda>a. next_ptr (?h a)) (H # (as @ x # bs) @ [H])"
    using path_append [of "\<lambda>a. next_ptr (?h a)" "H # as" x "bs @ [H]"] by (simp add: path_step)
  then have "path (\<lambda>a. next_ptr (?h a)) ((as @ x # bs) @ [H])"
      "next_ptr (?h H) = hd ((as @ x # bs) @ [H])" by (simp_all only: path_step)
  then show ?thesis
    using foreach_from_path [of ?h "as @ x # bs" H visit "[]"] d
    by (simp add: sancus_list_foreach_def fold_visit)
qed

theorem list_swap_loses_node_witness:
  "sancus_list_foreach visit (sancus_list_swap 4 2
     (fold (sancus_list_append 9) [4, 2] (sancus_list_init 9 (\<lambda>_. \<lparr>prev_ptr = 0, next_ptr = 0\<rparr>)))) 9 [] =
     Some [4]"
proof -
  have "clist (fold (sancus_list_append 9) [4, 2]
      (sancus_list_init 9 (\<lambda>_. \<lparr>prev_ptr = 0, next_ptr = 0\<rparr>))) 9 ([] @ 4 # 2 # [])"
    using dl.build_all [of 9 "[4, 2]"] by simp
  from list_swap_loses_node [OF this] show ?thesis by simp
qed

end
