(* ===== verification/Buffer.thy ===== *)
theory Buffer
  imports Prelude
begin

text \<open>
  The bounded byte buffer of \<^verbatim>\<open>include/sancus/buffer.h\<close>, \<^verbatim>\<open>include/sancus/buffer_local.h\<close> and
  \<^verbatim>\<open>src/sancus/buffer.c\<close>. The record carries the block its \<open>buf\<close> pointer refers to, so a write
  through the pointer is an update of \<open>b_buf\<close>. A \<open>struct sancus_buffer *\<close> that the code compares
  with \<open>NULL\<close> is an option; a string argument is the block it points into, \<open>None\<close> for \<open>NULL\<close>.
  Every operation returns its C result and the buffer afterwards, or a fault.
\<close>

subsection \<open>Data and accessors\<close>

record sancus_buffer =
  b_buf :: "byte list"
  b_base :: u64
  b_len :: u64
  b_size :: u64

definition sancus_buffer_init ::
  "sancus_buffer option \<Rightarrow> byte list option \<Rightarrow> u32 \<Rightarrow> int \<times> sancus_buffer option" where
  "sancus_buffer_init b mem sz =
     (case (b, mem) of
        (Some _, Some m) \<Rightarrow>
          if sz = 0 then (- EINVAL, b)
          else (0, Some \<lparr>b_buf = m, b_base = 0, b_len = 0, b_size = ucast sz\<rparr>)
      | _ \<Rightarrow> (- EINVAL, b))"

definition sancus_buffer_base :: "sancus_buffer option \<Rightarrow> u64" where
  "sancus_buffer_base B = (case B of Some b \<Rightarrow> b_base b | None \<Rightarrow> 0)"

definition sancus_buffer_len :: "sancus_buffer option \<Rightarrow> u64" where
  "sancus_buffer_len B = (case B of Some b \<Rightarrow> b_len b | None \<Rightarrow> 0)"

definition sancus_buffer_size :: "sancus_buffer option \<Rightarrow> u64" where
  "sancus_buffer_size B = (case B of Some b \<Rightarrow> b_size b | None \<Rightarrow> 0)"

text \<open>The two pointers into the block, as offsets; \<open>None\<close> is \<open>NULL\<close>.\<close>

definition sancus_buffer_ptr :: "sancus_buffer option \<Rightarrow> nat option" where
  "sancus_buffer_ptr B = (case B of Some b \<Rightarrow> Some (unat (b_base b)) | None \<Rightarrow> None)"

definition sancus_buffer_tail_size :: "sancus_buffer option \<Rightarrow> u64" where
  "sancus_buffer_tail_size B =
     (case B of Some b \<Rightarrow> b_size b - b_base b - b_len b | None \<Rightarrow> 0)"

definition sancus_buffer_tail_ptr :: "sancus_buffer option \<Rightarrow> nat option" where
  "sancus_buffer_tail_ptr B =
     (case B of Some b \<Rightarrow> Some (unat (b_base b) + unat (b_len b)) | None \<Rightarrow> None)"

definition sancus_buffer_is_empty :: "sancus_buffer option \<Rightarrow> bool" where
  "sancus_buffer_is_empty B = (sancus_buffer_len B = 0)"

definition sancus_buffer_is_off :: "sancus_buffer option \<Rightarrow> bool" where
  "sancus_buffer_is_off B = (sancus_buffer_base B \<noteq> 0)"

text \<open>\<open>DECL_SANCUS_LBUFFER\<close>: a buffer over a local array of \<open>S\<close> bytes.\<close>

definition DECL_SANCUS_LBUFFER :: "byte list \<Rightarrow> u64 \<Rightarrow> sancus_buffer" where
  "DECL_SANCUS_LBUFFER mem S = \<lparr>b_buf = mem, b_base = 0, b_len = 0, b_size = S\<rparr>"

text \<open>The length argument of the string functions: a negative one asks for \<open>strlen\<close>.\<close>

definition str_arg_len :: "byte list \<Rightarrow> int \<Rightarrow> int exec" where
  "str_arg_len s l = (if l < 0 then ebind (strlen s) (\<lambda>n. Inr (int n)) else Inr l)"

subsection \<open>Stripping\<close>

text \<open>The inner loop of \<open>stripchar\<close>: look for \<open>c\<close> among the first \<open>n\<close> bytes of \<open>chars\<close>.\<close>

fun strip_match :: "byte \<Rightarrow> byte list \<Rightarrow> nat \<Rightarrow> bool exec" where
  "strip_match c qs 0 = Inr False"
| "strip_match c [] (Suc n) = Inl Bad_Access"
| "strip_match c (q # qs) (Suc n) = (if c = q then Inr True else strip_match c qs n)"

text \<open>The outer loop, over the stored bytes from the last to the first.\<close>

fun strip_loop :: "bool \<Rightarrow> byte list \<Rightarrow> nat \<Rightarrow> byte list \<Rightarrow> nat \<Rightarrow> nat exec" where
  "strip_loop many chars l [] count = Inr count"
| "strip_loop many chars l (p # ps) count =
     ebind (strip_match p chars l) (\<lambda>m.
       if \<not> m then Inr count
       else if \<not> many then Inr (count + 1)
       else strip_loop many chars l ps (count + 1))"

definition sancus_buffer__stripchar ::
  "sancus_buffer option \<Rightarrow> bool \<Rightarrow> byte list option \<Rightarrow> int \<Rightarrow> (int \<times> sancus_buffer option) exec" where
  "sancus_buffer__stripchar B many chars l =
     (case B of
        None \<Rightarrow> Inr (- EINVAL, B)
      | Some b \<Rightarrow>
          (case chars of
             None \<Rightarrow> if l > 0 then Inr (- EINVAL, B) else Inr (0, B)
           | Some cs \<Rightarrow>
               ebind (str_arg_len cs l) (\<lambda>l.
               ebind (if l > 0
                      then ebind (mem_get (unat (b_base b)) (unat (b_len b)) (b_buf b)) (\<lambda>w.
                             strip_loop many cs (nat l) (rev w) 0)
                      else Inr 0) (\<lambda>count.
               Inr (int count, Some (b\<lparr>b_len := b_len b - word_of_nat count\<rparr>))))))"

definition sancus_buffer_striponce ::
  "sancus_buffer option \<Rightarrow> byte list option \<Rightarrow> (int \<times> sancus_buffer option) exec" where
  "sancus_buffer_striponce B S = sancus_buffer__stripchar B False S (-1)"

definition sancus_buffer_stripany ::
  "sancus_buffer option \<Rightarrow> byte list option \<Rightarrow> (int \<times> sancus_buffer option) exec" where
  "sancus_buffer_stripany B S = sancus_buffer__stripchar B True S (-1)"

definition sancus_buffer_strip ::
  "sancus_buffer option \<Rightarrow> byte list option \<Rightarrow> int \<Rightarrow> (int \<times> sancus_buffer option) exec" where
  "sancus_buffer_strip B s l =
     (case s of
        None \<Rightarrow> if l > 0 then Inr (- EINVAL, B) else Inr (0, B)
      | Some blk \<Rightarrow>
          ebind (str_arg_len blk l) (\<lambda>l.
            case B of
              None \<Rightarrow> Inr (0, B)
            | Some b \<Rightarrow>
                if l > 0 \<and> b_len b \<ge> word_of_int l then
                  (let lu = word_of_int l;
                       off = b_len b - lu;
                       p = unat (b_base b) + unat off
                   in ebind (mem_get p (unat lu) (b_buf b)) (\<lambda>w.
                      ebind (mem_get 0 (unat lu) blk) (\<lambda>x.
                        if w = x then
                          ebind (mem_put p [0] (b_buf b)) (\<lambda>m.
                            Inr (l, Some (b\<lparr>b_len := b_len b - lu, b_buf := m\<rparr>)))
                        else Inr (0, B))))
                else Inr (0, B)))"

definition sancus_buffer_stripz ::
  "sancus_buffer option \<Rightarrow> byte list option \<Rightarrow> (int \<times> sancus_buffer option) exec" where
  "sancus_buffer_stripz B s =
     (case s of
        None \<Rightarrow> Inr (0, B)
      | Some blk \<Rightarrow> ebind (strlen blk) (\<lambda>n. sancus_buffer_strip B s (int n)))"

text \<open>\<open>truncate\<close> and \<open>stripn\<close> dereference the buffer without a test and store a terminator.\<close>

definition sancus_buffer_truncate :: "sancus_buffer \<Rightarrow> u64 \<Rightarrow> (int \<times> sancus_buffer) exec" where
  "sancus_buffer_truncate b n =
     (let b = (if n < b_len b then b\<lparr>b_len := n\<rparr> else b);
          b = (if b_len b = 0 then b\<lparr>b_base := 0\<rparr> else b)
      in ebind (mem_put (unat (b_base b + b_len b)) [0] (b_buf b)) (\<lambda>m.
           Inr (long_cast (uint (b_len b)), b\<lparr>b_buf := m\<rparr>)))"

definition sancus_buffer_stripn :: "sancus_buffer \<Rightarrow> u64 \<Rightarrow> (int \<times> sancus_buffer) exec" where
  "sancus_buffer_stripn b n =
     (let b = (if n < b_len b then b\<lparr>b_len := b_len b - n\<rparr> else b\<lparr>b_base := 0, b_len := 0\<rparr>)
      in ebind (mem_put (unat (b_base b + b_len b)) [0] (b_buf b)) (\<lambda>m.
           Inr (long_cast (uint (b_len b)), b\<lparr>b_buf := m\<rparr>)))"

definition sancus_buffer_reset :: "sancus_buffer \<Rightarrow> (int \<times> sancus_buffer) exec" where
  "sancus_buffer_reset b = sancus_buffer_truncate b 0"

subsection \<open>Appending\<close>

definition sancus_buffer_sparse :: "sancus_buffer option \<Rightarrow> u64 \<Rightarrow> (int \<times> sancus_buffer option) exec" where
  "sancus_buffer_sparse B n =
     (if sancus_buffer_tail_size B < n then Inr (- EINVAL, B)
      else case B of
             None \<Rightarrow> Inl Null_Deref
           | Some b \<Rightarrow> Inr (long_cast (uint n), Some (b\<lparr>b_len := b_len b + n\<rparr>)))"

definition sancus_buffer__append ::
  "sancus_buffer option \<Rightarrow> bool \<Rightarrow> byte list option \<Rightarrow> int \<Rightarrow> (int \<times> sancus_buffer option) exec" where
  "sancus_buffer__append B trunc s l =
     (let buf_size = long_cast (uint (sancus_buffer_tail_size B)) in
      if s = None \<and> l > 0 then Inr (- EINVAL, B)
      else ebind (case s of None \<Rightarrow> Inr l | Some blk \<Rightarrow> str_arg_len blk l) (\<lambda>l.
        case B of
          None \<Rightarrow> Inr (- EINVAL, B)
        | Some b \<Rightarrow>
            let l = (if l \<le> buf_size then l else if trunc then buf_size else - ENOBUFS) in
            if l > 0 then
              (case s of
                 None \<Rightarrow> Inl Null_Deref
               | Some blk \<Rightarrow>
                   ebind (mem_get 0 (nat l) blk) (\<lambda>x.
                   ebind (mem_put (unat (b_base b) + unat (b_len b)) x (b_buf b)) (\<lambda>m.
                     Inr (l, Some (b\<lparr>b_buf := m, b_len := b_len b + word_of_int l\<rparr>)))))
            else Inr (l, B)))"

definition sancus_buffer_append ::
  "sancus_buffer option \<Rightarrow> byte list option \<Rightarrow> int \<Rightarrow> (int \<times> sancus_buffer option) exec" where
  "sancus_buffer_append B S L = sancus_buffer__append B False S L"

definition sancus_buffer__appendz ::
  "sancus_buffer option \<Rightarrow> bool \<Rightarrow> byte list option \<Rightarrow> (int \<times> sancus_buffer option) exec" where
  "sancus_buffer__appendz B trunc s =
     (case s of
        None \<Rightarrow> Inr (0, B)
      | Some blk \<Rightarrow> ebind (strlen blk) (\<lambda>n. sancus_buffer__append B trunc s (int n)))"

text \<open>
  \<open>vsnprintf\<close> formats into at most \<open>l\<close> bytes, the terminator included, and returns the length of
  the whole text, negative on an error. The text of the format and its arguments is the argument
  \<open>out\<close> of the model, \<open>None\<close> for an error.
\<close>

definition vsnprintf :: "nat \<Rightarrow> nat \<Rightarrow> byte list option \<Rightarrow> byte list \<Rightarrow> (int \<times> byte list) exec" where
  "vsnprintf p l out mem =
     (case out of
        None \<Rightarrow> Inr (-1, mem)
      | Some t \<Rightarrow>
          ebind (mem_put p (take (l - 1) t @ [0]) mem) (\<lambda>m. Inr (int (length t), m)))"

definition sancus_buffer__appendv ::
  "sancus_buffer option \<Rightarrow> bool \<Rightarrow> byte list option \<Rightarrow> (int \<times> sancus_buffer option) exec" where
  "sancus_buffer__appendv B trunc out =
     (let l = long_cast (uint (sancus_buffer_tail_size B)) in
      case B of
        None \<Rightarrow> Inr (- ENOBUFS, B)
      | Some b \<Rightarrow>
          if l > 0 then
            (let p = unat (b_base b) + unat (b_len b) in
             ebind (vsnprintf p (nat l) out (b_buf b)) (\<lambda>(n, m).
             ebind (if n \<le> 0 \<or> l > n then Inr (n, m)
                    else if trunc then
                      ebind (mem_put (p + nat (l - 1)) [0] m) (\<lambda>m. Inr (l - 1, m))
                    else Inr (- ENOBUFS, m)) (\<lambda>(n, m).
             Inr (n, Some (if n > 0 then b\<lparr>b_buf := m, b_len := b_len b + word_of_int n\<rparr>
                           else b\<lparr>b_buf := m\<rparr>)))))
          else Inr (- ENOBUFS, B))"

definition sancus_buffer__appendf ::
  "sancus_buffer option \<Rightarrow> bool \<Rightarrow> byte list option \<Rightarrow> (int \<times> sancus_buffer option) exec" where
  "sancus_buffer__appendf B trunc out = sancus_buffer__appendv B trunc out"

text \<open>The forms that refuse what does not fit, and the forms for local buffers.\<close>

definition sancus_buffer_appendz ::
  "sancus_buffer option \<Rightarrow> byte list option \<Rightarrow> (int \<times> sancus_buffer option) exec" where
  "sancus_buffer_appendz B S = sancus_buffer__appendz B False S"

definition sancus_buffer_appendv ::
  "sancus_buffer option \<Rightarrow> byte list option \<Rightarrow> (int \<times> sancus_buffer option) exec" where
  "sancus_buffer_appendv B out = sancus_buffer__appendv B False out"

definition sancus_buffer_appendf ::
  "sancus_buffer option \<Rightarrow> byte list option \<Rightarrow> (int \<times> sancus_buffer option) exec" where
  "sancus_buffer_appendf B out = sancus_buffer__appendf B False out"

definition sancus_buffer_pop :: "sancus_buffer \<Rightarrow> u64 \<Rightarrow> (int \<times> sancus_buffer) exec" where
  "sancus_buffer_pop B N = sancus_buffer_stripn B N"

text \<open>The accessors of a local buffer; its array comes with the buffer it is declared with.\<close>

definition sancus_lbuffer_to_buffer :: "sancus_buffer \<Rightarrow> sancus_buffer option" where
  "sancus_lbuffer_to_buffer B = Some B"

definition sancus_lbuffer_ptr :: "sancus_buffer \<Rightarrow> nat option" where
  "sancus_lbuffer_ptr B = sancus_buffer_ptr (sancus_lbuffer_to_buffer B)"

definition sancus_lbuffer_len :: "sancus_buffer \<Rightarrow> u64" where
  "sancus_lbuffer_len B = sancus_buffer_len (sancus_lbuffer_to_buffer B)"

definition sancus_lbuffer_pop :: "sancus_buffer \<Rightarrow> u64 \<Rightarrow> (int \<times> sancus_buffer) exec" where
  "sancus_lbuffer_pop B N = sancus_buffer_pop B N"

definition sancus_lbuffer_append ::
  "sancus_buffer \<Rightarrow> byte list option \<Rightarrow> int \<Rightarrow> (int \<times> sancus_buffer option) exec" where
  "sancus_lbuffer_append B S N = sancus_buffer_append (Some B) S N"

definition sancus_lbuffer_appendz :: "sancus_buffer \<Rightarrow> byte list option \<Rightarrow> (int \<times> sancus_buffer option) exec" where
  "sancus_lbuffer_appendz B S = sancus_buffer_appendz (Some B) S"

definition sancus_lbuffer_appendf :: "sancus_buffer \<Rightarrow> byte list option \<Rightarrow> (int \<times> sancus_buffer option) exec" where
  "sancus_lbuffer_appendf B out = sancus_buffer_appendf (Some B) out"

definition sancus_lbuffer_appendv :: "sancus_buffer \<Rightarrow> byte list option \<Rightarrow> (int \<times> sancus_buffer option) exec" where
  "sancus_lbuffer_appendv B out = sancus_buffer_appendv (Some B) out"

subsection \<open>Well-formed buffers and their contents\<close>

definition buf_wf :: "sancus_buffer \<Rightarrow> bool" where
  "buf_wf b \<longleftrightarrow> unat (b_base b) + unat (b_len b) \<le> unat (b_size b) \<and>
     unat (b_size b) \<le> length (b_buf b) \<and> unat (b_size b) < 2 ^ 63"

definition contents :: "sancus_buffer \<Rightarrow> byte list" where
  "contents b = take (unat (b_len b)) (drop (unat (b_base b)) (b_buf b))"

definition room :: "sancus_buffer \<Rightarrow> nat" where
  "room b = unat (b_size b) - unat (b_base b) - unat (b_len b)"

lemma buf_wfD:
  assumes "buf_wf b"
  shows "unat (b_base b) + unat (b_len b) \<le> unat (b_size b)"
    and "unat (b_size b) \<le> length (b_buf b)" and "unat (b_size b) < 2 ^ 63"
  using assms by (simp_all add: buf_wf_def)

lemma uint_unat: "uint w = int (unat w)"
  by simp

lemma tail_size_room: "buf_wf b \<Longrightarrow> unat (b_size b - b_base b - b_len b) = room b"
  using buf_wfD(1) [of b] by (simp add: room_def unat_minus_nat)

lemma room_bound: "buf_wf b \<Longrightarrow> room b < 2 ^ 63"
  using buf_wfD(3) [of b] by (simp add: room_def)

lemma tail_size_long [simp]:
  assumes "buf_wf b"
  shows "long_cast (uint (b_size b - b_base b - b_len b)) = int (room b)"
  unfolding uint_unat tail_size_room [OF assms] using room_bound [OF assms] by simp

lemma length_contents: "buf_wf b \<Longrightarrow> length (contents b) = unat (b_len b)"
  using buf_wfD(1,2) [of b] by (simp add: contents_def)

lemma len_int:
  assumes "buf_wf b"
  shows "long_cast (uint (b_len b)) = int (length (contents b))"
proof -
  have "length (contents b) < 2 ^ 63"
    using buf_wfD(1,3) [OF assms] by (simp add: length_contents [OF assms])
  moreover have "uint (b_len b) = int (length (contents b))"
    using length_contents [OF assms] by simp
  ultimately show ?thesis by simp
qed

lemma contents_window:
  "buf_wf b \<Longrightarrow> mem_get (unat (b_base b)) (unat (b_len b)) (b_buf b) = Inr (contents b)"
  using buf_wfD(1,2) [of b] by (simp add: contents_def)

text \<open>The two ways the stored bytes change: at the end, and at the end with bytes written.\<close>

lemma shrink_len:
  assumes "buf_wf b" and "n \<le> length (contents b)"
  shows "buf_wf (b\<lparr>b_len := b_len b - word_of_nat n\<rparr>)"
    and "contents (b\<lparr>b_len := b_len b - word_of_nat n\<rparr>) = take (length (contents b) - n) (contents b)"
proof -
  have n: "n \<le> unat (b_len b)" using assms by (simp add: length_contents)
  then have u: "unat (word_of_nat n :: u64) = n"
    using buf_wfD(1,3) [OF assms(1)] by (intro unat_of_nat_small) simp
  then have l: "unat (b_len b - word_of_nat n) = unat (b_len b) - n"
    using n by (simp add: unat_minus_nat)
  show "buf_wf (b\<lparr>b_len := b_len b - word_of_nat n\<rparr>)"
    using buf_wfD [OF assms(1)] l by (simp add: buf_wf_def)
  show "contents (b\<lparr>b_len := b_len b - word_of_nat n\<rparr>) = take (length (contents b) - n) (contents b)"
    using l length_contents [OF assms(1)] by (simp add: contents_def)
qed

lemma grow_len:
  assumes "buf_wf b" and "length xs \<le> room b" and "length xs = n"
  defines "b' \<equiv> b\<lparr>b_buf := overwrite (unat (b_base b) + unat (b_len b)) xs (b_buf b),
                   b_len := b_len b + word_of_nat n\<rparr>"
  shows "buf_wf b'" and "contents b' = contents b @ xs" and "room b' = room b - length xs"
proof -
  have fit: "unat (b_base b) + unat (b_len b) + length xs \<le> unat (b_size b)"
    using buf_wfD(1) [OF assms(1)] assms(2) by (simp add: room_def)
  moreover have sz: "unat (b_size b) < 2 ^ 63" using assms(1) by (simp add: buf_wf_def)
  ultimately have "unat (word_of_nat n :: u64) = n"
    using assms(3) by (intro unat_of_nat_small) simp
  with fit sz have l: "unat (b_len b + word_of_nat n) = unat (b_len b) + length xs"
    using assms(3) by (subst unat_plus_nat) auto
  have blk: "unat (b_base b) + unat (b_len b) + length xs \<le> length (b_buf b)"
    using buf_wfD(2) [OF assms(1)] fit by simp
  show "buf_wf b'" using buf_wfD [OF assms(1)] fit blk l by (simp add: b'_def buf_wf_def)
  show "room b' = room b - length xs" using l by (simp add: b'_def room_def)
  show "contents b' = contents b @ xs"
    using l blk by (simp add: b'_def contents_def window_overwrite_extend)
qed

subsection \<open>Stripping bytes\<close>

lemma strip_match_take: "n \<le> length cs \<Longrightarrow> strip_match c cs n = Inr (c \<in> set (take n cs))"
  by (induction c cs n rule: strip_match.induct) auto

lemma strip_loop_many:
  "l \<le> length cs \<Longrightarrow>
   strip_loop True cs l ps k = Inr (k + length (takeWhile (\<lambda>c. c \<in> set (take l cs)) ps))"
  by (induction ps arbitrary: k) (auto simp: strip_match_take)

lemma strip_loop_once:
  "l \<le> length cs \<Longrightarrow>
   strip_loop False cs l ps k =
     Inr (k + (case ps of [] \<Rightarrow> 0 | c # _ \<Rightarrow> if c \<in> set (take l cs) then 1 else 0))"
  by (cases ps) (auto simp: strip_match_take)

text \<open>The bytes at the end of \<open>xs\<close> that belong to \<open>C\<close>, and what is left without them.\<close>

definition rstrip :: "byte set \<Rightarrow> byte list \<Rightarrow> byte list" where
  "rstrip C xs = rev (dropWhile (\<lambda>c. c \<in> C) (rev xs))"

lemma rstrip_take:
  "rstrip C xs = take (length xs - length (takeWhile (\<lambda>c. c \<in> C) (rev xs))) xs"
proof -
  let ?k = "length (takeWhile (\<lambda>c. c \<in> C) (rev xs))"
  have "rstrip C xs = rev (drop ?k (rev xs))"
    by (simp add: rstrip_def dropWhile_eq_drop)
  then show ?thesis by (simp add: rev_drop)
qed

lemma stripany_contents:
  assumes "buf_wf b" and "0 \<notin> set cs"
  shows "\<exists>b'. sancus_buffer_stripany (Some b) (Some (cs @ 0 # rest)) =
        Inr (int (length (contents b) - length (rstrip (set cs) (contents b))), Some b') \<and>
      buf_wf b' \<and> contents b' = rstrip (set cs) (contents b) \<and> room b \<le> room b'"
proof -
  let ?k = "length (takeWhile (\<lambda>c. c \<in> set cs) (rev (contents b)))"
  have k: "?k \<le> length (contents b)" by (metis length_rev length_takeWhile_le)
  have r: "length (rstrip (set cs) (contents b)) = length (contents b) - ?k"
    by (simp add: rstrip_take)
  have "sancus_buffer_stripany (Some b) (Some (cs @ 0 # rest)) =
      Inr (int ?k, Some (b\<lparr>b_len := b_len b - word_of_nat ?k\<rparr>))"
    using assms(2) contents_window [OF assms(1)]
    by (cases "cs = []")
      (auto simp: sancus_buffer_stripany_def sancus_buffer__stripchar_def str_arg_len_def
        strip_loop_many)
  moreover have "room b \<le> room (b\<lparr>b_len := b_len b - word_of_nat ?k\<rparr>)"
    using shrink_len(2) [OF assms(1) k] length_contents [OF shrink_len(1) [OF assms(1) k]]
      length_contents [OF assms(1)] by (simp add: room_def)
  ultimately show ?thesis
    using shrink_len [OF assms(1) k] k by (simp add: r rstrip_take)
qed

subsection \<open>Appending bytes\<close>

lemma append_eq:
  assumes "buf_wf b" and "0 \<le> l"
  shows "sancus_buffer__append (Some b) t (Some blk) l =
     (let n = (if l \<le> int (room b) then l else if t then int (room b) else - ENOBUFS) in
      if n > 0 then
        ebind (mem_get 0 (nat n) blk) (\<lambda>x.
        ebind (mem_put (unat (b_base b) + unat (b_len b)) x (b_buf b)) (\<lambda>m.
          Inr (n, Some (b\<lparr>b_buf := m, b_len := b_len b + word_of_int n\<rparr>))))
      else Inr (n, Some b))"
  using assms
  by (simp add: sancus_buffer__append_def str_arg_len_def sancus_buffer_tail_size_def Let_def)

lemma append_chunk:
  assumes "buf_wf b" and "length xs \<le> room b" and "0 \<le> l"
    and "(if l \<le> int (room b) then l else if t then int (room b) else - ENOBUFS) = int (length xs)"
  shows "\<exists>b'. sancus_buffer__append (Some b) t (Some (xs @ rest)) l =
        Inr (int (length xs), Some b') \<and>
      buf_wf b' \<and> contents b' = contents b @ xs \<and> room b' = room b - length xs"
proof (cases "xs = []")
  case True
  with assms show ?thesis by (simp only: append_eq [OF assms(1,3)] Let_def) simp
next
  case False
  have "unat (b_base b) + unat (b_len b) + length xs \<le> length (b_buf b)"
    using buf_wfD [OF assms(1)] assms(2) by (simp add: room_def)
  with False grow_len [OF assms(1,2) refl] show ?thesis
    by (simp only: append_eq [OF assms(1,3)] Let_def assms(4)) simp
qed

lemma append_fits:
  assumes "buf_wf b" and "length xs \<le> room b"
  shows "\<exists>b'. sancus_buffer__append (Some b) t (Some (xs @ rest)) (int (length xs)) =
        Inr (int (length xs), Some b') \<and>
      buf_wf b' \<and> contents b' = contents b @ xs \<and> room b' = room b - length xs"
  using assms by (intro append_chunk) simp_all

lemma append_full:
  assumes "buf_wf b" and "room b < length xs"
  shows "sancus_buffer__append (Some b) False (Some (xs @ rest)) (int (length xs)) =
      Inr (- ENOBUFS, Some b)"
  using assms
  by (simp add: sancus_buffer__append_def str_arg_len_def sancus_buffer_tail_size_def Let_def)

lemma append_truncates:
  assumes "buf_wf b" and "room b < length xs"
  shows "\<exists>b'. sancus_buffer__append (Some b) True (Some (xs @ rest)) (int (length xs)) =
        Inr (int (room b), Some b') \<and>
      buf_wf b' \<and> contents b' = contents b @ take (room b) xs \<and> room b' = 0"
proof -
  have e: "take (room b) xs @ drop (room b) xs @ rest = xs @ rest"
    by (metis append.assoc append_take_drop_id)
  show ?thesis
    using append_chunk [of b "take (room b) xs" "int (length xs)" True "drop (room b) xs @ rest",
        unfolded e] assms by simp
qed

subsection \<open>The contract of an output buffer\<close>

text \<open>
  What the encoders of the logger rely on: a chunk that fits is appended whole, a chunk that does
  not is refused and leaves the buffer as it was.
\<close>

locale output_buffer =
  fixes wf :: "'b \<Rightarrow> bool" and out :: "'b \<Rightarrow> byte list" and free :: "'b \<Rightarrow> nat"
    and put :: "'b \<Rightarrow> byte list \<Rightarrow> (int \<times> 'b) exec"
  assumes put_fits: "wf b \<Longrightarrow> length xs \<le> free b \<Longrightarrow>
      \<exists>b'. put b xs = Inr (int (length xs), b') \<and> wf b' \<and> out b' = out b @ xs \<and>
        free b' = free b - length xs"
    and put_full: "wf b \<Longrightarrow> free b < length xs \<Longrightarrow> put b xs = Inr (- ENOBUFS, b)"
begin

text \<open>Append the chunks in order, stopping at the first that is refused.\<close>

fun put_all :: "'b \<Rightarrow> byte list list \<Rightarrow> (int \<times> 'b) exec" where
  "put_all b [] = Inr (0, b)"
| "put_all b (x # xs) = ebind (put b x) (\<lambda>(rc, b'). if rc < 0 then Inr (rc, b') else put_all b' xs)"

lemma put_all_fits:
  "wf b \<Longrightarrow> length (concat xs) \<le> free b \<Longrightarrow>
   \<exists>b'. put_all b xs = Inr (0, b') \<and> wf b' \<and> out b' = out b @ concat xs \<and>
     free b' = free b - length (concat xs)"
proof (induction xs arbitrary: b)
  case (Cons x xs)
  then obtain b1 where b1: "put b x = Inr (int (length x), b1)" "wf b1" "out b1 = out b @ x"
      "free b1 = free b - length x"
    using put_fits [of b x] by auto
  moreover have "length (concat xs) \<le> free b1" using Cons.prems(2) b1(4) by simp
  ultimately show ?case using Cons.IH [of b1] by fastforce
qed auto

lemma put_all_full:
  "wf b \<Longrightarrow> free b < length (concat xs) \<Longrightarrow>
   \<exists>b' n. put_all b xs = Inr (- ENOBUFS, b') \<and> wf b' \<and> n < length xs \<and>
     out b' = out b @ concat (take n xs) \<and> free b' < length (xs ! n)"
proof (induction xs arbitrary: b)
  case (Cons x xs)
  show ?case
  proof (cases "length x \<le> free b")
    case True
    then obtain b1 where b1: "put b x = Inr (int (length x), b1)" "wf b1" "out b1 = out b @ x"
        "free b1 = free b - length x"
      using put_fits [of b x] Cons.prems(1) by auto
    moreover have "free b1 < length (concat xs)" using Cons.prems(2) b1(4) True by simp
    ultimately obtain b' n where "put_all b1 xs = Inr (- ENOBUFS, b')" "wf b'" "n < length xs"
        "out b' = out b1 @ concat (take n xs)" "free b' < length (xs ! n)"
      using Cons.IH [of b1] by blast
    with b1 show ?thesis by (intro exI [of _ b'] exI [of _ "Suc n"]) simp
  next
    case False
    with Cons.prems(1) put_full [of b x] show ?thesis
      by (intro exI [of _ b] exI [of _ 0]) simp
  qed
qed simp

end

text \<open>The buffer of this theory, with its contents and its room.\<close>

definition buf_put :: "sancus_buffer \<Rightarrow> byte list \<Rightarrow> (int \<times> sancus_buffer) exec" where
  "buf_put b xs =
     ebind (sancus_buffer_append (Some b) (Some xs) (int (length xs))) (\<lambda>(rc, B).
       case B of None \<Rightarrow> Inl Null_Deref | Some b' \<Rightarrow> Inr (rc, b'))"

interpretation ob: output_buffer buf_wf contents room buf_put
proof unfold_locales
  fix b xs
  assume "buf_wf b"
  show "length xs \<le> room b \<Longrightarrow>
      \<exists>b'. buf_put b xs = Inr (int (length xs), b') \<and> buf_wf b' \<and>
        contents b' = contents b @ xs \<and> room b' = room b - length xs"
    using append_fits [OF \<open>buf_wf b\<close>, of xs False "[]"]
    by (auto simp: buf_put_def sancus_buffer_append_def)
  show "room b < length xs \<Longrightarrow> buf_put b xs = Inr (- ENOBUFS, b)"
    using append_full [OF \<open>buf_wf b\<close>, of xs "[]"]
    by (simp add: buf_put_def sancus_buffer_append_def)
qed

subsection \<open>Formatted output\<close>

lemma vsnprintf_fits:
  "p + l \<le> length mem \<Longrightarrow> 0 < l \<Longrightarrow>
   vsnprintf p l (Some t) mem = Inr (int (length t), overwrite p (take (l - 1) t @ [0]) mem)"
  by (simp add: vsnprintf_def)

lemma tail_fits: "buf_wf b \<Longrightarrow> unat (b_base b) + unat (b_len b) + room b \<le> length (b_buf b)"
  using buf_wfD [of b] by (simp add: room_def)

text \<open>Writing past the stored bytes, also with an offset, leaves them alone.\<close>

lemma contents_scratch:
  assumes "buf_wf b" and "k + length xs \<le> room b"
  defines "b' \<equiv> b\<lparr>b_buf := overwrite (unat (b_base b) + unat (b_len b) + k) xs (b_buf b)\<rparr>"
  shows "buf_wf b'" and "contents b' = contents b" and "room b' = room b"
  using buf_wfD [OF assms(1)] tail_fits [OF assms(1)] assms(2)
  by (simp_all add: b'_def buf_wf_def contents_def room_def window_overwrite_after)

lemma overwrite_append:
  "p + length xs + length ys \<le> length m \<Longrightarrow>
   overwrite p (xs @ ys) m = overwrite p xs (overwrite (p + length xs) ys m)"
  by (simp add: overwrite_def add.assoc)

text \<open>The stored bytes grow by \<open>xs\<close> while \<open>ys\<close>, a terminator, is written after them.\<close>

lemma grow_len_scratch:
  assumes "buf_wf b" and "length xs + length ys \<le> room b"
  defines "b' \<equiv> b\<lparr>b_buf := overwrite (unat (b_base b) + unat (b_len b)) (xs @ ys) (b_buf b),
                   b_len := b_len b + word_of_nat (length xs)\<rparr>"
  shows "buf_wf b'" and "contents b' = contents b @ xs" and "room b' = room b - length xs"
proof -
  let ?p = "unat (b_base b) + unat (b_len b)"
  let ?c = "b\<lparr>b_buf := overwrite (?p + length xs) ys (b_buf b)\<rparr>"
  have e: "overwrite ?p (xs @ ys) (b_buf b) = overwrite ?p xs (b_buf ?c)"
    using tail_fits [OF assms(1)] assms(2) by (simp add: overwrite_append)
  note c = contents_scratch [OF assms(1,2)]
  have "length xs \<le> room ?c" unfolding c(3) using assms(2) by simp
  from grow_len [OF c(1) this refl] c(2,3) e
  show "buf_wf b'" and "contents b' = contents b @ xs" and "room b' = room b - length xs"
    by (simp_all add: b'_def)
qed

lemma appendv_fits:
  assumes "buf_wf b" and "length t < room b"
  shows "\<exists>b'. sancus_buffer__appendv (Some b) trunc (Some t) = Inr (int (length t), Some b') \<and>
      buf_wf b' \<and> contents b' = contents b @ t \<and> room b' = room b - length t"
proof -
  let ?p = "unat (b_base b) + unat (b_len b)"
  let ?b = "b\<lparr>b_buf := overwrite ?p (t @ [0]) (b_buf b), b_len := b_len b + word_of_nat (length t)\<rparr>"
  have "sancus_buffer__appendv (Some b) trunc (Some t) = Inr (int (length t), Some ?b)"
    using assms tail_fits [OF assms(1)]
    by (cases "t = []")
      (simp_all add: sancus_buffer__appendv_def sancus_buffer_tail_size_def Let_def vsnprintf_fits)
  then show ?thesis
    using grow_len_scratch [OF assms(1), of t "[0]"] assms(2) by auto
qed

lemma appendv_refused:
  assumes "buf_wf b" and "room b \<le> length t"
  shows "\<exists>b'. sancus_buffer__appendv (Some b) False (Some t) = Inr (- ENOBUFS, Some b') \<and>
      buf_wf b' \<and> contents b' = contents b \<and> room b' = room b"
proof (cases "room b = 0")
  case True
  with assms show ?thesis
    by (simp add: sancus_buffer__appendv_def sancus_buffer_tail_size_def Let_def)
next
  case False
  let ?p = "unat (b_base b) + unat (b_len b)"
  let ?x = "take (room b - 1) t @ [0]"
  have "t \<noteq> []" using assms(2) False by auto
  then have "sancus_buffer__appendv (Some b) False (Some t) =
      Inr (- ENOBUFS, Some (b\<lparr>b_buf := overwrite (?p + 0) ?x (b_buf b)\<rparr>))"
    using assms False tail_fits [OF assms(1)]
    by (simp add: sancus_buffer__appendv_def sancus_buffer_tail_size_def Let_def vsnprintf_fits)
  moreover have "0 + length ?x \<le> room b" using False by simp
  ultimately show ?thesis using contents_scratch [OF assms(1)] by blast
qed

lemma overwrite_again:
  "p + length xs + 1 \<le> length m \<Longrightarrow>
   overwrite (p + length xs) [c] (overwrite p (xs @ [c]) m) = overwrite p (xs @ [c]) m"
  by (simp add: overwrite_def)

lemma appendv_truncates:
  assumes "buf_wf b" and "0 < room b" and "room b \<le> length t"
  shows "\<exists>b'. sancus_buffer__appendv (Some b) True (Some t) = Inr (int (room b - 1), Some b') \<and>
      buf_wf b' \<and> contents b' = contents b @ take (room b - 1) t \<and> room b' = 1"
proof -
  obtain r where r: "room b = Suc r" using assms(2) gr0_implies_Suc by blast
  let ?p = "unat (b_base b) + unat (b_len b)"
  let ?m = "overwrite ?p (take r t @ [0]) (b_buf b)"
  let ?b = "b\<lparr>b_buf := ?m, b_len := b_len b + word_of_nat r\<rparr>"
  have x: "length (take r t) = r" and "t \<noteq> []" and fit: "?p + Suc r \<le> length (b_buf b)"
    using assms(3) r tail_fits [OF assms(1)] by auto
  have "overwrite (?p + r) [0] ?m = ?m"
    using overwrite_again [of ?p "take r t" "b_buf b" 0, unfolded x] fit by simp
  moreover have "vsnprintf ?p (Suc r) (Some t) (b_buf b) = Inr (int (length t), ?m)"
    using fit by (simp add: vsnprintf_fits)
  moreover have "nat (1 + int r) = Suc r" by simp
  ultimately have "sancus_buffer__appendv (Some b) True (Some t) =
      Inr (int r, Some (if 0 < r then ?b else b\<lparr>b_buf := ?m\<rparr>))"
    using assms(1,3) \<open>t \<noteq> []\<close> fit x r
    by (cases "r = 0") (simp_all add: sancus_buffer__appendv_def sancus_buffer_tail_size_def Let_def)
  moreover have "(if 0 < r then ?b else b\<lparr>b_buf := ?m\<rparr>) = ?b" by simp
  ultimately show ?thesis
    using grow_len_scratch [OF assms(1), of "take r t" "[0]", unfolded x] r by auto
qed

subsection \<open>Removing a known suffix and cutting the length\<close>

lemma strip_suffix:
  assumes "buf_wf b" and "contents b = ys @ s" and "s \<noteq> []"
  shows "\<exists>b'. sancus_buffer_strip (Some b) (Some (s @ rest)) (int (length s)) =
        Inr (int (length s), Some b') \<and>
      buf_wf b' \<and> contents b' = ys \<and> room b' = room b + length s"
proof -
  let ?p = "unat (b_base b) + length ys"
  have len: "unat (b_len b) = length ys + length s"
    using length_contents [OF assms(1)] assms(2) by simp
  have sz: "unat (b_base b) + (length ys + length s) \<le> unat (b_size b)"
      "unat (b_size b) \<le> length (b_buf b)" "unat (b_size b) < 2 ^ 63"
    using buf_wfD [OF assms(1)] len by simp_all
  have u: "unat (word_of_nat (length s) :: u64) = length s"
    using sz by (intro unat_of_nat_small) simp
  have l: "unat (b_len b - word_of_nat (length s)) = length ys"
    using len u by (simp add: unat_minus_nat)
  have "drop (length ys) (take (length ys + length s) (drop (unat (b_base b)) (b_buf b))) = s"
    using assms(2) len by (simp add: contents_def)
  then have w: "take (length s) (drop ?p (b_buf b)) = s"
    by (simp add: drop_take add.commute)
  have fit: "?p + length s \<le> length (b_buf b)" using sz by linarith
  have p1: "?p + 1 \<le> length (b_buf b)" using sz assms(3) by (cases s) auto
  let ?b = "b\<lparr>b_len := b_len b - word_of_nat (length s), b_buf := overwrite ?p [0] (b_buf b)\<rparr>"
  have "word_of_nat (length s) \<le> b_len b" using len u by (simp add: word_le_nat_alt)
  then have "sancus_buffer_strip (Some b) (Some (s @ rest)) (int (length s)) =
      Inr (int (length s), Some ?b)"
    using assms(3) p1 fit
    by (simp add: sancus_buffer_strip_def str_arg_len_def Let_def u l w)
  moreover have "take (length ys) (contents b) = take (length ys) (drop (unat (b_base b)) (b_buf b))"
    using len by (simp add: contents_def)
  then have "take (length ys) (drop (unat (b_base b)) (b_buf b)) = ys" using assms(2) by simp
  then have "contents ?b = ys" using l p1 by (simp add: contents_def window_overwrite_after)
  moreover have "buf_wf ?b" using l p1 sz by (simp add: buf_wf_def)
  moreover have "room ?b = room b + length s" using l len sz by (simp add: room_def)
  ultimately show ?thesis by blast
qed

lemma strip_other:
  assumes "buf_wf b" and "\<nexists>ys. contents b = ys @ s" and "int (length s) \<le> LONG_MAX"
  shows "sancus_buffer_strip (Some b) (Some (s @ rest)) (int (length s)) = Inr (0, Some b)"
proof (cases "s \<noteq> [] \<and> length s \<le> unat (b_len b)")
  case True
  have u: "unat (word_of_nat (length s) :: u64) = length s"
    using assms(3) by (intro unat_of_nat_small) simp
  let ?k = "unat (b_len b) - length s"
  have l: "unat (b_len b - word_of_nat (length s)) = ?k"
    using True u by (simp add: unat_minus_nat)
  have fit: "unat (b_base b) + ?k + length s \<le> length (b_buf b)"
    using buf_wfD [OF assms(1)] True by linarith
  have "take (length s) (drop (unat (b_base b) + ?k) (b_buf b)) = drop ?k (contents b)"
    using True by (simp add: contents_def drop_take add.commute)
  moreover have "drop ?k (contents b) \<noteq> s"
    using assms(2) append_take_drop_id [of ?k "contents b"] by metis
  ultimately show ?thesis
    using True l u fit by (simp add: sancus_buffer_strip_def str_arg_len_def Let_def)
next
  case False
  have "unat (word_of_nat (length s) :: u64) = length s"
    using assms(3) by (intro unat_of_nat_small) simp
  with False show ?thesis
    by (auto simp: sancus_buffer_strip_def str_arg_len_def word_le_nat_alt)
qed

text \<open>A buffer whose stored bytes reach the last byte of the block has no place for a terminator.\<close>

definition no_terminator :: "sancus_buffer \<Rightarrow> bool" where
  "no_terminator b \<longleftrightarrow> contents b \<noteq> [] \<and> unat (b_base b) + unat (b_len b) = length (b_buf b)"

lemma shorter_len:
  assumes "buf_wf b" and "m \<le> b_len b"
  shows "buf_wf (b\<lparr>b_len := m\<rparr>)" and "contents (b\<lparr>b_len := m\<rparr>) = take (unat m) (contents b)"
proof -
  have m: "unat m \<le> unat (b_len b)" using assms(2) by (simp add: word_le_nat_alt)
  show "buf_wf (b\<lparr>b_len := m\<rparr>)" using buf_wfD [OF assms(1)] m by (simp add: buf_wf_def)
  show "contents (b\<lparr>b_len := m\<rparr>) = take (unat m) (contents b)"
    by (simp add: contents_def min.absorb1 m)
qed

lemma cleared: "buf_wf b \<Longrightarrow> buf_wf (b\<lparr>b_base := 0, b_len := 0\<rparr>)"
  by (simp add: buf_wf_def)

text \<open>The common end of \<open>truncate\<close> and \<open>stripn\<close>: store the terminator, return the length.\<close>

lemma terminate_ok:
  assumes "buf_wf b" and "unat (b_base b) + unat (b_len b) < length (b_buf b)"
  shows "\<exists>b'. ebind (mem_put (unat (b_base b + b_len b)) [0] (b_buf b)) (\<lambda>m.
        Inr (long_cast (uint (b_len b)), b\<lparr>b_buf := m\<rparr>)) = Inr (int (length (contents b)), b') \<and>
      buf_wf b' \<and> contents b' = contents b"
proof -
  let ?b = "b\<lparr>b_buf := overwrite (unat (b_base b) + unat (b_len b)) [0] (b_buf b)\<rparr>"
  have "unat (b_base b + b_len b) = unat (b_base b) + unat (b_len b)"
    using buf_wfD [OF assms(1)] by (intro unat_plus_nat) simp
  moreover have "buf_wf ?b" and "contents ?b = contents b"
    using buf_wfD [OF assms(1)] assms(2)
    by (simp_all add: buf_wf_def contents_def window_overwrite_after)
  ultimately show ?thesis using assms(2) len_int [OF assms(1)] by (intro exI [of _ ?b]) simp
qed

lemma terminate_fault:
  assumes "buf_wf b" and "unat (b_base b) + unat (b_len b) = length (b_buf b)"
  shows "mem_put (unat (b_base b + b_len b)) [0] (b_buf b) = Inl Bad_Access"
proof -
  have "unat (b_base b + b_len b) = unat (b_base b) + unat (b_len b)"
    using buf_wfD [OF assms(1)] by (intro unat_plus_nat) simp
  with assms(2) show ?thesis by simp
qed

lemma truncate_spec:
  assumes "buf_wf b" and "b_buf b \<noteq> []"
  shows "no_terminator b \<and> b_len b \<le> n \<Longrightarrow> sancus_buffer_truncate b n = Inl Bad_Access"
    and "\<not> (no_terminator b \<and> b_len b \<le> n) \<Longrightarrow>
      \<exists>b'. sancus_buffer_truncate b n = Inr (int (length (take (unat n) (contents b))), b') \<and>
        buf_wf b' \<and> contents b' = take (unat n) (contents b)"
proof -
  have ne: "contents b \<noteq> [] \<longleftrightarrow> b_len b \<noteq> 0"
    using length_contents [OF assms(1)] by (metis length_0_conv unat_eq_zero)
  show "no_terminator b \<and> b_len b \<le> n \<Longrightarrow> sancus_buffer_truncate b n = Inl Bad_Access"
    using terminate_fault [OF assms(1)] ne
    by (auto simp: sancus_buffer_truncate_def no_terminator_def Let_def)
  assume room: "\<not> (no_terminator b \<and> b_len b \<le> n)"
  let ?c = "if n < b_len b then b\<lparr>b_len := n\<rparr> else b"
  have c: "buf_wf ?c" "contents ?c = take (unat n) (contents b)" and bc: "b_buf ?c = b_buf b"
    using shorter_len [OF assms(1), of n] assms(1) length_contents [OF assms(1)]
    by (auto simp: word_less_nat_alt word_le_nat_alt)
  let ?d = "if b_len ?c = 0 then ?c\<lparr>b_base := 0\<rparr> else ?c"
  have d: "buf_wf ?d" "contents ?d = contents ?c" "b_buf ?d = b_buf b"
    using c(1) bc cleared [OF c(1)] buf_wfD [OF c(1)] by (auto simp: buf_wf_def contents_def)
  have "unat (b_base ?d) + unat (b_len ?d) < length (b_buf ?d)"
  proof (cases "b_len ?c = 0")
    case True
    then show ?thesis using assms(2) d(3) by simp
  next
    case False
    then have "b_len b \<noteq> 0" by (auto split: if_splits)
    then show ?thesis
      using buf_wfD [OF assms(1)] room ne False
      by (auto simp: no_terminator_def word_less_nat_alt word_le_nat_alt split: if_splits)
  qed
  from terminate_ok [OF d(1) this] c(2) d(2)
  show "\<exists>b'. sancus_buffer_truncate b n = Inr (int (length (take (unat n) (contents b))), b') \<and>
        buf_wf b' \<and> contents b' = take (unat n) (contents b)"
    by (simp only: sancus_buffer_truncate_def Let_def)
qed

lemma stripn_spec:
  assumes "buf_wf b" and "b_buf b \<noteq> []"
  shows "no_terminator b \<and> n = 0 \<Longrightarrow> sancus_buffer_stripn b n = Inl Bad_Access"
    and "\<not> (no_terminator b \<and> n = 0) \<Longrightarrow>
      \<exists>b'. sancus_buffer_stripn b n = Inr (int (length (contents b) - unat n), b') \<and>
        buf_wf b' \<and> contents b' = take (length (contents b) - unat n) (contents b)"
proof -
  have ne: "contents b \<noteq> [] \<longleftrightarrow> b_len b \<noteq> 0"
    using length_contents [OF assms(1)] by (metis length_0_conv unat_eq_zero)
  show "no_terminator b \<and> n = 0 \<Longrightarrow> sancus_buffer_stripn b n = Inl Bad_Access"
    using terminate_fault [OF assms(1)] ne
    by (auto simp: sancus_buffer_stripn_def no_terminator_def Let_def word_gt_0)
  assume room: "\<not> (no_terminator b \<and> n = 0)"
  let ?c = "if n < b_len b then b\<lparr>b_len := b_len b - n\<rparr> else b\<lparr>b_base := 0, b_len := 0\<rparr>"
  have sub: "n < b_len b \<Longrightarrow> b_len b - n \<le> b_len b \<and> unat (b_len b - n) = unat (b_len b) - unat n"
    by (simp add: word_le_nat_alt word_less_nat_alt unat_minus_nat)
  have c: "buf_wf ?c" and cc: "contents ?c = take (length (contents b) - unat n) (contents b)"
      and bc: "b_buf ?c = b_buf b"
    using shorter_len [OF assms(1), of "b_len b - n"] sub cleared [OF assms(1)]
      length_contents [OF assms(1)]
    by (auto simp: contents_def word_less_nat_alt)
  have "unat (b_base ?c) + unat (b_len ?c) < length (b_buf ?c)"
  proof (cases "n < b_len b")
    case True
    then have "b_len b \<noteq> 0" by auto
    then have "n = 0 \<Longrightarrow> unat (b_base b) + unat (b_len b) \<noteq> length (b_buf b)"
      using room ne by (simp add: no_terminator_def)
    moreover have "n \<noteq> 0 \<Longrightarrow> 0 < unat n" by (simp add: unat_gt_0)
    ultimately show ?thesis
      using True sub buf_wfD(1,2) [OF assms(1)] by (cases "n = 0") (auto simp: word_less_nat_alt)
  qed (use assms(2) in simp)
  from terminate_ok [OF c this] cc
  show "\<exists>b'. sancus_buffer_stripn b n = Inr (int (length (contents b) - unat n), b') \<and>
        buf_wf b' \<and> contents b' = take (length (contents b) - unat n) (contents b)"
    by (simp add: sancus_buffer_stripn_def Let_def)
qed

subsection \<open>Properties\<close>

text \<open>A fresh local buffer.\<close>

lemma lbuffer_accessors:
  "sancus_lbuffer_ptr (DECL_SANCUS_LBUFFER mem S) = Some 0" "sancus_lbuffer_len (DECL_SANCUS_LBUFFER mem S) = 0"
  by (simp_all add: sancus_lbuffer_ptr_def sancus_lbuffer_len_def sancus_lbuffer_to_buffer_def sancus_buffer_ptr_def
      sancus_buffer_len_def DECL_SANCUS_LBUFFER_def)

lemma lbuffer_fresh:
  "unat S \<le> length mem \<Longrightarrow> unat S < 2 ^ 63 \<Longrightarrow>
   buf_wf (DECL_SANCUS_LBUFFER mem S) \<and> contents (DECL_SANCUS_LBUFFER mem S) = [] \<and>
   room (DECL_SANCUS_LBUFFER mem S) = unat S"
  by (simp add: DECL_SANCUS_LBUFFER_def buf_wf_def contents_def room_def)

text \<open>How many of \<open>n\<close> bytes are taken when there is room for \<open>r\<close>.\<close>

definition accepted :: "bool \<Rightarrow> nat \<Rightarrow> nat \<Rightarrow> nat" where
  "accepted t r n = (if n \<le> r then n else if t then r else 0)"

text \<open>
  C11. \<open>sancus_buffer__append\<close> of data that is not \<open>NULL\<close>, with the count of its bytes, on a
  well-formed buffer: bytes that fit are added at the
  end and their number returned; bytes that do not fit are cut to the room left with \<open>truncate\<close> and
  refused with \<open>-ENOBUFS\<close>, the buffer untouched, without it. The result is well-formed and no byte
  outside the block is read or written.
\<close>

theorem buffer_append_spec:
  assumes "buf_wf b"
    and "k = accepted t (room b) (length xs)"
  shows "\<exists>b'. sancus_buffer__append (Some b) t (Some (xs @ rest)) (int (length xs)) =
        Inr (if k < length xs \<and> \<not> t then - ENOBUFS else int k, Some b') \<and>
      buf_wf b' \<and> contents b' = contents b @ take k xs \<and> room b' = room b - k"
proof (cases "length xs \<le> room b")
  case True
  with append_fits [OF assms(1) True, of t rest] show ?thesis by (simp add: accepted_def assms(2))
next
  case False
  with append_truncates [OF assms(1), of xs rest] append_full [OF assms(1), of xs rest] assms(1)
  show ?thesis by (cases t; cases xs) (simp_all add: accepted_def assms(2))
qed

theorem buffer_append_spec_witness:
  "\<exists>b'. sancus_buffer__append (Some (DECL_SANCUS_LBUFFER [9, 9, 9, 9] 3)) True (Some [1, 2, 3, 4]) 4 =
      Inr (3, Some b') \<and> contents b' = [1, 2, 3] \<and> room b' = 0"
proof -
  let ?b = "DECL_SANCUS_LBUFFER [9, 9, 9, 9] 3"
  have f: "buf_wf ?b" "contents ?b = []" "room ?b = 3"
    using lbuffer_fresh [of 3 "[9, 9, 9, 9]"] by simp_all
  have "3 = accepted True (room ?b) (length [1, 2, 3, 4 :: byte])" by (simp add: f accepted_def)
  from buffer_append_spec [OF f(1) this, of "[]"] f(2,3) show ?thesis by auto
qed

text \<open>
  \<open>sancus_buffer__appendv\<close> and the text of its format: a text shorter than the room left (one
  byte is kept for the terminator) is appended whole; a longer one is cut to one byte less than the
  room with \<open>truncate\<close> and refused with \<open>-ENOBUFS\<close> without it or when there is no room at all. The
  stored bytes are never changed, and the bytes written stay inside the block.
\<close>

theorem buffer_appendv_spec:
  assumes "buf_wf b"
    and "k = accepted t (room b - 1) (length s)"
  shows "\<exists>b'. sancus_buffer__appendv (Some b) t (Some s) =
        Inr (if room b \<le> length s \<and> (\<not> t \<or> room b = 0) then - ENOBUFS else int k, Some b') \<and>
      buf_wf b' \<and> contents b' = contents b @ take k s \<and> room b' = room b - k"
proof (cases "length s < room b")
  case True
  then have "length s \<le> room b - 1" by linarith
  then have "k = length s" by (simp add: accepted_def assms(2))
  with True appendv_fits [OF assms(1) True] show ?thesis by simp
next
  case False
  show ?thesis
  proof (cases "t \<and> 0 < room b")
    case True
    with False appendv_truncates [OF assms(1), of s] show ?thesis by (fastforce simp: accepted_def assms(2))
  next
    case no: False
    have "\<exists>b'. sancus_buffer__appendv (Some b) t (Some s) = Inr (- ENOBUFS, Some b') \<and>
        buf_wf b' \<and> contents b' = contents b \<and> room b' = room b"
    proof (cases t)
      case True
      with no assms(1) show ?thesis
        by (simp add: sancus_buffer__appendv_def sancus_buffer_tail_size_def Let_def)
    qed (use appendv_refused [OF assms(1)] False in simp)
    moreover have "k = 0" using no False by (cases "room b") (auto simp: accepted_def assms(2))
    ultimately show ?thesis using no False by auto
  qed
qed

theorem buffer_appendv_spec_witness:
  "\<exists>b'. sancus_buffer__appendv (Some (DECL_SANCUS_LBUFFER [9, 9, 9, 9] 4)) True (Some [1, 2, 3, 4]) =
      Inr (3, Some b') \<and> contents b' = [1, 2, 3]"
proof -
  let ?b = "DECL_SANCUS_LBUFFER [9, 9, 9, 9] 4"
  have f: "buf_wf ?b" "contents ?b = []" "room ?b = 4"
    using lbuffer_fresh [of 4 "[9, 9, 9, 9]"] by simp_all
  have "3 = accepted True (room ?b - 1) (length [1, 2, 3, 4 :: byte])" by (simp add: f accepted_def)
  from buffer_appendv_spec [OF f(1) this] f(2,3) show ?thesis by auto
qed

text \<open>
  Stripping undoes appending: after bytes that fit were appended, \<open>sancus_buffer_strip\<close> with the
  same bytes finds them at the end and removes them, and contents and room are as before.
\<close>

theorem buffer_append_strip:
  assumes "buf_wf b" and "s \<noteq> []" and "length s \<le> room b"
  shows "\<exists>b1 b2. sancus_buffer_append (Some b) (Some (s @ rest)) (int (length s)) =
        Inr (int (length s), Some b1) \<and>
      sancus_buffer_strip (Some b1) (Some (s @ rest)) (int (length s)) = Inr (int (length s), Some b2) \<and>
      buf_wf b2 \<and> contents b2 = contents b \<and> room b2 = room b"
proof -
  obtain b1 where b1: "sancus_buffer__append (Some b) False (Some (s @ rest)) (int (length s)) =
        Inr (int (length s), Some b1)" "buf_wf b1" "contents b1 = contents b @ s"
      "room b1 = room b - length s"
    using append_fits [OF assms(1,3), of False rest] by auto
  with strip_suffix [OF b1(2,3) assms(2), of rest] assms(3) show ?thesis
    by (auto simp: sancus_buffer_append_def)
qed

theorem buffer_append_strip_witness:
  "\<exists>b1 b2. sancus_buffer_append (Some (DECL_SANCUS_LBUFFER [9, 9, 9, 9] 4)) (Some [1, 2]) 2 =
        Inr (2, Some b1) \<and>
      sancus_buffer_strip (Some b1) (Some [1, 2]) 2 = Inr (2, Some b2) \<and> contents b2 = []"
  using buffer_append_strip [of "DECL_SANCUS_LBUFFER [9, 9, 9, 9] 4" "[1, 2]" "[]"]
    lbuffer_fresh [of 4 "[9, 9, 9, 9]"]
  by auto

text \<open>
  \<open>sancus_buffer_stripany\<close> removes exactly the longest tail of bytes from the given set and returns
  its length; \<open>sancus_buffer_strip\<close> with bytes that do not end the contents changes nothing and
  returns 0.
\<close>

theorem buffer_strip_spec:
  assumes "buf_wf b" and "0 \<notin> set cs"
  shows "(\<exists>b'. sancus_buffer_stripany (Some b) (Some (cstring cs)) =
        Inr (int (length (contents b) - length (rstrip (set cs) (contents b))), Some b') \<and>
      buf_wf b' \<and> contents b' = rstrip (set cs) (contents b)) \<and>
    (int (length cs) \<le> LONG_MAX \<and> (\<nexists>ys. contents b = ys @ cs) \<longrightarrow>
      sancus_buffer_stripz (Some b) (Some (cstring cs)) = Inr (0, Some b))"
  using stripany_contents [OF assms, of "[]"] strip_other [OF assms(1), of cs "[0]"] assms(2)
  by (auto simp: cstring_def sancus_buffer_stripz_def)

theorem buffer_strip_spec_witness:
  "(\<exists>b'. sancus_buffer_stripany (Some \<lparr>b_buf = [7, 5, 6, 5], b_base = 0, b_len = 4, b_size = 4\<rparr>)
       (Some (cstring [5, 6])) = Inr (3, Some b') \<and> contents b' = [7]) \<and>
   sancus_buffer_stripz (Some \<lparr>b_buf = [7, 5, 6, 5], b_base = 0, b_len = 4, b_size = 4\<rparr>)
     (Some (cstring [5, 6])) = Inr (0, Some \<lparr>b_buf = [7, 5, 6, 5], b_base = 0, b_len = 4, b_size = 4\<rparr>)"
proof -
  let ?b = "\<lparr>b_buf = [7, 5, 6, 5], b_base = 0, b_len = 4, b_size = 4\<rparr>"
  have c: "contents ?b = [7, 5, 6, 5]" and wf: "buf_wf ?b" by (simp_all add: contents_def buf_wf_def)
  have "\<nexists>ys. contents ?b = ys @ [5, 6]"
  proof
    assume "\<exists>ys. contents ?b = ys @ [5, 6]"
    then have "last (contents ?b) = 6" by auto
    with c show False by simp
  qed
  with buffer_strip_spec [OF wf, of "[5, 6]", unfolded c] show ?thesis by (auto simp: rstrip_def c)
qed

text \<open>
  C37. \<open>sancus_buffer_truncate\<close> and \<open>sancus_buffer_stripn\<close> keep the first bytes they are asked to keep,
  unless the contents end at the last byte of the block and nothing is cut: then the terminator
  they always store is written one past the block.
\<close>

theorem buffer_cut_spec:
  assumes "buf_wf b" and "b_buf b \<noteq> []"
  shows "(if no_terminator b \<and> b_len b \<le> n then sancus_buffer_truncate b n = Inl Bad_Access
     else \<exists>b'. sancus_buffer_truncate b n = Inr (int (length (take (unat n) (contents b))), b') \<and>
        buf_wf b' \<and> contents b' = take (unat n) (contents b)) \<and>
    (if no_terminator b \<and> n = 0 then sancus_buffer_stripn b n = Inl Bad_Access
     else \<exists>b'. sancus_buffer_stripn b n = Inr (int (length (contents b) - unat n), b') \<and>
        buf_wf b' \<and> contents b' = take (length (contents b) - unat n) (contents b))"
proof (rule conjI)
  show "if no_terminator b \<and> b_len b \<le> n then sancus_buffer_truncate b n = Inl Bad_Access
     else \<exists>b'. sancus_buffer_truncate b n = Inr (int (length (take (unat n) (contents b))), b') \<and>
        buf_wf b' \<and> contents b' = take (unat n) (contents b)"
    using truncate_spec [OF assms, of n] by (simp only: split: if_split) blast
  show "if no_terminator b \<and> n = 0 then sancus_buffer_stripn b n = Inl Bad_Access
     else \<exists>b'. sancus_buffer_stripn b n = Inr (int (length (contents b) - unat n), b') \<and>
        buf_wf b' \<and> contents b' = take (length (contents b) - unat n) (contents b)"
    using stripn_spec [OF assms, of n] by (simp only: split: if_split) blast
qed

theorem buffer_cut_spec_witness:
  "sancus_buffer_truncate \<lparr>b_buf = [7, 5], b_base = 0, b_len = 2, b_size = 2\<rparr> 2 = Inl Bad_Access"
  using buffer_cut_spec [of "\<lparr>b_buf = [7, 5], b_base = 0, b_len = 2, b_size = 2\<rparr>" 2]
  by (simp add: buf_wf_def contents_def no_terminator_def)

end
