(* ===== verification/Buffer_Type.thy ===== *)
theory Buffer_Type
  imports Buffer
begin

text \<open>
  The type invariant of \<open>struct sancus_buffer\<close> over sequences of calls. A call is an operation of
  \<^verbatim>\<open>src/sancus/buffer.c\<close> with any arguments, lengths that are negative or too large and null strings
  included; a sequence stops at the first call that faults. Whatever the calls, as long as none
  faults the stored bytes stay inside the declared size, the size inside the block, and neither the
  size nor the block changes its length.
\<close>

subsection \<open>Calls\<close>

datatype buffer_call =
    Stripchar bool "byte list option" int
  | Strip "byte list option" int
  | Truncate u64
  | Stripn u64
  | Sparse u64
  | Append bool "byte list option" int
  | Appendv bool "byte list option"

definition on_some :: "(int \<times> sancus_buffer option) exec \<Rightarrow> sancus_buffer exec" where
  "on_some r = ebind r (\<lambda>(_, B). case B of Some b \<Rightarrow> Inr b | None \<Rightarrow> Inl Null_Deref)"

fun run_call :: "buffer_call \<Rightarrow> sancus_buffer \<Rightarrow> sancus_buffer exec" where
  "run_call (Stripchar many cs l) b = on_some (sancus_buffer__stripchar (Some b) many cs l)"
| "run_call (Strip s l) b = on_some (sancus_buffer_strip (Some b) s l)"
| "run_call (Truncate n) b = ebind (sancus_buffer_truncate b n) (\<lambda>(_, b). Inr b)"
| "run_call (Stripn n) b = ebind (sancus_buffer_stripn b n) (\<lambda>(_, b). Inr b)"
| "run_call (Sparse n) b = on_some (sancus_buffer_sparse (Some b) n)"
| "run_call (Append t s l) b = on_some (sancus_buffer__append (Some b) t s l)"
| "run_call (Appendv t out) b = on_some (sancus_buffer__appendv (Some b) t out)"

primrec run_calls :: "buffer_call list \<Rightarrow> sancus_buffer \<Rightarrow> sancus_buffer exec" where
  "run_calls [] b = Inr b"
| "run_calls (c # cs) b = ebind (run_call c b) (run_calls cs)"

subsection \<open>The invariant\<close>

definition same_block :: "sancus_buffer \<Rightarrow> sancus_buffer \<Rightarrow> bool" where
  "same_block b b' \<longleftrightarrow> b_size b' = b_size b \<and> length (b_buf b') = length (b_buf b)"

lemma mem_put_length: "mem_put i x m = Inr m' \<Longrightarrow> length m' = length m"
  by (auto simp: mem_put_def chk_eq_Inr)

lemma typed_shorter:
  assumes "buf_wf b" "m \<le> b_len b" "length blk = length (b_buf b)"
  shows "buf_wf (b\<lparr>b_len := m, b_buf := blk\<rparr>)"
  using shorter_len(1) [OF assms(1,2)] assms(3) by (simp add: buf_wf_def)

lemma typed_longer:
  assumes "buf_wf b" "unat n \<le> room b" "length blk = length (b_buf b)"
  shows "buf_wf (b\<lparr>b_buf := blk, b_len := b_len b + n\<rparr>)"
proof -
  have f: "unat (b_base b) + unat (b_len b) + unat n \<le> unat (b_size b)"
    using assms(2) buf_wfD(1) [OF assms(1)] by (simp add: room_def)
  then have "unat (b_len b + n) = unat (b_len b) + unat n"
    using buf_wfD(3) [OF assms(1)] by (intro unat_plus_nat) simp
  then show ?thesis using f buf_wfD [OF assms(1)] assms(3) by (simp add: buf_wf_def)
qed

lemma small_count:
  assumes "buf_wf b" "0 \<le> k" "k \<le> int (room b)" shows "unat (word_of_int k :: u64) \<le> room b"
proof -
  have "nat k \<le> room b" using assms(2,3) by linarith
  then have "nat k < 2 ^ 64" using room_bound [OF assms(1)] by simp
  then have "unat (word_of_nat (nat k) :: u64) = nat k" by (intro unat_of_nat_small) simp
  then show ?thesis using assms by simp
qed

text \<open>Bytes stored behind the contents, and the length grown by no more than the room.\<close>

definition typed_as :: "sancus_buffer \<Rightarrow> sancus_buffer \<Rightarrow> bool" where
  "typed_as b b' \<longleftrightarrow> buf_wf b' \<and> same_block b b'"

lemma typed_grown:
  "buf_wf b \<Longrightarrow> 0 \<le> k \<Longrightarrow> k \<le> int (room b) \<Longrightarrow> length m = length (b_buf b) \<Longrightarrow>
   typed_as b (b\<lparr>b_buf := m, b_len := b_len b + word_of_int k\<rparr>)"
  using typed_longer small_count by (simp add: typed_as_def same_block_def)

lemma typed_block: "buf_wf b \<Longrightarrow> length m = length (b_buf b) \<Longrightarrow> typed_as b (b\<lparr>b_buf := m\<rparr>)"
  by (simp add: typed_as_def same_block_def buf_wf_def)

lemma typed_refl: "buf_wf b \<Longrightarrow> typed_as b b"
  by (simp add: typed_as_def same_block_def)

lemma strip_loop_count: "strip_loop many cs l ps c = Inr n \<Longrightarrow> n \<le> c + length ps"
  by (induction ps arbitrary: c) (auto simp: ebind_eq_Inr split: if_splits, fastforce)

lemma stripchar_typed:
  assumes "buf_wf b" "sancus_buffer__stripchar (Some b) many cs l = Inr (r, Some b')"
  shows "typed_as b b'"
proof -
  from assms(2) have "b' = b \<or> (\<exists>n. n \<le> unat (b_len b) \<and> b' = b\<lparr>b_len := b_len b - word_of_nat n\<rparr>)"
    using length_contents [OF assms(1)] contents_window [OF assms(1)]
    by (auto simp: sancus_buffer__stripchar_def ebind_eq_Inr dest!: strip_loop_count
        split: option.splits if_splits)
  then show ?thesis
    using shrink_len(1) [OF assms(1)] assms(1) length_contents [OF assms(1)] by (auto simp: typed_as_def same_block_def)
qed

lemma strip_typed:
  assumes "buf_wf b" "sancus_buffer_strip (Some b) s l = Inr (r, Some b')"
  shows "typed_as b b'"
proof -
  from assms(2) have "b' = b \<or> (\<exists>n m. n \<le> b_len b \<and> length m = length (b_buf b) \<and>
      b' = b\<lparr>b_len := b_len b - n, b_buf := m\<rparr>)"
    by (auto simp: sancus_buffer_strip_def ebind_eq_Inr Let_def dest: mem_put_length
        split: option.splits if_splits)
  moreover have "b_len b - n \<le> b_len b" if "n \<le> b_len b" for n
    using that by (simp add: word_le_nat_alt unat_minus_nat)
  ultimately show ?thesis using typed_shorter [OF assms(1)] assms(1) by (auto simp: typed_as_def same_block_def)
qed

lemma truncate_typed:
  assumes "buf_wf b" "sancus_buffer_truncate b n = Inr (r, b')"
  shows "typed_as b b'"
proof -
  let ?c = "if n < b_len b then b\<lparr>b_len := n\<rparr> else b"
  have "buf_wf ?c" using shorter_len(1) [OF assms(1), of n] assms(1) by auto
  moreover have "\<exists>m. length m = length (b_buf b) \<and>
      b' = (if b_len ?c = 0 then ?c\<lparr>b_base := 0\<rparr> else ?c)\<lparr>b_buf := m\<rparr>"
    using assms(2) unfolding sancus_buffer_truncate_def Let_def
    by (auto simp: ebind_eq_Inr dest!: mem_put_length split: if_splits)
  ultimately show ?thesis by (auto simp: typed_as_def buf_wf_def same_block_def split: if_splits)
qed

lemma stripn_typed:
  assumes "buf_wf b" "sancus_buffer_stripn b n = Inr (r, b')"
  shows "typed_as b b'"
proof -
  let ?c = "if n < b_len b then b\<lparr>b_len := b_len b - n\<rparr> else b\<lparr>b_base := 0, b_len := 0\<rparr>"
  have "b_len b - n \<le> b_len b" if "n < b_len b"
    using that by (simp add: word_le_nat_alt word_less_nat_alt unat_minus_nat)
  then have "buf_wf ?c" using shorter_len(1) [OF assms(1)] cleared [OF assms(1)] by simp
  moreover have "\<exists>m. length m = length (b_buf b) \<and> b' = ?c\<lparr>b_buf := m\<rparr>"
    using assms(2) unfolding sancus_buffer_stripn_def Let_def
    by (auto simp: ebind_eq_Inr dest!: mem_put_length split: if_splits)
  ultimately show ?thesis by (auto simp: typed_as_def buf_wf_def same_block_def split: if_splits)
qed

lemma sparse_typed:
  assumes "buf_wf b" "sancus_buffer_sparse (Some b) n = Inr (r, Some b')"
  shows "typed_as b b'"
  using assms typed_longer [OF assms(1), of n "b_buf b"] tail_size_room [OF assms(1)]
  by (auto simp: typed_as_def sancus_buffer_sparse_def sancus_buffer_tail_size_def same_block_def word_less_nat_alt
      split: if_splits)

lemma append_typed:
  assumes "buf_wf b" "sancus_buffer__append (Some b) t s l = Inr (r, Some b')"
  shows "typed_as b b'"
  using assms
  by (auto simp: sancus_buffer__append_def sancus_buffer_tail_size_def ebind_eq_Inr Let_def
      intro!: typed_refl typed_grown dest!: mem_put_length split: option.splits if_splits)

lemma vsnprintf_length: "vsnprintf p l out m = Inr (n, m') \<Longrightarrow> length m' = length m"
  by (auto simp: vsnprintf_def ebind_eq_Inr dest: mem_put_length split: option.splits)

lemma appendv_typed:
  assumes "buf_wf b" "sancus_buffer__appendv (Some b) t out = Inr (r, Some b')"
  shows "typed_as b b'"
  using assms
  by (auto simp: sancus_buffer__appendv_def sancus_buffer_tail_size_def ebind_eq_Inr Let_def
      simp del: of_int_diff intro!: typed_refl typed_block typed_grown
      dest!: mem_put_length vsnprintf_length split: if_splits)

lemma run_call_typed:
  assumes "buf_wf b" "run_call c b = Inr b'" shows "typed_as b b'"
  using assms
  by (cases c) (auto simp: on_some_def ebind_eq_Inr split: option.splits
      dest: stripchar_typed strip_typed truncate_typed stripn_typed sparse_typed append_typed appendv_typed)

lemma run_calls_typed:
  "buf_wf b \<Longrightarrow> run_calls cs b = Inr b' \<Longrightarrow> typed_as b b'"
proof (induction cs arbitrary: b)
  case (Cons c cs)
  then obtain b1 where "run_call c b = Inr b1" "run_calls cs b1 = Inr b'" by (auto simp: ebind_eq_Inr)
  with Cons show ?case using run_call_typed [of b c b1] by (auto simp: typed_as_def same_block_def)
qed (simp add: typed_refl)

subsection \<open>Properties\<close>

text \<open>
  C15. A buffer set up with \<open>sancus_buffer_init\<close> over a block at least as large as the size given keeps
  its type under every sequence of calls that does not fault: the stored bytes stay inside the
  declared size, that size and the block stay what they were, and the room and the contents add up to
  no more than the size.
\<close>

theorem buffer_keeps_type:
  assumes "sancus_buffer_init (Some b0) (Some mem) sz = (0, Some b)" "unat sz \<le> length mem"
    and "run_calls cs b = Inr b'"
  shows "buf_wf b' \<and> unat (b_size b') = unat sz \<and> length (b_buf b') = length mem \<and>
    length (contents b') + room b' \<le> unat sz"
proof -
  have b: "b = \<lparr>b_buf = mem, b_base = 0, b_len = 0, b_size = ucast sz\<rparr>" "sz \<noteq> 0"
    using assms(1) by (auto simp: sancus_buffer_init_def split: if_splits)
  have z: "unat sz < 2 ^ 63" using unat_bound [of sz] by simp
  then have u: "unat (ucast sz :: u64) = unat sz" by (simp add: unsigned_ucast_eq take_bit_nat_eq_self)
  have "buf_wf b" using b(1) z u assms(2) by (simp add: buf_wf_def)
  from run_calls_typed [OF this assms(3)] have t: "buf_wf b'" "same_block b b'"
    by (simp_all add: typed_as_def)
  then show ?thesis
    using b(1) u buf_wfD(1) [OF t(1)] length_contents [OF t(1)] by (simp add: same_block_def room_def)
qed

theorem buffer_keeps_type_witness:
  "\<exists>b'. run_calls [Append True (Some [1, 2, 3, 4, 5]) 5, Stripn 2, Appendv False (Some [7])]
     \<lparr>b_buf = [0, 0, 0, 0], b_base = 0, b_len = 0, b_size = 4\<rparr> = Inr b' \<and> buf_wf b' \<and> unat (b_size b') = 4"
proof -
  let ?b = "\<lparr>b_buf = [0, 0, 0, 0], b_base = 0, b_len = 0, b_size = 4\<rparr>"
  let ?cs = "[Append True (Some [1, 2, 3, 4, 5]) 5, Stripn 2, Appendv False (Some [7])]"
  have i: "sancus_buffer_init (Some ?b) (Some [0, 0, 0, 0]) 4 = (0, Some ?b)"
    by (simp add: sancus_buffer_init_def)
  have r: "run_calls ?cs ?b = Inr \<lparr>b_buf = [1, 2, 7, 0], b_base = 0, b_len = 3, b_size = 4\<rparr>"
    by code_simp
  from buffer_keeps_type [OF i _ r] r show ?thesis by simp
qed

end
