(* ===== verification/Kernel.thy ===== *)
theory Kernel
  imports Prelude
begin

text \<open>
  The operating system under the library: system calls and their answers. The kernel is not part of
  the sources, so its behaviour is an argument of every operation that calls it: the answers it will
  give, in order, of which each call takes the first. A call for which there is no answer yet blocks,
  and the operation is \<open>Waiting\<close>. The calls made and the answers given are recorded. The only thing
  assumed of an answer is what the manual pages promise: \<open>read\<close> and \<open>recvmsg\<close> store and \<open>write\<close> accepts no
  more bytes than the caller asked for. The number in an answer to \<open>recvmsg\<close> tells what the call stores
  besides the bytes: bit 0 is \<open>MSG_TRUNC\<close>, bit 1 that the sender's address has an unexpected length.
\<close>

subsection \<open>Calls and answers\<close>

datatype call =
    Close int
  | Read int nat
  | Write int "byte list"
  | Writev int "byte list list"
  | Openat int "byte list" int int
  | Fcntl_getfl int
  | Fcntl_setfl int int
  | Socket int int int
  | Accept int
  | Connect int "byte list"
  | Bind int "byte list"
  | Listen int int
  | Setsockopt int int
  | Getsockopt_error int
  | Unlink "byte list"
  | Tcgetattr int
  | Tcsetattr int "byte list"
  | Recvmsg int nat
  | Ptrace_traceme
  | Raise int

text \<open>An answer: a value that is not negative with the bytes it stores, or \<open>-1\<close> and \<open>errno\<close>.\<close>

datatype answer = Ret nat "byte list" | Err int

type_synonym event = "call \<times> answer"
type_synonym kernel = "answer list \<times> event list"

fun clip :: "call \<Rightarrow> answer \<Rightarrow> answer" where
  "clip (Read fd n) (Ret _ x) = Ret (length (take n x)) (take n x)"
| "clip (Write fd d) (Ret n _) = Ret (min n (length d)) []"
| "clip (Writev fd ds) (Ret n _) = Ret (min n (length (concat ds))) []"
| "clip (Close fd) (Ret _ _) = Ret 0 []"
| "clip (Recvmsg fd n) (Ret f x) = Ret f (take n x)"
| "clip c a = a"

lemma clip_Err [simp]: "clip c (Err e) = Err e"
  by (cases c) auto

subsection \<open>Operations that call the kernel\<close>

datatype 'a outcome = Done 'a | Waiting | Fault fault

type_synonym 'a sys = "kernel \<Rightarrow> 'a outcome \<times> kernel"

definition sret :: "'a \<Rightarrow> 'a sys" where
  "sret x k = (Done x, k)"

definition sbind :: "'a sys \<Rightarrow> ('a \<Rightarrow> 'b sys) \<Rightarrow> 'b sys" where
  "sbind m f k =
     (case m k of (Done x, k') \<Rightarrow> f x k' | (Waiting, k') \<Rightarrow> (Waiting, k') | (Fault e, k') \<Rightarrow> (Fault e, k'))"

definition sfault :: "fault \<Rightarrow> 'a sys" where
  "sfault e k = (Fault e, k)"

definition slift :: "'a exec \<Rightarrow> 'a sys" where
  "slift m k = (case m of Inr x \<Rightarrow> (Done x, k) | Inl e \<Rightarrow> (Fault e, k))"

definition syscall :: "call \<Rightarrow> answer sys" where
  "syscall c k =
     (case k of
        ([], tr) \<Rightarrow> (Waiting, ([], tr))
      | (a # as, tr) \<Rightarrow> (Done (clip c a), (as, tr @ [(c, clip c a)])))"

lemma sret_apply [simp, run_simps]: "sret x k = (Done x, k)"
  by (simp add: sret_def)

lemma sfault_apply [simp, run_simps]: "sfault e k = (Fault e, k)"
  by (simp add: sfault_def)

lemma slift_apply [simp, run_simps]:
  "slift (Inr x) k = (Done x, k)" "slift (Inl e) k = (Fault e, k)"
  by (simp_all add: slift_def)

lemma syscall_simps [simp, run_simps]:
  "syscall c ([], tr) = (Waiting, ([], tr))"
  "syscall c (a # as, tr) = (Done (clip c a), (as, tr @ [(c, clip c a)]))"
  by (simp_all add: syscall_def)

lemma sbind_simps [run_simps]:
  "m k = (Done x, k') \<Longrightarrow> sbind m f k = f x k'"
  "m k = (Waiting, k') \<Longrightarrow> sbind m f k = (Waiting, k')"
  "m k = (Fault e, k') \<Longrightarrow> sbind m f k = (Fault e, k')"
  by (simp_all add: sbind_def)

lemma fst_sbind:
  "fst (m k) = Waiting \<Longrightarrow> fst (sbind m f k) = Waiting"
  "fst (m k) = Fault e \<Longrightarrow> fst (sbind m f k) = Fault e"
  by (auto simp: sbind_def split: prod.splits)

lemma sbind_cong [fundef_cong]:
  assumes "m = m'" and "k = k'" and "\<And>x l. m' k' = (Done x, l) \<Longrightarrow> f x l = f' x l"
  shows "sbind m f k = sbind m' f' k'"
  using assms by (auto simp: sbind_def split: prod.splits outcome.splits)

lemma syscall_less [dest]: "syscall c k = (Done a, k') \<Longrightarrow> length (fst k') < length (fst k)"
  by (auto simp: syscall_def split: prod.splits list.splits)

lemma sbind_Done:
  "sbind m f k = (Done y, k') \<longleftrightarrow> (\<exists>x l. m k = (Done x, l) \<and> f x l = (Done y, k'))"
  by (auto simp: sbind_def split: prod.splits outcome.splits)

lemma syscall_Done:
  "syscall c k = (Done a, k') \<longleftrightarrow>
   (\<exists>b as. fst k = b # as \<and> a = clip c b \<and> k' = (as, snd k @ [(c, a)]))"
  by (cases k) (auto simp: syscall_def split: list.splits)

subsection \<open>What a trace says\<close>

text \<open>The bytes the kernel accepted on a descriptor, and the descriptors opened and closed.\<close>

fun accepted_bytes :: "int \<Rightarrow> event \<Rightarrow> byte list" where
  "accepted_bytes fd (Write fd' d, Ret n _) = (if fd = fd' then take n d else [])"
| "accepted_bytes fd (Writev fd' ds, Ret n _) = (if fd = fd' then take n (concat ds) else [])"
| "accepted_bytes fd _ = []"

definition written :: "int \<Rightarrow> event list \<Rightarrow> byte list" where
  "written fd tr = concat (map (accepted_bytes fd) tr)"

lemma written_simps [simp]:
  "written fd [] = []" "written fd (x @ y) = written fd x @ written fd y"
  "written fd (e # y) = accepted_bytes fd e @ written fd y"
  by (simp_all add: written_def)

lemma accepted_Err [simp]: "accepted_bytes fd (c, Err e) = []"
  by (cases c) auto

fun opened :: "event \<Rightarrow> int list" where
  "opened (Openat _ _ _ _, Ret n _) = [int n]"
| "opened (Socket _ _ _, Ret n _) = [int n]"
| "opened (Accept _, Ret n _) = [int n]"
| "opened _ = []"

text \<open>
  The calls of \<open>close\<close>, and those of them that were interrupted. On Linux \<open>close\<close> releases the descriptor
  before it can be interrupted, so that every call counts as one that closes, and a call made again after
  \<open>EINTR\<close> is one more on the same number.
\<close>

fun closed :: "event \<Rightarrow> int list" where
  "closed (Close fd, _) = [fd]"
| "closed _ = []"

fun interrupted_close :: "event \<Rightarrow> int list" where
  "interrupted_close (Close fd, Err e) = (if e = EINTR then [fd] else [])"
| "interrupted_close _ = []"

definition fds_opened :: "event list \<Rightarrow> int list" where
  "fds_opened tr = concat (map opened tr)"

definition fds_closed :: "event list \<Rightarrow> int list" where
  "fds_closed tr = concat (map closed tr)"

definition fds_again :: "event list \<Rightarrow> int list" where
  "fds_again tr = concat (map interrupted_close tr)"

lemma fds_simps [simp]:
  "fds_opened [] = []" "fds_closed [] = []" "fds_again [] = []"
  "fds_opened (x @ y) = fds_opened x @ fds_opened y" "fds_closed (x @ y) = fds_closed x @ fds_closed y"
  "fds_again (x @ y) = fds_again x @ fds_again y"
  "fds_opened (e # y) = opened e @ fds_opened y" "fds_closed (e # y) = closed e @ fds_closed y"
  "fds_again (e # y) = interrupted_close e @ fds_again y"
  by (simp_all add: fds_opened_def fds_closed_def fds_again_def)

lemma fds_replicate [simp]:
  "fds_opened (replicate n e) = concat (replicate n (opened e))"
  "fds_closed (replicate n e) = concat (replicate n (closed e))"
  "fds_again (replicate n e) = concat (replicate n (interrupted_close e))"
  by (simp_all add: fds_opened_def fds_closed_def fds_again_def)

lemma concat_singles [simp]: "concat (replicate n [x]) = replicate n x"
  by (induction n) simp_all

text \<open>The descriptors a trace leaves open: those it opened, but for those it gave to \<open>close\<close> afterwards.\<close>

definition hold :: "int list \<Rightarrow> event \<Rightarrow> int list" where
  "hold H e = filter (\<lambda>fd. fd \<notin> set (closed e)) H @ opened e"

definition left_open :: "event list \<Rightarrow> int list" where
  "left_open tr = foldl hold [] tr"

lemma hold_simps [simp]:
  "hold H (Close fd, a) = filter (\<lambda>x. x \<noteq> fd) H"
  by (auto simp: hold_def)

subsection \<open>Postconditions\<close>

text \<open>
  \<open>post m Q k\<close>: when \<open>m\<close> started in \<open>k\<close> returns, its result and the kernel satisfy \<open>Q\<close>. The rules
  in \<open>post_rules\<close> take a postcondition backwards through an operation.
\<close>

named_theorems post_rules

definition post :: "'a sys \<Rightarrow> ('a \<Rightarrow> kernel \<Rightarrow> bool) \<Rightarrow> kernel \<Rightarrow> bool" where
  "post m Q k \<longleftrightarrow> (\<forall>x k'. m k = (Done x, k') \<longrightarrow> Q x k')"

lemma post_Done: "post m Q k \<Longrightarrow> m k = (Done x, k') \<Longrightarrow> Q x k'"
  unfolding post_def by blast

lemma post_sret [simp]: "post (sret x) Q k \<longleftrightarrow> Q x k"
  by (cases k) (simp add: post_def)

lemma post_sfault [simp]: "post (sfault e) Q k"
  by (simp add: post_def)

lemma post_slift [simp]: "post (slift m) Q k \<longleftrightarrow> (\<forall>x. m = Inr x \<longrightarrow> Q x k)"
  by (cases m; cases k) (simp_all add: post_def)

lemma post_sbind [simp]: "post (sbind m f) Q k \<longleftrightarrow> post m (\<lambda>x. post (f x) Q) k"
  by (auto simp: post_def sbind_Done)

lemma post_mono: "post m P k \<Longrightarrow> (\<And>x l. P x l \<Longrightarrow> Q x l) \<Longrightarrow> post m Q k"
  by (simp add: post_def)

text \<open>
  The descriptors opened and closed so far, those whose \<open>close\<close> was interrupted and those held, and that the answers still to come have positive error
  numbers, as \<open>errno(3)\<close> says.
\<close>

definition opn :: "kernel \<Rightarrow> int list" where
  "opn k = fds_opened (snd k)"

definition cls :: "kernel \<Rightarrow> int list" where
  "cls k = fds_closed (snd k)"

definition again :: "kernel \<Rightarrow> int list" where
  "again k = fds_again (snd k)"

definition held :: "kernel \<Rightarrow> int list" where
  "held k = left_open (snd k)"

lemmas kernel_account = opn_def cls_def again_def held_def left_open_def

definition errno_ok :: "answer \<Rightarrow> bool" where
  "errno_ok a = (case a of Ret _ _ \<Rightarrow> True | Err e \<Rightarrow> 0 < e)"

definition kernel_ok :: "kernel \<Rightarrow> bool" where
  "kernel_ok k = list_all errno_ok (fst k)"

lemma errno_ok_Err [simp]: "errno_ok (Err e) \<longleftrightarrow> 0 < e" "errno_ok (Ret n x)"
  by (simp_all add: errno_ok_def)

lemma clip_is_Err: "clip c a = Err e \<Longrightarrow> a = Err e"
  by (cases "(c, a)" rule: clip.cases) auto

lemma errno_ok_clip: "errno_ok a \<Longrightarrow> errno_ok (clip c a)"
  using clip_is_Err [of c a] by (cases "clip c a") auto

lemma post_syscall:
  assumes "kernel_ok k"
    and "\<And>a k'. errno_ok a \<Longrightarrow> kernel_ok k' \<Longrightarrow> opn k' = opn k @ opened (c, a) \<Longrightarrow>
      cls k' = cls k @ closed (c, a) \<Longrightarrow> again k' = again k @ interrupted_close (c, a) \<Longrightarrow>
      held k' = hold (held k) (c, a) \<Longrightarrow> Q a k'"
  shows "post (syscall c) Q k"
  unfolding post_def syscall_Done
proof (intro allI impI, elim exE conjE)
  fix a k' b as
  assume "fst k = b # as" "a = clip c b" "k' = (as, snd k @ [(c, a)])"
  then show "Q a k'"
    using assms(1) by (intro assms(2)) (auto simp: kernel_account kernel_ok_def errno_ok_clip)
qed

text \<open>Calls that neither open nor close.\<close>

fun fd_neutral :: "call \<Rightarrow> bool" where
  "fd_neutral (Close _) = False"
| "fd_neutral (Openat _ _ _ _) = False"
| "fd_neutral (Socket _ _ _) = False"
| "fd_neutral (Accept _) = False"
| "fd_neutral _ = True"

text \<open>Two kernels with the same account of descriptors.\<close>

definition same_fds :: "kernel \<Rightarrow> kernel \<Rightarrow> bool" where
  "same_fds k k' \<longleftrightarrow> opn k' = opn k \<and> cls k' = cls k \<and> again k' = again k \<and> held k' = held k"

lemma same_fdsD:
  "same_fds k k' \<Longrightarrow> opn k' = opn k" "same_fds k k' \<Longrightarrow> cls k' = cls k"
  "same_fds k k' \<Longrightarrow> again k' = again k" "same_fds k k' \<Longrightarrow> held k' = held k"
  by (simp_all add: same_fds_def)

lemma same_fds_refl [simp]: "same_fds k k"
  by (simp add: same_fds_def)

lemma same_fds_trans [trans]: "same_fds k l \<Longrightarrow> same_fds l m \<Longrightarrow> same_fds k m"
  by (simp add: same_fds_def)

lemma post_neutral [post_rules]:
  assumes "fd_neutral c" and "kernel_ok k"
    and "\<And>a k'. errno_ok a \<Longrightarrow> kernel_ok k' \<Longrightarrow> same_fds k k' \<Longrightarrow> Q a k'"
  shows "post (syscall c) Q k"
proof -
  have "opened (c, a) = [] \<and> closed (c, a) = [] \<and> interrupted_close (c, a) = []" for a
    using assms(1) by (cases c) auto
  with assms(2,3) show ?thesis by (auto simp: same_fds_def hold_def intro!: post_syscall)
qed

subsection \<open>Wrappers that try again on EINTR\<close>

text \<open>
  The contract of an auto-retrying wrapper of one system call: the call is made again as long as it
  is interrupted by a signal, and the first other answer decides the result.
\<close>

locale retry =
  fixes op :: "'a sys" and c :: call and fin :: "answer \<Rightarrow> 'a"
  assumes step: "op k = sbind (syscall c) (\<lambda>a. if a = Err EINTR then op else sret (fin a)) k"
begin

lemma interrupted: "op (Err EINTR # as, tr) = op (as, tr @ [(c, Err EINTR)])"
  by (subst step) (simp add: sbind_simps(1))

lemma answered:
  "clip c a \<noteq> Err EINTR \<Longrightarrow> op (a # as, tr) = (Done (fin (clip c a)), (as, tr @ [(c, clip c a)]))"
  by (subst step) (simp add: sbind_simps(1))

lemma blocked: "op ([], tr) = (Waiting, ([], tr))"
  by (subst step) (simp add: sbind_simps(2))

lemma retries:
  "clip c a \<noteq> Err EINTR \<Longrightarrow> op (replicate n (Err EINTR) @ a # as, tr) =
     (Done (fin (clip c a)), (as, tr @ replicate n (c, Err EINTR) @ [(c, clip c a)]))"
  by (induction n arbitrary: tr) (simp_all add: interrupted answered)

lemma waits: "op (replicate n (Err EINTR), tr) = (Waiting, ([], tr @ replicate n (c, Err EINTR)))"
  by (induction n arbitrary: tr) (simp_all add: interrupted blocked)

text \<open>Every run is one of the two: it ends with the first answer that is not an interruption.\<close>

lemma runs:
  "(\<exists>n. s = replicate n (Err EINTR) \<and>
      op (s, tr) = (Waiting, ([], tr @ replicate n (c, Err EINTR)))) \<or>
   (\<exists>n a as. s = replicate n (Err EINTR) @ a # as \<and> clip c a \<noteq> Err EINTR \<and>
      op (s, tr) = (Done (fin (clip c a)), (as, tr @ replicate n (c, Err EINTR) @ [(c, clip c a)])))"
proof (induction s arbitrary: tr)
  case Nil
  then show ?case using waits [of 0] by (intro disjI1 exI [of _ 0]) simp
next
  case (Cons a s)
  show ?case
  proof (cases "clip c a = Err EINTR")
    case False
    then show ?thesis using retries [of a 0 s tr] by (intro disjI2 exI [of _ 0] exI) auto
  next
    case True
    then have a: "a = Err EINTR" by (cases "(c, a)" rule: clip.cases) auto
    from Cons.IH [of "tr @ [(c, Err EINTR)]"] show ?thesis
    proof (elim disjE exE conjE)
      fix n assume "s = replicate n (Err EINTR)"
      then show ?thesis using a waits [of "Suc n" tr] by (intro disjI1 exI [of _ "Suc n"]) simp
    next
      fix n b bs assume "s = replicate n (Err EINTR) @ b # bs" "clip c b \<noteq> Err EINTR"
      then show ?thesis using a retries [of b "Suc n" bs tr]
        by (intro disjI2 exI [of _ "Suc n"] exI [of _ b] exI [of _ bs]) simp
    qed
  qed
qed

lemma hold_retried: "foldl hold H (replicate n (c, Err EINTR) @ [(c, a)]) = hold H (c, a)"
  by (induction n arbitrary: H; cases c) (auto simp: hold_def)

lemma post_retry:
  assumes "kernel_ok k"
    and "\<And>a n k'. errno_ok a \<Longrightarrow> a \<noteq> Err EINTR \<Longrightarrow> kernel_ok k' \<Longrightarrow>
      opn k' = opn k @ concat (replicate n (opened (c, Err EINTR))) @ opened (c, a) \<Longrightarrow>
      cls k' = cls k @ concat (replicate n (closed (c, Err EINTR))) @ closed (c, a) \<Longrightarrow>
      again k' = again k @ concat (replicate n (interrupted_close (c, Err EINTR))) @ interrupted_close (c, a) \<Longrightarrow>
      held k' = hold (held k) (c, a) \<Longrightarrow> Q (fin a) k'"
  shows "post op Q k"
  unfolding post_def
proof (intro allI impI)
  fix x k' assume *: "op k = (Done x, k')"
  obtain s tr where k: "k = (s, tr)" by (cases k)
  with * runs [of s tr] obtain n a as where "s = replicate n (Err EINTR) @ a # as"
      "clip c a \<noteq> Err EINTR" "x = fin (clip c a)"
      "k' = (as, tr @ replicate n (c, Err EINTR) @ [(c, clip c a)])"
    by auto
  then show "Q x k'"
    using assms(1) k hold_retried [of _ n "clip c a"]
    by (auto intro!: assms(2) [where n = n] simp: kernel_account kernel_ok_def errno_ok_clip)
qed

end

end
