(* ===== verification/Fd.thy ===== *)
theory Fd
  imports Kernel
begin

text \<open>
  The descriptor wrappers of \<^verbatim>\<open>include/sancus/fd.h\<close>, \<^verbatim>\<open>src/sancus/fd.c\<close> and
  \<^verbatim>\<open>include/sancus/socket.h\<close>: calls that are made again after a signal, complete writes, and
  descriptors opened with close-on-exec and non-blocking flags.
\<close>

subsection \<open>Closing and reading\<close>

function sancus_close :: "int \<Rightarrow> int sys" where
  "sancus_close fd k =
     sbind (syscall (Close fd)) (\<lambda>a k.
       case a of
         Ret _ _ \<Rightarrow> sret 0 k
       | Err e \<Rightarrow> if e \<noteq> EINTR then sret (- e) k else sancus_close fd k) k"
  by pat_completeness auto
termination by (relation "measure (\<lambda>(fd, k). length (fst k))") auto

declare sancus_close.simps [simp del]

text \<open>The descriptor variable behind the pointer of \<open>sancus_close2\<close>; \<open>None\<close> is \<open>NULL\<close>.\<close>

definition sancus_close2 :: "int option \<Rightarrow> (int \<times> int option) sys" where
  "sancus_close2 p =
     (case p of
        None \<Rightarrow> sret (0, None)
      | Some fd \<Rightarrow> sbind (sancus_close fd) (\<lambda>rc. sret (rc, Some (-1))))"

text \<open>The result of \<open>read\<close> carries the bytes stored at the start of the caller's buffer.\<close>

function sancus_read :: "int \<Rightarrow> nat \<Rightarrow> (int \<times> byte list) sys" where
  "sancus_read fd count k =
     sbind (syscall (Read fd count)) (\<lambda>a k.
       case a of
         Ret n x \<Rightarrow> sret (int n, x) k
       | Err e \<Rightarrow> if e \<noteq> EINTR then sret (- e, []) k else sancus_read fd count k) k"
  by pat_completeness auto
termination by (relation "measure (\<lambda>(fd, n, k). length (fst k))") auto

declare sancus_read.simps [simp del]

subsection \<open>Writing\<close>

text \<open>The loop of \<open>sancus_write\<close>, with the bytes from \<open>data\<close> on that are left and the total so far.\<close>

function write_loop :: "int \<Rightarrow> byte list \<Rightarrow> int \<Rightarrow> int sys" where
  "write_loop fd data wt k =
     (if data = [] then sret wt k
      else sbind (syscall (Write fd data)) (\<lambda>a k.
        case a of
          Ret n _ \<Rightarrow>
            if n > 0 then write_loop fd (drop n data) (wt + int n) k else write_loop fd data wt k
        | Err e \<Rightarrow> if e \<noteq> EINTR then sret (- e) k else write_loop fd data wt k) k)"
  by pat_completeness auto
termination by (relation "measure (\<lambda>(fd, d, wt, k). length (fst k))") auto

declare write_loop.simps [simp del]

definition sancus_write :: "int \<Rightarrow> byte list \<Rightarrow> int sys" where
  "sancus_write fd data = write_loop fd data 0"

text \<open>An \<open>iovec\<close>: its base points into a block.\<close>

record iovec =
  iov_block :: "byte list"
  iov_off :: nat
  iov_len :: nat

definition iov_bytes :: "iovec \<Rightarrow> byte list exec" where
  "iov_bytes v = mem_get (iov_off v) (iov_len v) (iov_block v)"

fun iov_gather :: "iovec list \<Rightarrow> byte list list exec" where
  "iov_gather [] = Inr []"
| "iov_gather (v # vs) = ebind (iov_bytes v) (\<lambda>x. ebind (iov_gather vs) (\<lambda>xs. Inr (x # xs)))"

text \<open>
  The inner loop, over the \<open>n\<close> accepted bytes still to be consumed: the vectors left behind and the
  vectors from \<open>iov\<close> on. It advances the base of a partly written vector by \<open>wc\<close>, the whole count.
\<close>

fun iov_consume :: "nat \<Rightarrow> nat \<Rightarrow> iovec list \<Rightarrow> iovec list \<Rightarrow> (iovec list \<times> iovec list) exec" where
  "iov_consume wc n pre iov =
     (if n = 0 then Inr (pre, iov)
      else case iov of
        [] \<Rightarrow> Inl Bad_Access
      | v # vs \<Rightarrow>
          if n \<ge> iov_len v then iov_consume wc (n - iov_len v) (pre @ [v]) vs
          else Inr (pre, v\<lparr>iov_len := iov_len v - n, iov_off := iov_off v + wc\<rparr> # vs))"

declare iov_consume.simps [simp del]

function writev_loop :: "int \<Rightarrow> iovec list \<Rightarrow> iovec list \<Rightarrow> int \<Rightarrow> (int \<times> iovec list) sys" where
  "writev_loop fd pre iov wt k =
     (if iov = [] then sret (wt, pre @ iov) k
      else sbind (slift (iov_gather iov)) (\<lambda>ds k.
        sbind (syscall (Writev fd ds)) (\<lambda>a k.
          case a of
            Ret wc _ \<Rightarrow>
              if wc > 0 then
                (case iov_consume wc wc pre iov of
                   Inl e \<Rightarrow> sfault e k
                 | Inr (pre', iov') \<Rightarrow> writev_loop fd pre' iov' (wt + int wc) k)
              else writev_loop fd pre iov wt k
          | Err e \<Rightarrow> if e \<noteq> EINTR then sret (- e, pre @ iov) k else writev_loop fd pre iov wt k) k) k)"
  by pat_completeness auto
termination
  by (relation "measure (\<lambda>(fd, pre, iov, wt, k). length (fst k))")
    (auto simp: slift_def split: sum.splits)

declare writev_loop.simps [simp del]

text \<open>The result carries the caller's array, which the function changes.\<close>

definition sancus_writev :: "int \<Rightarrow> iovec list \<Rightarrow> int \<Rightarrow> (int \<times> iovec list) sys" where
  "sancus_writev fd iov iovcnt =
     (if iovcnt < 0 then sret (- EINVAL, iov)
      else if length iov < nat iovcnt then sfault Bad_Access
      else sbind (writev_loop fd [] (take (nat iovcnt) iov) 0) (\<lambda>(rc, vs).
        sret (rc, vs @ drop (nat iovcnt) iov)))"

subsection \<open>Opening\<close>

abbreviation (input) O_CLOEXEC :: int where "O_CLOEXEC \<equiv> 524288"
abbreviation (input) O_NONBLOCK :: int where "O_NONBLOCK \<equiv> 2048"
abbreviation (input) SOCK_CLOEXEC :: int where "SOCK_CLOEXEC \<equiv> 524288"
abbreviation (input) SOCK_NONBLOCK :: int where "SOCK_NONBLOCK \<equiv> 2048"
abbreviation (input) FD_CLOEXEC :: int where "FD_CLOEXEC \<equiv> 1"
abbreviation (input) AT_FDCWD :: int where "AT_FDCWD \<equiv> -100"

text \<open>The label \<open>open_retry\<close>: the descriptor, or \<open>-1\<close>.\<close>

function open_retry :: "int \<Rightarrow> byte list \<Rightarrow> int \<Rightarrow> int \<Rightarrow> int sys" where
  "open_retry dirfd pathname flags mode k =
     sbind (syscall (Openat dirfd pathname flags mode)) (\<lambda>a k.
       case a of
         Ret fd _ \<Rightarrow> sret (int fd) k
       | Err e \<Rightarrow> if e = EINTR then open_retry dirfd pathname flags mode k else sret (-1) k) k"
  by pat_completeness auto
termination by (relation "measure (\<lambda>(d, p, f, m, k). length (fst k))") auto

declare open_retry.simps [simp del]

text \<open>The label \<open>open_failed\<close>, with the \<open>errno\<close> it saves.\<close>

definition open_failed :: "int \<Rightarrow> int \<Rightarrow> int sys" where
  "open_failed fd e = sbind (sancus_close fd) (\<lambda>_. sret (- e))"

definition sancus__openat :: "int \<Rightarrow> byte list \<Rightarrow> int \<Rightarrow> bool \<Rightarrow> int \<Rightarrow> int sys" where
  "sancus__openat dirfd pathname flags cloexec mode =
     (let flags = (if cloexec then flags OR O_CLOEXEC else flags AND NOT O_CLOEXEC) in
      sbind (open_retry dirfd pathname flags mode) (\<lambda>fd.
        if fd < 0 then sret fd
        else if cloexec then
          sbind (syscall (Fcntl_getfl fd)) (\<lambda>a.
            case a of
              Err e \<Rightarrow> open_failed fd e
            | Ret fl _ \<Rightarrow>
                if int fl AND FD_CLOEXEC = 0 then
                  sbind (syscall (Fcntl_setfl fd (int fl OR FD_CLOEXEC))) (\<lambda>b.
                    case b of Err e \<Rightarrow> open_failed fd e | Ret _ _ \<Rightarrow> sret fd)
                else sret fd)
        else sret fd))"

definition sancus_openat :: "int \<Rightarrow> byte list \<Rightarrow> int \<Rightarrow> bool \<Rightarrow> int \<Rightarrow> int sys" where
  "sancus_openat dirfd pathname flags cloexec mode = sancus__openat dirfd pathname flags cloexec mode"

definition sancus_open :: "byte list \<Rightarrow> int \<Rightarrow> bool \<Rightarrow> int \<Rightarrow> int sys" where
  "sancus_open pathname flags cloexec mode = sancus__openat AT_FDCWD pathname flags cloexec mode"

subsection \<open>Sockets\<close>

text \<open>The label \<open>socket_failed\<close>: a plain \<open>close\<close>, whose answer is ignored.\<close>

definition socket_failed :: "int \<Rightarrow> int sys" where
  "socket_failed fd = sbind (syscall (Close fd)) (\<lambda>_. sret (-1))"

definition sancus_socket :: "int \<Rightarrow> int \<Rightarrow> int \<Rightarrow> bool \<Rightarrow> bool \<Rightarrow> int sys" where
  "sancus_socket family type protocol cloexec nonblock =
     (let type = (if cloexec then type OR SOCK_CLOEXEC else type AND NOT SOCK_CLOEXEC);
          type = (if nonblock then type OR SOCK_NONBLOCK else type AND NOT SOCK_NONBLOCK)
      in sbind (syscall (Socket family type protocol)) (\<lambda>a.
        case a of
          Err e \<Rightarrow> sret (-1)
        | Ret n _ \<Rightarrow>
            let fd = int n in
            if cloexec \<or> nonblock then
              sbind (syscall (Fcntl_getfl fd)) (\<lambda>b.
                case b of
                  Err e \<Rightarrow> socket_failed fd
                | Ret f _ \<Rightarrow>
                    let fl = int f;
                        fl2 = (if cloexec then fl OR FD_CLOEXEC else fl);
                        fl2 = (if nonblock then fl2 OR O_NONBLOCK else fl2)
                    in if fl \<noteq> fl2 then
                         sbind (syscall (Fcntl_setfl fd fl2)) (\<lambda>d.
                           case d of Err e \<Rightarrow> socket_failed fd | Ret _ _ \<Rightarrow> sret fd)
                       else sret fd)
            else socket_failed fd))"

text \<open>The peer address stored by \<open>accept\<close> is the second part of the result.\<close>

function sancus_accept :: "int \<Rightarrow> (int \<times> byte list) sys" where
  "sancus_accept fd k =
     sbind (syscall (Accept fd)) (\<lambda>a k.
       case a of
         Ret n sa \<Rightarrow> sret (int n, sa) k
       | Err e \<Rightarrow> if e = EINTR then sancus_accept fd k else sret (-1, []) k) k"
  by pat_completeness auto
termination by (relation "measure (\<lambda>(fd, k). length (fst k))") auto

declare sancus_accept.simps [simp del]

subsection \<open>The wrappers keep the retry contract\<close>

lemma sbind_ext: "(\<And>a l. f a l = g a l) \<Longrightarrow> sbind m f k = sbind m g k"
  by (rule sbind_cong) auto

definition close_result :: "answer \<Rightarrow> int" where
  "close_result a = (case a of Ret _ _ \<Rightarrow> 0 | Err e \<Rightarrow> - e)"

definition read_result :: "answer \<Rightarrow> int \<times> byte list" where
  "read_result a = (case a of Ret n x \<Rightarrow> (int n, x) | Err e \<Rightarrow> (- e, []))"

definition accept_result :: "answer \<Rightarrow> int \<times> byte list" where
  "accept_result a = (case a of Ret n x \<Rightarrow> (int n, x) | Err e \<Rightarrow> (-1, []))"

definition open_result :: "answer \<Rightarrow> int" where
  "open_result a = (case a of Ret n _ \<Rightarrow> int n | Err e \<Rightarrow> -1)"

interpretation rclose: retry "sancus_close fd" "Close fd" close_result for fd
  by unfold_locales
    (subst sancus_close.simps, rule sbind_ext, auto simp: close_result_def split: answer.split)

interpretation rread: retry "sancus_read fd n" "Read fd n" read_result for fd n
  by unfold_locales
    (subst sancus_read.simps, rule sbind_ext, auto simp: read_result_def split: answer.split)

interpretation raccept: retry "sancus_accept fd" "Accept fd" accept_result for fd
  by unfold_locales
    (subst sancus_accept.simps, rule sbind_ext, auto simp: accept_result_def split: answer.split)

interpretation ropen: retry "open_retry d p f m" "Openat d p f m" open_result for d p f m
  by unfold_locales
    (subst open_retry.simps, rule sbind_ext, auto simp: open_result_def split: answer.split)

text \<open>The calls of one \<open>sancus_close\<close>: interrupted \<open>n\<close> times, then answered.\<close>

definition closing :: "int \<Rightarrow> nat \<Rightarrow> answer \<Rightarrow> event list" where
  "closing fd n a = replicate n (Close fd, Err EINTR) @ [(Close fd, clip (Close fd) a)]"

lemma close_closing:
  assumes "a \<noteq> Err EINTR"
  shows "sancus_close fd (replicate n (Err EINTR) @ a # t, tr) = (Done (close_result (clip (Close fd) a)), (t, tr @ closing fd n a))"
proof -
  have "clip (Close fd) a \<noteq> Err EINTR" using assms by (cases a) simp_all
  from rclose.retries [OF this] show ?thesis by (simp add: closing_def)
qed

lemma closing_fds [simp]:
  "fds_closed (closing fd n a) = replicate (Suc n) fd" "fds_opened (closing fd n a) = []"
  by (cases a; simp add: closing_def replicate_append_same)+

lemmas retry_results = close_result_def read_result_def accept_result_def open_result_def

subsection \<open>Complete writes\<close>

text \<open>
  What a run of \<open>sancus_write\<close> leaves: the kernel accepted a prefix of the data, all of it when the
  result is a count, and the calls so far end in a fatal error or none at all otherwise.
\<close>

definition write_run :: "int \<Rightarrow> byte list \<Rightarrow> int \<Rightarrow> event list \<Rightarrow> int outcome \<times> kernel \<Rightarrow> bool" where
  "write_run fd data wt tr R \<longleftrightarrow>
     (\<exists>ev n. snd (snd R) = tr @ ev \<and> written fd ev = take n data \<and> n \<le> length data \<and>
       (case fst R of
          Done w \<Rightarrow> (n = length data \<and> w = wt + int (length data)) \<or>
            (n < length data \<and> (\<exists>e. e \<noteq> EINTR \<and> w = - e \<and> (\<exists>es d. ev = es @ [(Write fd d, Err e)])))
        | Waiting \<Rightarrow> n < length data \<and> fst (snd R) = []
        | Fault _ \<Rightarrow> False))"

lemma write_run_step:
  assumes "write_run fd (drop n data) (wt + int n) (tr @ [e]) R"
    and "n \<le> length data" and "accepted_bytes fd e = take n data"
  shows "write_run fd data wt tr R"
proof -
  obtain ev m where ev: "snd (snd R) = (tr @ [e]) @ ev"
      "written fd ev = take m (drop n data)" "m \<le> length (drop n data)"
      "case fst R of
          Done w \<Rightarrow> (m = length (drop n data) \<and> w = wt + int n + int (length (drop n data))) \<or>
            (m < length (drop n data) \<and>
              (\<exists>f. f \<noteq> EINTR \<and> w = - f \<and> (\<exists>es d. ev = es @ [(Write fd d, Err f)])))
        | Waiting \<Rightarrow> m < length (drop n data) \<and> fst (snd R) = []
        | Fault _ \<Rightarrow> False"
    using assms(1) by (auto simp: write_run_def)
  have w: "written fd (e # ev) = take (n + m) data"
    using ev(2) assms(3) by (simp add: take_add)
  show ?thesis
    unfolding write_run_def
    by (intro exI [of _ "e # ev"] exI [of _ "n + m"])
      (use ev w assms(2) in \<open>auto split: outcome.splits simp: Cons_eq_append_conv\<close>)
qed

lemma write_run_again:
  assumes "write_run fd data wt (tr @ [e]) R" and "accepted_bytes fd e = []"
  shows "write_run fd data wt tr R"
  using write_run_step [of fd 0 data wt tr e R] assms by simp

text \<open>One turn of the loop, for each answer.\<close>

lemma write_loop_turn:
  "write_loop fd [] wt k = (Done wt, k)"
  "d \<noteq> [] \<Longrightarrow> write_loop fd d wt ([], tr) = (Waiting, ([], tr))"
  "d \<noteq> [] \<Longrightarrow> write_loop fd d wt (Ret n x # s, tr) =
     write_loop fd (drop (min n (length d)) d) (wt + int (min n (length d)))
       (s, tr @ [(Write fd d, Ret (min n (length d)) [])])"
  "d \<noteq> [] \<Longrightarrow> write_loop fd d wt (Err e # s, tr) =
     (if e = EINTR then write_loop fd d wt (s, tr @ [(Write fd d, Err e)])
      else (Done (- e), (s, tr @ [(Write fd d, Err e)])))"
  by (subst write_loop.simps, simp add: sbind_simps)+

lemma write_loop_run: "write_run fd data wt tr (write_loop fd data wt (s, tr))"
proof (induction s arbitrary: data wt tr)
  case Nil
  then show ?case
    by (cases "data = []") (simp_all add: write_loop_turn(1,2) write_run_def exI [of _ 0])
next
  case (Cons a s)
  show ?case
  proof (cases "data = []")
    case True
    then show ?thesis by (simp add: write_loop_turn(1) write_run_def)
  next
    case False
    show ?thesis
    proof (cases a)
      case (Ret n x)
      have "write_run fd data wt tr
          (write_loop fd (drop (min n (length data)) data) (wt + int (min n (length data)))
            (s, tr @ [(Write fd data, Ret (min n (length data)) [])]))"
        by (rule write_run_step [OF Cons.IH]) simp_all
      then show ?thesis using Ret write_loop_turn(3) [OF False] by simp
    next
      case (Err e)
      have "write_run fd data wt tr (Done (- e), (s, tr @ [(Write fd data, Err e)]))" if "e \<noteq> EINTR"
        unfolding write_run_def
        by (intro exI [of _ "[(Write fd data, Err e)]"] exI [of _ 0]) (use that False in auto)
      then show ?thesis
        using Err write_loop_turn(4) [OF False] write_run_again [OF Cons.IH, of "(Write fd data, Err e)"]
        by (cases "e = EINTR") simp_all
    qed
  qed
qed

text \<open>An answer that accepts bytes; as many of them as there are bytes finish the write.\<close>

fun progress :: "answer \<Rightarrow> bool" where
  "progress (Ret n _) = (n > 0)"
| "progress (Err _) = False"

lemma write_loop_ends:
  assumes "length data \<le> length (filter progress s)" and "\<And>e. Err e \<in> set s \<Longrightarrow> e = EINTR"
  shows "\<exists>k'. write_loop fd data wt (s, tr) = (Done (wt + int (length data)), k') \<and>
    written fd (snd k') = written fd tr @ data"
  using assms
proof (induction s arbitrary: data wt tr)
  case Nil
  then show ?case by (subst write_loop.simps) simp
next
  case (Cons a s)
  show ?case
  proof (cases "data = []")
    case True
    then show ?thesis by (subst write_loop.simps) simp
  next
    case False
    note * = Cons.IH [of "drop n data" "wt + int n" tr' for n tr'] Cons.IH [of data wt tr' for tr']
    show ?thesis
    proof (cases a)
      case (Ret n x)
      let ?n = "min n (length data)"
      have "length (drop ?n data) \<le> length (filter progress s)"
        using Cons.prems(1) Ret False by (auto split: if_splits simp: min_def Suc_le_eq)
      moreover have "n = 0 \<Longrightarrow> length data \<le> length (filter progress s)"
        using Cons.prems(1) Ret by simp
      moreover have "wt + int ?n + int (length (drop ?n data)) = wt + int (length data)" by simp
      ultimately show ?thesis
        using *(1) [of ?n "tr @ [(Write fd data, Ret ?n [])]"] *(2) [of "tr @ [(Write fd data, Ret ?n [])]"] Cons.prems(2) Ret False
        by (subst write_loop.simps) (auto simp: sbind_simps(1) min_def split: if_splits simp del: length_drop)
    next
      case (Err e)
      then show ?thesis
        using *(2) [of "tr @ [(Write fd data, a)]"] Cons.prems False by (subst write_loop.simps) (auto simp: sbind_simps(1))
    qed
  qed
qed

subsection \<open>Descriptors opened and closed\<close>

lemma post_close [post_rules]:
  assumes "kernel_ok k"
    and "\<And>rc n k'. kernel_ok k' \<Longrightarrow> opn k' = opn k \<Longrightarrow> cls k' = cls k @ replicate (Suc n) fd \<Longrightarrow>
      again k' = again k @ replicate n fd \<Longrightarrow> held k' = filter (\<lambda>x. x \<noteq> fd) (held k) \<Longrightarrow> Q rc k'"
  shows "post (sancus_close fd) Q k"
  using assms(1)
proof (rule rclose.post_retry)
  fix a n k'
  assume "a \<noteq> Err EINTR" "kernel_ok k'" "opn k' = opn k @ concat (replicate n (opened (Close fd, Err EINTR))) @ opened (Close fd, a)"
    "cls k' = cls k @ concat (replicate n (closed (Close fd, Err EINTR))) @ closed (Close fd, a)"
    "again k' = again k @ concat (replicate n (interrupted_close (Close fd, Err EINTR))) @ interrupted_close (Close fd, a)"
    "held k' = hold (held k) (Close fd, a)"
  then show "Q (close_result a) k'"
    by (cases a) (auto intro!: assms(2) [where n = n] simp: replicate_append_same)
qed

lemma post_open_retry [post_rules]:
  assumes "kernel_ok k"
    and "\<And>fd k'. -1 \<le> fd \<Longrightarrow> kernel_ok k' \<Longrightarrow> opn k' = opn k @ (if fd < 0 then [] else [fd]) \<Longrightarrow>
      cls k' = cls k \<Longrightarrow> again k' = again k \<Longrightarrow> held k' = held k @ (if fd < 0 then [] else [fd]) \<Longrightarrow> Q fd k'"
  shows "post (open_retry d p f m) Q k"
  using assms(1)
proof (rule ropen.post_retry)
  fix a n k'
  assume "kernel_ok k'" "opn k' = opn k @ concat (replicate n (opened (Openat d p f m, Err EINTR))) @ opened (Openat d p f m, a)"
    "cls k' = cls k @ concat (replicate n (closed (Openat d p f m, Err EINTR))) @ closed (Openat d p f m, a)"
    "again k' = again k @ concat (replicate n (interrupted_close (Openat d p f m, Err EINTR))) @ interrupted_close (Openat d p f m, a)"
    "held k' = hold (held k) (Openat d p f m, a)"
  then show "Q (open_result a) k'" by (cases a) (auto intro!: assms(2) simp: open_result_def hold_def)
qed

lemma post_accept:
  assumes "kernel_ok k"
    and "\<And>e k'. kernel_ok k' \<Longrightarrow> same_fds k k' \<Longrightarrow> Q (-1, []) k'"
    and "\<And>n x k'. kernel_ok k' \<Longrightarrow> opn k' = opn k @ [int n] \<Longrightarrow> cls k' = cls k \<Longrightarrow> again k' = again k \<Longrightarrow>
      held k' = held k @ [int n] \<Longrightarrow> Q (int n, x) k'"
  shows "post (sancus_accept fd) Q k"
  using assms(1)
proof (rule raccept.post_retry)
  fix a n k'
  assume "kernel_ok k'" "opn k' = opn k @ concat (replicate n (opened (Accept fd, Err EINTR))) @ opened (Accept fd, a)"
    "cls k' = cls k @ concat (replicate n (closed (Accept fd, Err EINTR))) @ closed (Accept fd, a)"
    "again k' = again k @ concat (replicate n (interrupted_close (Accept fd, Err EINTR))) @ interrupted_close (Accept fd, a)"
    "held k' = hold (held k) (Accept fd, a)"
  then show "Q (accept_result a) k'"
    by (cases a) (auto intro!: assms(2,3) simp: accept_result_def hold_def same_fds_def)
qed

text \<open>
  A descriptor that is returned is the one left open, and when none is returned none is left open; only
  descriptors that were opened have been given to \<open>close\<close>.
\<close>

definition owned :: "int \<Rightarrow> kernel \<Rightarrow> bool" where
  "owned fd k \<longleftrightarrow> kernel_ok k \<and> set (cls k) \<subseteq> set (opn k) \<and> held k = (if fd < 0 then [] else [fd])"

lemma owned_none: "owned (-1) k \<Longrightarrow> 0 < e \<Longrightarrow> owned (- e) k"
  by (simp add: owned_def)

lemma owned_same: "owned fd k \<Longrightarrow> kernel_ok k' \<Longrightarrow> same_fds k k' \<Longrightarrow> owned fd k'"
  by (simp add: owned_def same_fds_def)

lemma owned_start: "list_all errno_ok s \<Longrightarrow> owned (-1) (s, [])"
  by (simp add: owned_def kernel_ok_def kernel_account)

text \<open>A descriptor that is held has been opened, so closing it keeps the account.\<close>

lemma held_opened: "set (held k) \<subseteq> set (opn k)"
proof -
  have "set (foldl hold H tr) \<subseteq> set H \<union> set (fds_opened tr)" for H tr
    by (induction tr arbitrary: H) (fastforce simp: hold_def)+
  from this [of "[]"] show ?thesis by (simp add: kernel_account)
qed

lemma owned_closed:
  assumes "owned fd k" "0 \<le> fd" "kernel_ok l" "opn l = opn k" "cls l = cls k @ replicate n fd"
    "held l = filter (\<lambda>x. x \<noteq> fd) (held k)"
  shows "owned (-1) l"
  using assms held_opened [of k] by (auto simp: owned_def)

lemma post_close_owned:
  assumes "owned fd k" "0 \<le> fd" and "\<And>rc l. owned (-1) l \<Longrightarrow> Q rc l"
  shows "post (sancus_close fd) Q k"
proof (rule post_close)
  show "kernel_ok k" using assms(1) by (simp add: owned_def)
  fix rc n l
  assume "kernel_ok l" "opn l = opn k" "cls l = cls k @ replicate (Suc n) fd" "held l = filter (\<lambda>x. x \<noteq> fd) (held k)"
  then show "Q rc l" using owned_closed [OF assms(1,2)] assms(3) by blast
qed

lemma post_owned:
  assumes "fd_neutral c" "owned fd k" and "\<And>a l. errno_ok a \<Longrightarrow> owned fd l \<Longrightarrow> Q a l"
  shows "post (syscall c) Q k"
proof (rule post_neutral [OF assms(1)])
  show "kernel_ok k" using assms(2) by (simp add: owned_def)
qed (rule assms(3), simp, rule owned_same [OF assms(2)])

lemma openat_owned:
  assumes "owned (-1) k"
  shows "post (sancus__openat d p f c m) owned k"
  unfolding sancus__openat_def Let_def open_failed_def post_sbind
proof (rule post_open_retry)
  show "kernel_ok k" using assms by (simp add: owned_def)
  fix fd l
  assume l: "-1 \<le> fd" "kernel_ok l" "opn l = opn k @ (if fd < 0 then [] else [fd])" "cls l = cls k"
    "held l = held k @ (if fd < 0 then [] else [fd])"
  then have "owned fd l" using assms by (auto simp: owned_def)
  then show "post (if fd < 0 then sret fd
      else if c then sbind (syscall (Fcntl_getfl fd)) (\<lambda>a.
        case a of
          Err e \<Rightarrow> sbind (sancus_close fd) (\<lambda>_. sret (- e))
        | Ret fl _ \<Rightarrow>
            if int fl AND FD_CLOEXEC = 0 then
              sbind (syscall (Fcntl_setfl fd (int fl OR FD_CLOEXEC))) (\<lambda>b.
                case b of Err e \<Rightarrow> sbind (sancus_close fd) (\<lambda>_. sret (- e)) | Ret _ _ \<Rightarrow> sret fd)
            else sret fd)
      else sret fd) owned l"
    by (auto split: answer.split intro!: post_owned [where fd = fd] post_close_owned [where fd = fd] owned_none)
qed

text \<open>
  What \<open>sancus_socket\<close> leaves: a descriptor is returned only when one of the two flags was asked for;
  otherwise the one that was opened has been given to \<open>close\<close>.
\<close>

definition socket_left :: "bool \<Rightarrow> int \<Rightarrow> kernel \<Rightarrow> bool" where
  "socket_left flags fd k \<longleftrightarrow> owned fd k \<and> (if 0 \<le> fd then flags else fd = -1)"

lemma socket_failed_left:
  assumes "owned n k" "0 \<le> n"
  shows "post (socket_failed n) (socket_left c) k"
  unfolding socket_failed_def post_sbind
proof (rule post_syscall)
  show "kernel_ok k" using assms(1) by (simp add: owned_def)
  fix a l
  assume "kernel_ok l" "opn l = opn k @ opened (Close n, a)" "cls l = cls k @ closed (Close n, a)" "held l = hold (held k) (Close n, a)"
  then show "post (sret (-1)) (socket_left c) l"
    using owned_closed [OF assms, of l 1] by (simp add: socket_left_def)
qed

lemma socket_owned:
  assumes "owned (-1) k"
  shows "post (sancus_socket f t p c nb) (socket_left (c \<or> nb)) k"
proof -
  have start: "post (syscall (Socket f t' p)) Q k"
    if "\<And>n x l. owned (int n) l \<Longrightarrow> Q (Ret n x) l" "\<And>e l. owned (-1) l \<Longrightarrow> Q (Err e) l" for Q t'
  proof (rule post_syscall)
    show "kernel_ok k" using assms by (simp add: owned_def)
    fix a l
    assume "kernel_ok l" "opn l = opn k @ opened (Socket f t' p, a)" "cls l = cls k @ closed (Socket f t' p, a)"
      "held l = hold (held k) (Socket f t' p, a)"
    then show "Q a l" using assms by (cases a) (auto intro!: that simp: owned_def [of _ l] owned_def [of _ k] hold_def)
  qed
  show ?thesis
    unfolding sancus_socket_def Let_def post_sbind
    by (rule start) (auto split: answer.split intro!: post_owned [where fd = "int _"] socket_failed_left simp: socket_left_def)
qed

subsection \<open>Vectors\<close>

text \<open>One turn of the loop, for each answer.\<close>

lemma writev_loop_turn:
  assumes "iov \<noteq> []" and "iov_gather iov = Inr ds"
  shows "writev_loop fd pre iov wt ([], tr) = (Waiting, ([], tr))"
    and "wc = min n (length (concat ds)) \<Longrightarrow> writev_loop fd pre iov wt (Ret n x # s, tr) =
      (let k = (s, tr @ [(Writev fd ds, Ret wc [])]) in
       if wc > 0 then
         (case iov_consume wc wc pre iov of
            Inl e \<Rightarrow> (Fault e, k)
          | Inr (pre', iov') \<Rightarrow> writev_loop fd pre' iov' (wt + int wc) k)
       else writev_loop fd pre iov wt k)"
    and "writev_loop fd pre iov wt (Err e # s, tr) =
      (if e = EINTR then writev_loop fd pre iov wt (s, tr @ [(Writev fd ds, Err e)])
       else (Done (- e, pre @ iov), (s, tr @ [(Writev fd ds, Err e)])))"
  using assms by (subst writev_loop.simps, simp add: sbind_simps Let_def split: sum.split)+

text \<open>Two runs with the same result that hand the same bytes to the kernel.\<close>

definition same_run ::
  "int \<Rightarrow> event list \<Rightarrow> event list \<Rightarrow> (int \<times> iovec list) outcome \<times> kernel \<Rightarrow> int outcome \<times> kernel \<Rightarrow> bool" where
  "same_run fd tr tr' R R' \<longleftrightarrow>
     (case fst R of
        Done r \<Rightarrow> fst R' = Done (fst r) | Waiting \<Rightarrow> fst R' = Waiting | Fault e \<Rightarrow> False) \<and>
     (\<exists>ev ev'. snd (snd R) = tr @ ev \<and> snd (snd R') = tr' @ ev' \<and> written fd ev = written fd ev')"

lemma same_run_step:
  assumes "same_run fd (tr @ [e]) (tr' @ [e']) R R'" and "accepted_bytes fd e = accepted_bytes fd e'"
  shows "same_run fd tr tr' R R'"
proof -
  from assms(1) obtain ev ev' where "snd (snd R) = tr @ e # ev" "snd (snd R') = tr' @ e' # ev'"
      "written fd (e # ev) = written fd (e' # ev')"
    using assms(2) by (auto simp: same_run_def)
  with assms(1) show ?thesis unfolding same_run_def by blast
qed

text \<open>With one vector the accepted count and the count to consume are the same number.\<close>

lemma writev_single_turn:
  assumes "iov_gather [v] = Inr [data]" and "data \<noteq> []" and "iov_len v = length data" and "m = min n (length data)"
  shows "writev_loop fd [] [v] wt (Ret n x # s, tr) =
    (if m = 0 then writev_loop fd [] [v] wt (s, tr @ [(Writev fd [data], Ret m [])])
     else if m = length data then (Done (wt + int m, [v]), (s, tr @ [(Writev fd [data], Ret m [])]))
     else writev_loop fd [] [v\<lparr>iov_len := iov_len v - m, iov_off := iov_off v + m\<rparr>] (wt + int m)
       (s, tr @ [(Writev fd [data], Ret m [])]))"
proof -
  have e: "writev_loop fd [v] [] w k = (Done (w, [v]), k)" for w k by (cases k) (subst writev_loop.simps, simp)
  show ?thesis
    using assms writev_loop_turn(2) [OF _ assms(1), of m n fd "[]" wt x s tr]
    by (simp add: Let_def iov_consume.simps e)
qed

lemma window_rest:
  "take (length data) (drop p blk) = data \<Longrightarrow> take (length (drop m data)) (drop (p + m) blk) = drop m data"
  by (metis add.commute drop_drop drop_take length_drop)

lemma writev_single_Ret:
  assumes g: "iov_gather [v] = Inr [data]" and "data \<noteq> []" and "iov_len v = length data"
    and again: "same_run fd tr tr'
      (writev_loop fd [] [v] wt (s, tr @ [(Writev fd [data], Ret 0 [])])) (write_loop fd data wt (s, tr' @ [(Write fd data, Ret 0 [])]))"
    and rest: "\<And>m. m \<noteq> 0 \<Longrightarrow> m < length data \<Longrightarrow> same_run fd tr tr'
      (writev_loop fd [] [v\<lparr>iov_len := iov_len v - m, iov_off := iov_off v + m\<rparr>] (wt + int m)
        (s, tr @ [(Writev fd [data], Ret m [])]))
      (write_loop fd (drop m data) (wt + int m) (s, tr' @ [(Write fd data, Ret m [])]))"
  shows "same_run fd tr tr' (writev_loop fd [] [v] wt (Ret n x # s, tr)) (write_loop fd data wt (Ret n x # s, tr'))"
proof -
  let ?m = "min n (length data)"
  have wl: "write_loop fd data wt (Ret n x # s, tr') =
      write_loop fd (drop ?m data) (wt + int ?m) (s, tr' @ [(Write fd data, Ret ?m [])])"
    using assms(2) by (simp add: write_loop_turn(3))
  note wv = writev_single_turn [OF g assms(2,3) refl, of fd wt n x s tr]
  consider "?m = 0" | "?m \<noteq> 0" "?m = length data" | "?m \<noteq> 0" "?m < length data" by linarith
  then show ?thesis
  proof cases
    case 1
    then show ?thesis unfolding wl wv 1 using again by simp
  next
    case 2
    then show ?thesis unfolding wl wv 2(2) by (simp add: write_loop_turn(1) same_run_def)
  next
    case 3
    then show ?thesis unfolding wl wv using rest [OF 3] by (simp only: if_False less_imp_neq)
  qed
qed

lemma writev_single:
  assumes "iov_off v + length data \<le> length (iov_block v)"
    and "take (length data) (drop (iov_off v) (iov_block v)) = data" and "data \<noteq> []"
    and "iov_len v = length data"
  shows "same_run fd tr tr' (writev_loop fd [] [v] wt (s, tr)) (write_loop fd data wt (s, tr'))"
  using assms
proof (induction s arbitrary: v data wt tr tr')
  case Nil
  then have g: "iov_gather [v] = Inr [data]" by (simp add: iov_bytes_def)
  show ?case
    using Nil.prems(3) by (simp add: writev_loop_turn(1) [OF _ g] write_loop_turn(2) same_run_def)
next
  case (Cons a s)
  have g: "iov_gather [v] = Inr [data]" using Cons.prems by (simp add: iov_bytes_def)
  note again = same_run_step [OF Cons.IH [OF Cons.prems]]
  show ?case
  proof (cases a)
    case (Err e)
    have "same_run fd tr tr' (Done (- e, [v]), (s, tr @ [(Writev fd [data], Err e)]))
        (Done (- e), (s, tr' @ [(Write fd data, Err e)]))"
      by (simp add: same_run_def)
    then show ?thesis
      using Err Cons.prems(3) again by (auto simp: writev_loop_turn(3) [OF _ g] write_loop_turn(4))
  next
    case (Ret n x)
    show ?thesis
      unfolding Ret
    proof (rule writev_single_Ret [OF g Cons.prems(3,4)])
      fix m :: nat assume "m \<noteq> 0" "m < length data"
      then show "same_run fd tr tr' (writev_loop fd [] [v\<lparr>iov_len := iov_len v - m, iov_off := iov_off v + m\<rparr>]
          (wt + int m) (s, tr @ [(Writev fd [data], Ret m [])]))
          (write_loop fd (drop m data) (wt + int m) (s, tr' @ [(Write fd data, Ret m [])]))"
        using Cons.prems(1,4) window_rest [OF Cons.prems(2), of m] by (intro same_run_step [OF Cons.IH]) auto
    qed (rule again, simp)
  qed
qed

text \<open>Vectors that are all empty: \<open>writev\<close> has nothing to accept and the count never falls.\<close>

lemma gather_empty:
  "list_all (\<lambda>v. iov_len v = 0 \<and> iov_off v \<le> length (iov_block v)) iov \<Longrightarrow>
   iov_gather iov = Inr (replicate (length iov) [])"
  by (induction iov) (auto simp: iov_bytes_def)

lemma writev_loop_empty:
  assumes "list_all (\<lambda>v. iov_len v = 0 \<and> iov_off v \<le> length (iov_block v)) iov" and "iov \<noteq> []"
    and "list_all (\<lambda>a. \<forall>e. a = Err e \<longrightarrow> e = EINTR) s"
  shows "fst (writev_loop fd pre iov wt (s, tr)) = Waiting"
  using assms(3)
proof (induction s arbitrary: tr)
  case Nil
  show ?case by (simp add: writev_loop_turn(1) [OF assms(2) gather_empty [OF assms(1)]])
next
  case (Cons a s)
  note turn = writev_loop_turn [OF assms(2) gather_empty [OF assms(1)]]
  have "concat (replicate (length iov) []) = ([] :: byte list)" by simp
  with Cons show ?case by (cases a) (simp_all add: turn(2) [OF refl] turn(3))
qed

subsection \<open>Properties\<close>

text \<open>
  The retrying wrappers: interrupted any number of times, \<open>sancus_close\<close>, \<open>sancus_read\<close> and
  \<open>sancus_accept\<close> make the same call again and return what the first other answer says: zero, the
  count with the bytes read (never more than asked for), the new descriptor, or the error.
\<close>

theorem wrappers_retry:
  "sancus_close fd (replicate n (Err EINTR) @ Ret m y # s, tr) =
     (Done 0, (s, tr @ replicate n (Close fd, Err EINTR) @ [(Close fd, Ret 0 [])])) \<and>
   sancus_read fd count (replicate n (Err EINTR) @ Ret m y # s, tr) =
     (Done (int (length (take count y)), take count y),
       (s, tr @ replicate n (Read fd count, Err EINTR) @
         [(Read fd count, Ret (length (take count y)) (take count y))])) \<and>
   sancus_accept fd (replicate n (Err EINTR) @ Ret m y # s, tr) =
     (Done (int m, y), (s, tr @ replicate n (Accept fd, Err EINTR) @ [(Accept fd, Ret m y)])) \<and>
   (e \<noteq> EINTR \<longrightarrow>
     fst (sancus_close fd (replicate n (Err EINTR) @ Err e # s, tr)) = Done (- e) \<and>
     fst (sancus_read fd count (replicate n (Err EINTR) @ Err e # s, tr)) = Done (- e, []) \<and>
     fst (sancus_accept fd (replicate n (Err EINTR) @ Err e # s, tr)) = Done (-1, []))"
  using rclose.retries [of fd "Ret m y" n s tr] rclose.retries [of fd "Err e" n s tr]
    rread.retries [of fd count "Ret m y" n s tr] rread.retries [of fd count "Err e" n s tr]
    raccept.retries [of fd "Ret m y" n s tr] raccept.retries [of fd "Err e" n s tr]
  by (simp add: retry_results)

theorem wrappers_retry_witness:
  "fst (sancus_read 3 2 ([Err EINTR, Err EAGAIN], [])) = Done (- EAGAIN, []) \<and>
   fst (sancus_read 3 2 ([Err EINTR, Ret 4 [7, 8, 9, 9]], [])) = Done (2, [7, 8])"
  using wrappers_retry [of 3 1 0 "[]" "[]" "[]" 2 EAGAIN] wrappers_retry [of 3 1 4 "[7, 8, 9, 9]" "[]" "[]" 2 0]
  by simp

text \<open>
  C20. \<open>sancus_write\<close> on every sequence of answers: the kernel has accepted a prefix of the data in
  order, nothing twice and nothing left out; the result is the length of the data exactly when all
  of it was accepted, and otherwise the negated error of the last call.
\<close>

theorem write_accepts_prefix:
  "\<exists>n \<le> length data. written fd (snd (snd (sancus_write fd data (s, [])))) = take n data \<and>
     (case fst (sancus_write fd data (s, [])) of
        Done w \<Rightarrow> (n = length data \<and> w = int (length data)) \<or>
          (n < length data \<and> (\<exists>e es d. e \<noteq> EINTR \<and> w = - e \<and>
             snd (snd (sancus_write fd data (s, []))) = es @ [(Write fd d, Err e)]))
      | Waiting \<Rightarrow> n < length data \<and> fst (snd (sancus_write fd data (s, []))) = []
      | Fault _ \<Rightarrow> False)"
proof -
  let ?R = "write_loop fd data 0 (s, [])"
  from write_loop_run [of fd data 0 "[]" s] obtain ev n where
    "snd (snd ?R) = ev" "written fd ev = take n data" "n \<le> length data"
    and "case fst ?R of
          Done w \<Rightarrow> (n = length data \<and> w = 0 + int (length data)) \<or>
            (n < length data \<and> (\<exists>e. e \<noteq> EINTR \<and> w = - e \<and> (\<exists>es d. ev = es @ [(Write fd d, Err e)])))
        | Waiting \<Rightarrow> n < length data \<and> fst (snd ?R) = []
        | Fault _ \<Rightarrow> False"
    by (auto simp: write_run_def)
  then show ?thesis
    unfolding sancus_write_def
    by (intro exI [of _ n] conjI) (auto split: outcome.splits)
qed

text \<open>
  C21. \<open>sancus_write\<close> returns: interruptions apart, once the kernel has given as many answers that
  accept at least one byte as there are bytes, everything is written.
\<close>

theorem write_completes:
  assumes "length data \<le> length (filter progress s)"
    and "list_all (\<lambda>a. \<forall>e. a = Err e \<longrightarrow> e = EINTR) s"
  shows "fst (sancus_write fd data (s, tr)) = Done (int (length data))"
  using write_loop_ends [OF assms(1), of fd 0 tr] assms(2)
  by (auto simp: sancus_write_def list_all_iff)

theorem write_completes_witness:
  "fst (sancus_write 5 [1, 2, 3] ([Ret 1 [], Err EINTR, Ret 0 [], Ret 9 [], Ret 1 []], [])) = Done 3"
  using write_completes [of "[1, 2, 3]" "[Ret 1 [], Err EINTR, Ret 0 [], Ret 9 [], Ret 1 []]" 5 "[]"]
  by simp

text \<open>
  \<open>sancus_writev\<close> with one vector that is not empty behaves as \<open>sancus_write\<close> on its bytes: for
  every sequence of answers the result is the same and the same bytes reach the kernel.
\<close>

theorem writev_one_vector:
  assumes "iov_bytes v = Inr data" and "data \<noteq> []"
  shows "same_run fd tr tr (sancus_writev fd [v] 1 (s, tr)) (sancus_write fd data (s, tr))"
proof -
  have "iov_off v + iov_len v \<le> length (iov_block v)"
      "data = take (iov_len v) (drop (iov_off v) (iov_block v))"
    using assms(1) by (auto simp: iov_bytes_def mem_get_def chk_eq_Inr)
  then have "iov_len v = length data" "iov_off v + length data \<le> length (iov_block v)"
      "take (length data) (drop (iov_off v) (iov_block v)) = data"
    by (auto simp: min_absorb2)
  then have "same_run fd tr tr (writev_loop fd [] [v] 0 (s, tr)) (write_loop fd data 0 (s, tr))"
    using assms(2) by (intro writev_single) auto
  moreover have "sancus_writev fd [v] 1 (s, tr) = writev_loop fd [] [v] 0 (s, tr)"
    by (cases "writev_loop fd [] [v] 0 (s, tr)")
      (auto simp: sancus_writev_def sbind_def split: outcome.split)
  ultimately show ?thesis by (simp add: sancus_write_def)
qed

theorem writev_one_vector_witness:
  "same_run 5 [] [] (sancus_writev 5 [\<lparr>iov_block = [9, 1, 2, 3], iov_off = 1, iov_len = 3\<rparr>] 1 ([Ret 2 [], Ret 1 []], []))
     (sancus_write 5 [1, 2, 3] ([Ret 2 [], Ret 1 []], []))"
  by (rule writev_one_vector) (simp_all add: iov_bytes_def)

text \<open>
  C38. \<open>sancus_writev\<close> with a second vector: when the kernel accepts the whole first vector and \<open>j\<close>
  bytes of the second, the base of the second moves by the whole count instead of \<open>j\<close>. When the
  second vector ends where its block ends, which is the hypothesis of this claim, the next call reads
  past the block.
\<close>

theorem writev_short_write_fault:
  assumes "iov_bytes u = Inr x" and "iov_bytes v = Inr y" and "x \<noteq> []" and "0 < j" and "j < length y"
    and "iov_off v + iov_len v = length (iov_block v)"
  shows "iov_consume (length x + j) (length x + j) [] [u, v] =
      Inr ([u], [v\<lparr>iov_len := iov_len v - j, iov_off := iov_off v + (length x + j)\<rparr>]) \<and>
    fst (sancus_writev fd [u, v] 2 (Ret (length x + j) [] # s, tr)) = Fault Bad_Access"
proof -
  let ?v = "v\<lparr>iov_len := iov_len v - j, iov_off := iov_off v + (length x + j)\<rparr>"
  have u: "iov_len u = length x" and v: "iov_len v = length y"
    using assms(1,2) by (auto simp: iov_bytes_def mem_get_def chk_eq_Inr)
  have c: "iov_consume (length x + j) (length x + j) [] [u, v] = Inr ([u], [?v])"
    using assms(4,5) u v by (simp add: iov_consume.simps)
  have "0 < length x" using assms(3) by simp
  then have "length (iov_block v) < iov_off v + (length x + j) + (iov_len v - j)"
    using assms(5,6) v by linarith
  then have bad: "iov_bytes ?v = Inl Bad_Access"
    by (simp add: iov_bytes_def)
  have "iov_gather [u, v] = Inr [x, y]" using assms(1,2) by simp
  from writev_loop_turn(2) [OF _ this, of "length x + j" "length x + j" fd "[]" 0 "[]" s tr] assms(4,5)
  have "writev_loop fd [] [u, v] 0 (Ret (length x + j) [] # s, tr) =
      writev_loop fd [u] [?v] (int (length x + j)) (s, tr @ [(Writev fd [x, y], Ret (length x + j) [])])"
    by (simp add: Let_def c)
  moreover have "fst (writev_loop fd [u] [?v] w k) = Fault Bad_Access" for w k
    by (subst writev_loop.simps) (simp add: sbind_def bad)
  ultimately have "fst (writev_loop fd [] [u, v] 0 (Ret (length x + j) [] # s, tr)) = Fault Bad_Access"
    by simp
  then show ?thesis using c by (simp add: sancus_writev_def fst_sbind(2))
qed

theorem writev_short_write_fault_witness:
  "fst (sancus_writev 1 [\<lparr>iov_block = [1, 2], iov_off = 0, iov_len = 2\<rparr>,
      \<lparr>iov_block = [3, 4], iov_off = 0, iov_len = 2\<rparr>] 2 ([Ret 3 [], Ret 1 []], [])) = Fault Bad_Access"
  using writev_short_write_fault [of "\<lparr>iov_block = [1, 2], iov_off = 0, iov_len = 2\<rparr>" "[1, 2]"
      "\<lparr>iov_block = [3, 4], iov_off = 0, iov_len = 2\<rparr>" "[3, 4]" 1 1 "[Ret 1 []]" "[]"]
  by (simp add: iov_bytes_def numeral_3_eq_3)

text \<open>
  \<open>sancus_writev\<close> of vectors that are all empty does not return: whatever the kernel answers,
  fatal errors apart, the loop goes on to the next call.
\<close>

theorem writev_empty_never_returns:
  assumes "list_all (\<lambda>v. iov_len v = 0 \<and> iov_off v \<le> length (iov_block v)) iov" and "iov \<noteq> []"
    and "list_all (\<lambda>a. \<forall>e. a = Err e \<longrightarrow> e = EINTR) s"
  shows "fst (sancus_writev fd iov (int (length iov)) (s, tr)) = Waiting"
  using writev_loop_empty [OF assms, of fd "[]" 0 tr]
  by (simp add: sancus_writev_def fst_sbind(1))

theorem writev_empty_never_returns_witness:
  "fst (sancus_writev 1 [\<lparr>iov_block = [], iov_off = 0, iov_len = 0\<rparr>] 1 ([Ret 0 [], Err EINTR, Ret 7 []], [])) =
     Waiting"
  using writev_empty_never_returns [of "[\<lparr>iov_block = [], iov_off = 0, iov_len = 0\<rparr>]"
      "[Ret 0 [], Err EINTR, Ret 7 []]" 1 "[]"] by simp

text \<open>
  No descriptor is lost: when \<open>sancus_open\<close> or \<open>sancus_openat\<close> returns a descriptor it is the one
  opened and it is open; when it returns an error everything it opened has been closed.
\<close>

theorem open_owns_descriptor:
  assumes "list_all errno_ok s" and "sancus_openat d p f c m (s, []) = (Done fd, k')"
  shows "owned fd k'"
  using post_Done [OF openat_owned [OF owned_start [OF assms(1)]]] assms(2) by (simp add: sancus_openat_def)

theorem open_owns_descriptor_witness:
  "list_all errno_ok [Err EINTR, Ret 7 [], Err EINVAL, Ret 0 []] \<and>
   held ([], [(Openat 3 [47] 524288 0, Err EINTR), (Openat 3 [47] 524288 0, Ret 7 []),
     (Fcntl_getfl 7, Err EINVAL), (Close 7, Ret 0 [])]) = []"
proof -
  have "sancus_openat 3 [47] 0 True 0 ([Err EINTR, Ret 7 [], Err EINVAL, Ret 0 []], []) =
      (Done (- EINVAL), ([], [(Openat 3 [47] 524288 0, Err EINTR), (Openat 3 [47] 524288 0, Ret 7 []),
        (Fcntl_getfl 7, Err EINVAL), (Close 7, Ret 0 [])]))"
    by (simp add: sancus_openat_def sancus__openat_def open_failed_def sbind_def ropen.interrupted
        ropen.answered rclose.answered open_result_def close_result_def)
  from open_owns_descriptor [OF _ this] show ?thesis by (simp add: owned_def)
qed

text \<open>
  \<open>sancus_socket\<close>: a descriptor is returned only when close-on-exec or non-blocking was asked for,
  and it is open then. In every other case the result is \<open>-1\<close> and the socket that was made has been
  given to \<open>close\<close> again; so a plain socket cannot be had.
\<close>

theorem socket_needs_flag:
  assumes "list_all errno_ok s" and "sancus_socket family type protocol c nb (s, []) = (Done fd, k')"
  shows "socket_left (c \<or> nb) fd k'"
  using post_Done [OF socket_owned [OF owned_start [OF assms(1)]] assms(2)] .

theorem socket_needs_flag_witness:
  "socket_left False (-1) ([], [(Socket 2 1 0, Ret 6 []), (Close 6, Ret 0 [])])"
proof -
  have "sancus_socket 2 1 0 False False ([Ret 6 [], Ret 0 []], []) =
      (Done (-1), ([], [(Socket 2 1 0, Ret 6 []), (Close 6, Ret 0 [])]))"
    by (simp add: sancus_socket_def socket_failed_def sbind_def Let_def)
  from socket_needs_flag [OF _ this] show ?thesis by simp
qed

subsection \<open>One call that takes everything\<close>

text \<open>A call that takes everything leaves no vector, when the last one is not empty.\<close>

lemma gather_last_pos:
  "iov_gather (us @ [v]) = Inr ds \<Longrightarrow> 0 < iov_len v \<Longrightarrow> 0 < length (concat ds)"
  by (induction us arbitrary: ds) (fastforce simp: ebind_eq_Inr iov_bytes_def mem_get_def chk_eq_Inr)+

lemma consume_all:
  assumes "iov_gather (us @ [v]) = Inr ds" and "0 < iov_len v"
  shows "iov_consume wc (length (concat ds)) pre (us @ [v]) = Inr (pre @ us @ [v], [])"
  using assms
proof (induction us arbitrary: pre ds)
  case Nil
  then have "length (concat ds) = iov_len v" by (auto simp: ebind_eq_Inr iov_bytes_def mem_get_def chk_eq_Inr)
  with Nil.prems(2) show ?case by (simp add: iov_consume.simps)
next
  case (Cons u us)
  then obtain x xs where x: "iov_bytes u = Inr x" "iov_gather (us @ [v]) = Inr xs" "ds = x # xs"
    by (auto simp: ebind_eq_Inr)
  then have l: "length x = iov_len u" by (auto simp: iov_bytes_def mem_get_def chk_eq_Inr)
  have "0 < length (concat xs)" using gather_last_pos [OF x(2) Cons.prems(2)] .
  then show ?case using Cons.IH [OF x(2), of "pre @ [u]"] Cons.prems(2) x(3) l
    by (subst iov_consume.simps) simp
qed

lemma writev_whole:
  assumes "iov_gather (us @ [v]) = Inr ds" and "0 < iov_len v" and "length (concat ds) \<le> n"
  shows "writev_loop fd [] (us @ [v]) 0 (replicate m (Err EINTR) @ Ret n x # s, tr) =
    (Done (int (length (concat ds)), us @ [v]),
     (s, tr @ replicate m (Writev fd ds, Err EINTR) @ [(Writev fd ds, Ret (length (concat ds)) [])]))"
proof (induction m arbitrary: tr)
  case 0
  have "min n (length (concat ds)) = length (concat ds)" using assms(3) by simp
  moreover have "0 < length (concat ds)" using gather_last_pos [OF assms(1,2)] .
  ultimately show ?case
    using writev_loop_turn(2) [OF _ assms(1), of "length (concat ds)" n fd "[]" 0 x s tr]
      consume_all [OF assms(1,2), of "length (concat ds)" "[]"]
    by (simp add: Let_def writev_loop.simps [of fd "us @ [v]"])
next
  case (Suc m)
  then show ?case using writev_loop_turn(3) [OF _ assms(1), of fd "[]" 0 EINTR] by simp
qed

end
