(* ===== verification/Buffer_Legacy.thy ===== *)
theory Buffer_Legacy
  imports Buffer Fd
begin

text \<open>
  The input buffer of \<^verbatim>\<open>include/sancus/buffer_legacy.h\<close> and \<^verbatim>\<open>src/sancus/buffer_legacy.c\<close>, which
  the stream and netlink readers fill from a descriptor and consume from the front. Its structure has
  the fields of \<open>sancus_buffer\<close> in the same order, so the record, its well-formedness and its contents
  are those of theory \<open>Buffer\<close>. Functions whose name the newer buffer also uses carry the suffix
  \<open>_legacy\<close>.
\<close>

subsection \<open>Operations\<close>

text \<open>\<open>bind\<close>: the whole structure is overwritten, the size cut to \<open>unsigned\<close>.\<close>

definition sancus_buffer_bind :: "byte list option \<Rightarrow> u64 \<Rightarrow> sancus_buffer exec" where
  "sancus_buffer_bind buf sz =
     chk Assert_Fail ((buf \<noteq> None \<and> sz > 0) \<or> (buf = None \<and> sz = 0))
       (Inr \<lparr>b_buf = (case buf of Some m \<Rightarrow> m | None \<Rightarrow> []), b_base = 0, b_len = 0,
             b_size = ucast (ucast sz :: u32)\<rparr>)"

definition sancus_buffer_available :: "sancus_buffer \<Rightarrow> u64" where
  "sancus_buffer_available b = b_size b - b_base b - b_len b"

definition sancus_buffer_len_legacy :: "sancus_buffer \<Rightarrow> u64" where
  "sancus_buffer_len_legacy b = b_len b"

definition sancus_buffer_data :: "sancus_buffer \<Rightarrow> nat" where
  "sancus_buffer_data b = unat (b_base b)"

text \<open>The bytes \<open>read\<close> stores go behind the data; the count is cut to \<open>unsigned\<close>.\<close>

definition sancus_buffer_read :: "sancus_buffer \<Rightarrow> int \<Rightarrow> (int \<times> sancus_buffer) sys" where
  "sancus_buffer_read b fd =
     sbind (sancus_read fd (unat (sancus_buffer_available b))) (\<lambda>(l, x).
     sbind (slift (mem_put (sancus_buffer_data b + unat (sancus_buffer_len_legacy b)) x (b_buf b))) (\<lambda>m.
       sret (l, if l > 0 then b\<lparr>b_buf := m, b_len := b_len b + ucast (word_of_int l :: u32)\<rparr>
                else b\<lparr>b_buf := m\<rparr>)))"

definition sancus_buffer_rebase :: "sancus_buffer \<Rightarrow> sancus_buffer exec" where
  "sancus_buffer_rebase b =
     (if b_base b > 0 then
        ebind (if b_len b > 0 then
                 ebind (mem_get (unat (b_base b)) (unat (b_len b)) (b_buf b)) (\<lambda>x. mem_put 0 x (b_buf b))
               else Inr (b_buf b)) (\<lambda>m.
          Inr (b\<lparr>b_buf := m, b_base := 0\<rparr>))
      else Inr b)"

definition sancus_buffer_reset_legacy :: "sancus_buffer \<Rightarrow> sancus_buffer" where
  "sancus_buffer_reset_legacy b = b\<lparr>b_base := 0, b_len := 0\<rparr>"

definition sancus_buffer_skip :: "sancus_buffer \<Rightarrow> u64 \<Rightarrow> (u64 \<times> sancus_buffer) exec" where
  "sancus_buffer_skip b step =
     (if step \<ge> b_len b then
        (let b = sancus_buffer_reset_legacy b in Inr (b_size b, b))
      else
        (let b = (if step > 0 then b\<lparr>b_base := b_base b + step, b_len := b_len b - step\<rparr> else b) in
         ebind (if sancus_buffer_available b < b_size b div 10 then sancus_buffer_rebase b else Inr b) (\<lambda>b.
           Inr (sancus_buffer_available b, b))))"

subsection \<open>Moving and dropping data\<close>

lemma available_room: "buf_wf b \<Longrightarrow> unat (sancus_buffer_available b) = room b"
  by (simp add: sancus_buffer_available_def tail_size_room)

lemma rebase_contents:
  assumes "buf_wf b"
  shows "\<exists>b'. sancus_buffer_rebase b = Inr b' \<and> buf_wf b' \<and> contents b' = contents b \<and>
      b_base b' = 0 \<and> b_len b' = b_len b \<and> b_size b' = b_size b"
proof -
  note wf = buf_wfD [OF assms]
  have fit: "length (contents b) \<le> length (b_buf b)"
    using wf length_contents [OF assms] by simp
  let ?m = "if b_len b > 0 then overwrite 0 (contents b) (b_buf b) else b_buf b"
  have "take (unat (b_len b)) ?m = contents b"
    using fit length_contents [OF assms] window_overwrite_same [of 0 "contents b" "b_buf b"]
    by (cases "b_len b = 0") (auto simp: word_gt_0)
  then have "contents (b\<lparr>b_buf := ?m, b_base := 0\<rparr>) = contents b"
    by (simp add: contents_def)
  moreover have "buf_wf (b\<lparr>b_buf := ?m, b_base := 0\<rparr>)"
    using wf fit by (simp add: buf_wf_def)
  moreover have "b_base b > 0 \<Longrightarrow> sancus_buffer_rebase b = Inr (b\<lparr>b_buf := ?m, b_base := 0\<rparr>)"
    using contents_window [OF assms] fit by (simp add: sancus_buffer_rebase_def)
  moreover have "\<not> b_base b > 0 \<Longrightarrow> sancus_buffer_rebase b = Inr b \<and> b_base b = 0"
    by (simp add: sancus_buffer_rebase_def word_gt_0)
  ultimately show ?thesis using assms by (cases "b_base b > 0") auto
qed

lemma drop_front:
  assumes "buf_wf b" and "n < b_len b"
  defines "b' \<equiv> b\<lparr>b_base := b_base b + n, b_len := b_len b - n\<rparr>"
  shows "buf_wf b'" and "contents b' = drop (unat n) (contents b)" and "b_size b' = b_size b"
    and "unat (b_base b') = unat (b_base b) + unat n" and "room b' = room b"
proof -
  note wf = buf_wfD [OF assms(1)]
  have n: "unat n < unat (b_len b)" using assms(2) by (simp add: word_less_nat_alt)
  have l: "unat (b_len b - n) = unat (b_len b) - unat n" using n by (simp add: unat_minus_nat)
  have p: "unat (b_base b + n) = unat (b_base b) + unat n"
    using n wf by (intro unat_plus_nat) simp
  show "buf_wf b'" using wf n l p by (simp add: b'_def buf_wf_def)
  show "contents b' = drop (unat n) (contents b)"
    using l p by (simp add: b'_def contents_def drop_take add.commute)
  show "b_size b' = b_size b" "unat (b_base b') = unat (b_base b) + unat n"
    using p by (simp_all add: b'_def)
  show "room b' = room b" using l p n wf by (simp add: b'_def room_def)
qed

lemma skip_spec:
  assumes "buf_wf b"
  shows "\<exists>r b'. sancus_buffer_skip b n = Inr (r, b') \<and> buf_wf b' \<and>
      contents b' = drop (unat n) (contents b) \<and> unat r = room b' \<and> b_size b' = b_size b \<and>
      (b_base b' = 0 \<or> unat (b_size b) div 10 \<le> room b')"
proof (cases "n \<ge> b_len b")
  case True
  then have "drop (unat n) (contents b) = []"
    using length_contents [OF assms] by (simp add: word_le_nat_alt)
  moreover have "buf_wf (b\<lparr>b_base := 0, b_len := 0\<rparr>)" by (rule cleared [OF assms])
  ultimately show ?thesis
    using True
    by (auto simp: sancus_buffer_skip_def sancus_buffer_reset_legacy_def contents_def room_def)
next
  case False
  let ?c = "if n > 0 then b\<lparr>b_base := b_base b + n, b_len := b_len b - n\<rparr> else b"
  have c: "buf_wf ?c" "contents ?c = drop (unat n) (contents b)" "b_size ?c = b_size b"
    using drop_front [OF assms, of n] False assms by (auto simp: not_le word_gt_0)
  have ten: "unat (b_size b div 10) = unat (b_size b) div 10" by (simp add: unat_div)
  show ?thesis
  proof (cases "sancus_buffer_available ?c < b_size ?c div 10")
    case True
    obtain b' where b': "sancus_buffer_rebase ?c = Inr b'" "buf_wf b'" "contents b' = contents ?c"
        "b_base b' = 0" "b_size b' = b_size ?c"
      using rebase_contents [OF c(1)] by blast
    then have "sancus_buffer_skip b n = Inr (sancus_buffer_available b', b')"
      using False True by (simp add: sancus_buffer_skip_def Let_def)
    with b' c available_room [OF b'(2)] show ?thesis by auto
  next
    case no: False
    then have "sancus_buffer_skip b n = Inr (sancus_buffer_available ?c, ?c)"
      using False by (simp add: sancus_buffer_skip_def Let_def)
    moreover have "unat (b_size b) div 10 \<le> room ?c"
      using no available_room [OF c(1)] c(3) ten by (simp only: not_less word_le_nat_alt)
    ultimately show ?thesis using c available_room [OF c(1)] by blast
  qed
qed

lemma cast_u32:
  assumes "n < 2 ^ 32"
  shows "ucast (word_of_nat n :: u32) = (word_of_nat n :: u64)"
proof -
  have "unat (word_of_nat n :: u32) = n" using assms by (intro unat_of_nat_small) simp
  then show ?thesis by (metis of_nat_unat)
qed

lemma read_exact:
  fixes x :: "byte list"
  assumes "buf_wf b" and "room b < 2 ^ 32"
  defines "y \<equiv> take (room b) x"
  shows "sancus_buffer_read b fd (replicate n (Err EINTR) @ Ret m x # s, tr) =
      (Done (int (length y),
        b\<lparr>b_buf := overwrite (unat (b_base b) + unat (b_len b)) y (b_buf b), b_len := b_len b + word_of_nat (length y)\<rparr>),
       (s, tr @ replicate n (Read fd (room b), Err EINTR) @ [(Read fd (room b), Ret (length y) y)]))"
proof -
  have len: "length y \<le> room b" by (simp add: y_def)
  have cast: "ucast (word_of_nat (length y) :: u32) = (word_of_nat (length y) :: u64)"
    using len assms(2) by (intro cast_u32) linarith
  show ?thesis
    using rread.retries [of fd "room b" "Ret m x" n s tr] tail_fits [OF assms(1)] cast unfolding y_def
    by (auto simp: sancus_buffer_read_def sbind_def read_result_def sancus_buffer_data_def
        sancus_buffer_len_legacy_def available_room [OF assms(1)])
qed

lemma read_spec:
  assumes "buf_wf b" and "room b < 2 ^ 32"
  shows "\<exists>b'. sancus_buffer_read b fd (replicate n (Err EINTR) @ Ret m x # s, tr) =
      (Done (int (length (take (room b) x)), b'),
       (s, tr @ replicate n (Read fd (room b), Err EINTR) @
         [(Read fd (room b), Ret (length (take (room b) x)) (take (room b) x))])) \<and>
      buf_wf b' \<and> contents b' = contents b @ take (room b) x \<and> b_size b' = b_size b"
  using read_exact [OF assms] grow_len [OF assms(1) _ refl, of "take (room b) x"] by auto

text \<open>Skipping writes inside the block only.\<close>

lemma skip_block:
  assumes "buf_wf b" "sancus_buffer_skip b n = Inr (r, b')"
  shows "length (b_buf b') = length (b_buf b)"
proof -
  have re: "sancus_buffer_rebase c = Inr c' \<Longrightarrow> length (b_buf c') = length (b_buf c)" for c c'
    by (auto simp: sancus_buffer_rebase_def mem_put_def chk_eq_Inr ebind_eq_Inr split: if_splits)
  show ?thesis
    using assms(2) by (auto simp: sancus_buffer_skip_def sancus_buffer_reset_legacy_def Let_def ebind_eq_Inr split: if_splits dest!: re)
qed

lemma read_error:
  assumes "buf_wf b" and "e \<noteq> EINTR" and "0 < e"
  shows "sancus_buffer_read b fd (replicate n (Err EINTR) @ Err e # s, tr) =
      (Done (- e, b), (s, tr @ replicate n (Read fd (room b), Err EINTR) @ [(Read fd (room b), Err e)]))"
  using rread.retries [of fd "room b" "Err e" n s tr] tail_fits [OF assms(1)] assms(2,3)
  by (simp add: sancus_buffer_read_def sbind_def read_result_def sancus_buffer_data_def
        sancus_buffer_len_legacy_def available_room [OF assms(1)])

text \<open>The length falls with every skip of at least one byte, also of a buffer that is not well-formed.\<close>

lemma rebase_len: "sancus_buffer_rebase b = Inr b' \<Longrightarrow> b_len b' = b_len b"
  by (auto simp: sancus_buffer_rebase_def ebind_eq_Inr split: if_splits)

lemma skip_shorter:
  assumes "sancus_buffer_skip b n = Inr (r, b')" and "n \<noteq> 0" and "b_len b \<noteq> 0"
  shows "unat (b_len b') < unat (b_len b)"
proof (cases "n \<ge> b_len b")
  case True
  with assms show ?thesis
    by (auto simp: sancus_buffer_skip_def sancus_buffer_reset_legacy_def unat_gt_0)
next
  case False
  have "b_len b' = b_len b - n"
    using assms False
    by (auto simp: sancus_buffer_skip_def Let_def ebind_eq_Inr word_gt_0 split: if_splits
        dest: rebase_len)
  moreover have "unat n < unat (b_len b)" "0 < unat n"
    using False assms(2) by (simp_all add: not_le word_less_nat_alt unat_gt_0)
  ultimately show ?thesis by (simp add: unat_minus_nat)
qed

subsection \<open>The contract of an input queue\<close>

text \<open>What the readers rely on: skipping takes bytes off the front and never fails.\<close>

locale input_queue =
  fixes wf :: "'b \<Rightarrow> bool" and data :: "'b \<Rightarrow> byte list" and skip :: "'b \<Rightarrow> u64 \<Rightarrow> (u64 \<times> 'b) exec"
  assumes skip_front: "wf b \<Longrightarrow> \<exists>r b'. skip b n = Inr (r, b') \<and> wf b' \<and> data b' = drop (unat n) (data b)"
begin

fun skip_all :: "'b \<Rightarrow> u64 list \<Rightarrow> 'b exec" where
  "skip_all b [] = Inr b"
| "skip_all b (n # ns) = ebind (skip b n) (\<lambda>(_, b'). skip_all b' ns)"

lemma skip_all_front:
  "wf b \<Longrightarrow> \<exists>b'. skip_all b ns = Inr b' \<and> wf b' \<and> data b' = drop (sum_list (map unat ns)) (data b)"
proof (induction ns arbitrary: b)
  case (Cons n ns)
  obtain r b1 where "skip b n = Inr (r, b1)" "wf b1" "data b1 = drop (unat n) (data b)"
    using skip_front [OF Cons.prems] by blast
  with Cons.IH [of b1] show ?case by (auto simp: add.commute)
qed auto

end

interpretation iq: input_queue buf_wf contents sancus_buffer_skip
  using skip_spec by unfold_locales blast

subsection \<open>Properties\<close>

text \<open>
  C22. The input buffer is a queue. The bytes a \<open>read\<close> delivers, after any number of interruptions and never
  more than there is room for, go behind the data: the calls are exactly those of the read, of the block
  only the bytes behind the data are written, and of the fields only the length changes. A read that fails
  leaves the buffer as it was. \<open>sancus_buffer_skip\<close> takes the oldest bytes off and never fails, also when it
  moves the rest to the front of the block; the declared size and the length of the block are kept.
\<close>

theorem input_buffer_queue:
  fixes x :: "byte list"
  assumes "buf_wf b" and "room b < 2 ^ 32" and "e \<noteq> EINTR" and "0 < e"
  defines "p \<equiv> unat (b_base b) + unat (b_len b)" and "y \<equiv> take (room b) x"
  shows "\<exists>b1 r b2.
    sancus_buffer_read b fd (replicate n (Err EINTR) @ Ret m x # s, tr) =
      (Done (int (length y), b1), (s, tr @ replicate n (Read fd (room b), Err EINTR) @ [(Read fd (room b), Ret (length y) y)])) \<and>
    buf_wf b1 \<and> contents b1 = contents b @ y \<and> b_base b1 = b_base b \<and> b_size b1 = b_size b \<and>
    b_buf b1 = take p (b_buf b) @ y @ drop (p + length y) (b_buf b) \<and>
    sancus_buffer_read b fd (replicate n (Err EINTR) @ Err e # s, tr) =
      (Done (- e, b), (s, tr @ replicate n (Read fd (room b), Err EINTR) @ [(Read fd (room b), Err e)])) \<and>
    sancus_buffer_skip b1 j = Inr (r, b2) \<and> buf_wf b2 \<and> contents b2 = drop (unat j) (contents b @ y) \<and>
    b_size b2 = b_size b \<and> length (b_buf b2) = length (b_buf b)"
proof -
  let ?b = "b\<lparr>b_buf := overwrite p y (b_buf b), b_len := b_len b + word_of_nat (length y)\<rparr>"
  note r = read_exact [OF assms(1,2), of fd n m x s tr, folded p_def y_def]
  have 1: "buf_wf ?b" "contents ?b = contents b @ y" "b_size ?b = b_size b"
    using read_spec [OF assms(1,2), of fd n m x s tr] by (simp_all add: r y_def)
  obtain q b2 where 2: "sancus_buffer_skip ?b j = Inr (q, b2)" "buf_wf b2" "contents b2 = drop (unat j) (contents ?b)" "b_size b2 = b_size ?b"
    using skip_spec [OF 1(1), of j] by blast
  have "overwrite p y (b_buf b) = take p (b_buf b) @ y @ drop (p + length y) (b_buf b)" by (simp add: overwrite_def)
  moreover have "p + length y \<le> length (b_buf b)" using tail_fits [OF assms(1)] unfolding p_def y_def by simp
  ultimately show ?thesis
    using r 1 2 skip_block [OF 1(1) 2(1)] read_error [OF assms(1,3,4)] by (intro exI [of _ ?b] exI [of _ q] exI [of _ b2]) simp
qed

theorem input_buffer_queue_witness:
  "\<exists>b1 k1 r b2.
    sancus_buffer_read \<lparr>b_buf = [1, 2, 3, 4], b_base = 1, b_len = 1, b_size = 4\<rparr> 5
        ([Err EINTR, Ret 9 [7, 8, 9]], []) = (Done (2, b1), k1) \<and>
    contents b1 = [2, 7, 8] \<and> b_buf b1 = [1, 2, 7, 8] \<and> sancus_buffer_skip b1 2 = Inr (r, b2) \<and> contents b2 = [8] \<and> b_size b2 = 4"
proof -
  let ?b = "\<lparr>b_buf = [1, 2, 3, 4], b_base = 1, b_len = 1, b_size = 4\<rparr>"
  have f: "buf_wf ?b" "room ?b = 2" "contents ?b = [2]"
    by (simp_all add: buf_wf_def room_def contents_def)
  from input_buffer_queue [OF f(1), of 5 5 1 9 "[7, 8, 9]" "[]" "[]" 2] f(2,3) show ?thesis by auto
qed

text \<open>
  \<open>sancus_buffer_skip\<close> returns the room behind the data, and leaves at least a tenth of the block
  free there whenever the data itself leaves that much.
\<close>

theorem input_buffer_room:
  assumes "buf_wf b"
  shows "\<exists>r b'. sancus_buffer_skip b n = Inr (r, b') \<and> buf_wf b' \<and> unat r = room b' \<and>
    (unat (b_size b) div 10 \<le> unat (b_size b) - length (contents b') \<longrightarrow>
      unat (b_size b) div 10 \<le> room b')"
proof -
  obtain r b' where "sancus_buffer_skip b n = Inr (r, b')" "buf_wf b'" "unat r = room b'"
      "b_size b' = b_size b" "b_base b' = 0 \<or> unat (b_size b) div 10 \<le> room b'"
    using skip_spec [OF assms, of n] by blast
  then show ?thesis using length_contents [of b'] by (auto simp: room_def)
qed

theorem input_buffer_room_witness:
  "\<exists>r b'. sancus_buffer_skip \<lparr>b_buf = [1, 2, 3, 4], b_base = 0, b_len = 4, b_size = 4\<rparr> 2 = Inr (r, b') \<and>
     unat r = room b'"
  using input_buffer_room [of "\<lparr>b_buf = [1, 2, 3, 4], b_base = 0, b_len = 4, b_size = 4\<rparr>" 2]
  by (auto simp: buf_wf_def)

end
