(* ===== verification/Fmt.thy ===== *)
theory Fmt
  imports Prelude
begin

text \<open>
  The C-string encoder of \<^verbatim>\<open>src/sancus/fmt_cstr.c\<close>, the contract of a byte-wise escape, which the
  logger's encoder keeps too, and the decoder both are proved against.
\<close>

subsection \<open>The encoder\<close>

definition hexa :: "byte list" where
  "hexa = [48, 49, 50, 51, 52, 53, 54, 55, 56, 57, 97, 98, 99, 100, 101, 102]"

text \<open>
  The table \<open>ascii\<close>: two rows for the control characters, with the letters of the escapes that have
  one, and the printable characters themselves up to the last entry.
\<close>

definition ascii_letters :: "byte list" where
  "ascii_letters = [48, 0, 0, 0, 0, 0, 0, 97, 98, 116, 110, 118, 102, 114, 0, 0]"

definition ascii_printing :: "byte list" where
  "ascii_printing = map word_of_nat [32..<127]"

definition ascii :: "byte list" where
  "ascii = ascii_letters @ replicate 16 0 @ ascii_printing @ [0]"

text \<open>The bytes written for one byte of data; their number is the variable \<open>l\<close> of the loop.\<close>

definition fmt_enc :: "byte \<Rightarrow> byte list" where
  "fmt_enc c =
     (let e = (if c AND 0x80 \<noteq> 0 then 0 else ascii ! unat c) in
      if e = 0 then [92, 120, hexa ! unat (drop_bit 4 (c AND 0xf0)), hexa ! unat (c AND 0x0f)]
      else if c < 32 \<or> e = 34 \<or> e = 92 then [92, e]
      else [e])"

text \<open>The loop: the place of \<open>buf\<close>, the room left and the length so far.\<close>

fun fmt_loop :: "byte list \<Rightarrow> nat \<Rightarrow> nat \<Rightarrow> nat \<Rightarrow> byte list \<Rightarrow> (nat \<times> byte list) exec" where
  "fmt_loop m buf buf_len len [] = ebind (mem_put buf [0] m) (\<lambda>m. Inr (len, m))"
| "fmt_loop m buf buf_len len (c # cs) =
     (let l = length (fmt_enc c) in
      if buf_len \<le> l then ebind (mem_put buf [0] m) (\<lambda>m. Inr (len, m))
      else ebind (mem_put buf (fmt_enc c) m) (\<lambda>m. fmt_loop m (buf + l) (buf_len - l) (len + l) cs))"

definition sancus_fmt_ascii_cstr ::
  "byte list option \<Rightarrow> nat \<Rightarrow> byte list option \<Rightarrow> nat \<Rightarrow> (nat \<times> byte list) exec" where
  "sancus_fmt_ascii_cstr buf buf_len data sz =
     (case (buf, data) of
        (Some m, Some d) \<Rightarrow>
          chk Assert_Fail (buf_len > 0) (chk Assert_Fail (sz > 0)
            (ebind (mem_get 0 sz d) (\<lambda>x. fmt_loop m 0 buf_len 0 x)))
      | _ \<Rightarrow> Inl Assert_Fail)"

subsection \<open>The decoder\<close>

definition hex_value :: "byte \<Rightarrow> byte" where
  "hex_value c = (if c < 58 then c - 48 else c - 87)"

text \<open>One byte from the front of an escaped text.\<close>

fun unescape :: "byte list \<Rightarrow> (byte \<times> byte list) option" where
  "unescape [] = None"
| "unescape (c # cs) =
     (if c \<noteq> 92 then Some (c, cs)
      else case cs of
        [] \<Rightarrow> None
      | d # ds \<Rightarrow>
          if d = 120 then (case ds of h # l # r \<Rightarrow> Some (16 * hex_value h + hex_value l, r) | _ \<Rightarrow> None)
          else if d = 48 then Some (0, ds)
          else if d = 97 then Some (7, ds)
          else if d = 98 then Some (8, ds)
          else if d = 116 then Some (9, ds)
          else if d = 110 then Some (10, ds)
          else if d = 118 then Some (11, ds)
          else if d = 102 then Some (12, ds)
          else if d = 114 then Some (13, ds)
          else Some (d, ds))"

subsection \<open>The contract of an escape\<close>

text \<open>
  An encoding of bytes one by one, of which a decoder takes one byte at a time: the bytes of an
  encoded text are then decided by the text.
\<close>

locale escape =
  fixes enc :: "byte \<Rightarrow> byte list" and dec1 :: "byte list \<Rightarrow> (byte \<times> byte list) option"
  assumes dec1_enc: "dec1 (enc c @ r) = Some (c, r)" and dec1_Nil: "dec1 [] = None"
begin

definition enc_all :: "byte list \<Rightarrow> byte list" where
  "enc_all xs = concat (map enc xs)"

fun dec_all :: "nat \<Rightarrow> byte list \<Rightarrow> byte list" where
  "dec_all 0 t = []"
| "dec_all (Suc n) t = (case dec1 t of None \<Rightarrow> [] | Some (c, r) \<Rightarrow> c # dec_all n r)"

lemma enc_nonempty: "enc c \<noteq> []"
  using dec1_enc [of c "[]"] dec1_Nil by auto

lemma length_enc_all: "length xs \<le> length (enc_all xs)"
proof (induction xs)
  case (Cons x xs)
  have "1 \<le> length (enc x)" using enc_nonempty [of x] by (cases "enc x") simp_all
  moreover have "length (enc_all (x # xs)) = length (enc x) + length (enc_all xs)"
    by (simp add: enc_all_def)
  ultimately show ?case using Cons by simp
qed simp

lemma dec_enc_all: "length xs \<le> n \<Longrightarrow> dec_all n (enc_all xs) = xs"
proof (induction xs arbitrary: n)
  case Nil
  then show ?case by (cases n) (simp_all add: enc_all_def dec1_Nil)
next
  case (Cons x xs)
  then show ?case by (cases n) (simp_all add: enc_all_def dec1_enc)
qed

lemma enc_all_inject: "enc_all xs = enc_all ys \<Longrightarrow> xs = ys"
  by (metis dec_enc_all max.cobounded1 max.cobounded2)

end

subsection \<open>The table, case by case\<close>

lemma hexa_value:
  assumes "n < 16"
  shows "hex_value (hexa ! n) = word_of_nat n"
proof -
  have "list_all (\<lambda>n. hex_value (hexa ! n) = word_of_nat n) [0..<16]"
    by (simp add: upt_conv_Cons hexa_def hex_value_def)
  with assms show ?thesis by (simp add: list_all_iff)
qed

lemma ascii_parts: "length ascii_letters = 16" "length ascii_printing = 95"
  by (simp_all add: ascii_letters_def ascii_printing_def del: upt_rec_numeral)

lemma ascii_printable:
  assumes "32 \<le> n" and "n < 127"
  shows "ascii ! n = word_of_nat n"
proof -
  have "ascii_printing ! (n - 32) = word_of_nat n"
    using assms by (simp add: ascii_printing_def del: upt_rec_numeral)
  moreover have "\<not> n < 16" "\<not> n - 16 < 16" "n - 16 - 16 < 95" "n - 16 - 16 = n - 32"
    using assms by linarith+
  ultimately show ?thesis by (simp add: ascii_def nth_append ascii_parts)
qed

lemma ascii_control:
  assumes "n < 32"
  shows "ascii ! n = (if n = 0 then 48 else if 7 \<le> n \<and> n \<le> 13 then [97, 98, 116, 110, 118, 102, 114] ! (n - 7)
    else 0)"
proof -
  have "list_all (\<lambda>n. ascii_letters ! n = (if n = 0 then 48 else if 7 \<le> n \<and> n \<le> 13
      then [97, 98, 116, 110, 118, 102, 114] ! (n - 7) else 0)) [0..<16]"
    by (simp add: upt_conv_Cons ascii_letters_def)
  then have "n < 16 \<Longrightarrow> ?thesis" by (simp add: list_all_iff ascii_def nth_append ascii_parts)
  moreover have "n - 16 < 16" using assms by linarith
  then have "16 \<le> n \<Longrightarrow> ?thesis" by (simp add: ascii_def nth_append ascii_parts)
  ultimately show ?thesis by linarith
qed

lemma ascii_del: "ascii ! 127 = 0"
  by (simp add: ascii_def nth_append ascii_parts)

subsection \<open>The two halves of a byte\<close>

definition hex_esc :: "byte \<Rightarrow> byte list" where
  "hex_esc c = [92, 120, hexa ! (unat c div 16), hexa ! (unat c mod 16)]"

lemma high_half: "unat (drop_bit 4 (c AND 0xf0 :: byte)) = unat c div 16"
proof -
  have m: "(0xf0 :: byte) = push_bit 4 (mask 4)" by (simp add: mask_eq_exp_minus_1 push_bit_eq_mult)
  have "drop_bit 4 (c AND push_bit 4 (mask 4)) = drop_bit 4 c"
    by (rule bit_eqI) (auto simp: bit_simps dest: bit_imp_le_length)
  then show ?thesis unfolding m by (simp add: unat_div drop_bit_eq_div)
qed

lemma low_half: "unat (c AND 0x0f :: byte) = unat c mod 16"
proof -
  have "(0x0f :: byte) = mask 4" by (simp add: mask_eq_exp_minus_1)
  then have "c AND 0x0f = take_bit 4 c" by (simp only: take_bit_eq_mask)
  then show ?thesis by (simp add: unat_mod take_bit_eq_mod)
qed

lemma high_bit: "(c AND 0x80 :: byte) \<noteq> 0 \<longleftrightarrow> 128 \<le> unat c"
proof -
  have "(0x80 :: byte) = push_bit 7 1" by (simp add: push_bit_eq_mult)
  then have "(c AND 0x80 :: byte) \<noteq> 0 \<longleftrightarrow> bit c 7" by (simp only: bit_iff_and_push_bit_not_eq_0)
  also have "\<dots> \<longleftrightarrow> odd (unat c div 128)"
    using bit_unsigned_iff [of c 7, where 'a = nat] by (simp add: bit_iff_odd)
  also have "\<dots> \<longleftrightarrow> 128 \<le> unat c"
  proof -
    have "unat c div 128 = (if 128 \<le> unat c then 1 else 0)"
      using unat_byte_less [of c] by (simp add: div_nat_eqI)
    then show ?thesis by simp
  qed
  finally show ?thesis .
qed

lemma unescape_hex: "unescape (hex_esc c @ r) = Some (c, r)"
proof -
  have "unat c div 16 < 16" "unat c mod 16 < 16" using unat_byte_less [of c] by auto
  then have "unescape (hex_esc c @ r) = Some (16 * word_of_nat (unat c div 16) + word_of_nat (unat c mod 16), r)"
    by (simp add: hex_esc_def hexa_value)
  moreover have "16 * word_of_nat (unat c div 16) + word_of_nat (unat c mod 16) = (c :: byte)"
  proof -
    have "16 * (unat c div 16) + unat c mod 16 = unat c" by simp
    then have "(word_of_nat (16 * (unat c div 16) + unat c mod 16) :: byte) = c"
      by simp
    then show ?thesis by (simp only: of_nat_add of_nat_mult of_nat_numeral)
  qed
  ultimately show ?thesis by simp
qed

lemma fmt_enc_cases:
  "32 \<le> unat c \<Longrightarrow> unat c < 127 \<Longrightarrow> fmt_enc c = (if c = 34 \<or> c = 92 then [92, c] else [c])"
  "unat c = 0 \<Longrightarrow> fmt_enc c = [92, 48]"
  "7 \<le> unat c \<Longrightarrow> unat c \<le> 13 \<Longrightarrow> fmt_enc c = [92, [97, 98, 116, 110, 118, 102, 114] ! (unat c - 7)]"
  "127 \<le> unat c \<or> (0 < unat c \<and> unat c < 7) \<or> (13 < unat c \<and> unat c < 32) \<Longrightarrow> fmt_enc c = hex_esc c"
proof -
  have hb: "unat c < 128 \<Longrightarrow> c AND 0x80 = 0" using high_bit [of c] by auto
  have lt: "c < 32 \<longleftrightarrow> unat c < 32" by (simp add: word_less_nat_alt)
  show "32 \<le> unat c \<Longrightarrow> unat c < 127 \<Longrightarrow> fmt_enc c = (if c = 34 \<or> c = 92 then [92, c] else [c])"
    using hb lt ascii_printable [of "unat c"] by (auto simp: fmt_enc_def Let_def)
  show "unat c = 0 \<Longrightarrow> fmt_enc c = [92, 48]"
    using hb lt ascii_control [of "unat c"] by (simp add: fmt_enc_def)
  show "7 \<le> unat c \<Longrightarrow> unat c \<le> 13 \<Longrightarrow> fmt_enc c = [92, [97, 98, 116, 110, 118, 102, 114] ! (unat c - 7)]"
  proof -
    assume c: "7 \<le> unat c" "unat c \<le> 13"
    let ?l = "[97, 98, 116, 110, 118, 102, 114] ! (unat c - 7) :: byte"
    have "list_all (\<lambda>x. x \<noteq> 0) ([97, 98, 116, 110, 118, 102, 114] :: byte list)" by simp
    moreover have "unat c - 7 < length ([97, 98, 116, 110, 118, 102, 114] :: byte list)" using c by simp
    ultimately have "?l \<noteq> 0" by (auto simp only: list_all_length)
    moreover have "ascii ! unat c = ?l" using c ascii_control [of "unat c"] by simp
    moreover have "c < 32" using c lt by simp
    ultimately show ?thesis using c hb by (simp add: fmt_enc_def)
  qed
  assume c: "127 \<le> unat c \<or> (0 < unat c \<and> unat c < 7) \<or> (13 < unat c \<and> unat c < 32)"
  have "127 \<le> unat c \<Longrightarrow> \<not> 128 \<le> unat c \<Longrightarrow> ascii ! unat c = 0"
  proof -
    assume "127 \<le> unat c" "\<not> 128 \<le> unat c"
    then have "unat c = 127" by linarith
    then show ?thesis by (simp only: ascii_del)
  qed
  then have "(if c AND 0x80 \<noteq> 0 then 0 else ascii ! unat c) = 0"
    using c high_bit [of c] ascii_control [of "unat c"] ascii_del by auto
  then show "fmt_enc c = hex_esc c"
    unfolding fmt_enc_def Let_def hex_esc_def high_half low_half by simp
qed

lemma unescape_letter:
  assumes "7 \<le> unat c" and "unat c \<le> 13"
  shows "unescape (92 # [97, 98, 116, 110, 118, 102, 114] ! (unat c - 7) # r) = Some (c, r)"
proof -
  have c: "c = word_of_nat (unat c)" by simp
  have "unat c = 7 \<or> unat c = 8 \<or> unat c = 9 \<or> unat c = 10 \<or> unat c = 11 \<or> unat c = 12 \<or> unat c = 13"
    using assms by linarith
  then show ?thesis by (subst (2) c) (elim disjE; simp)
qed

lemma unescape_plain:
  "32 \<le> unat c \<Longrightarrow> unat c < 127 \<Longrightarrow>
   unescape ((if c = 34 \<or> c = 92 then [92, c] else [c]) @ r) = Some (c, r)"
  by (cases "c = 92"; cases "c = 34") simp_all

interpretation fmt: escape fmt_enc unescape
proof unfold_locales
  fix c :: byte and r
  consider "32 \<le> unat c" "unat c < 127" | "unat c = 0" | "7 \<le> unat c" "unat c \<le> 13"
    | "127 \<le> unat c \<or> (0 < unat c \<and> unat c < 7) \<or> (13 < unat c \<and> unat c < 32)" by linarith
  then show "unescape (fmt_enc c @ r) = Some (c, r)"
  proof cases
    case 1
    then show ?thesis using fmt_enc_cases(1) [of c] unescape_plain [of c r] by simp
  next
    case 2
    then have "c = 0" by (simp add: unat_eq_zero)
    then show ?thesis using fmt_enc_cases(2) [of c] by simp
  next
    case 3
    then show ?thesis using fmt_enc_cases(3) [of c] unescape_letter [of c r] by simp
  next
    case 4
    then show ?thesis using fmt_enc_cases(4) [of c] unescape_hex [of c r] by simp
  qed
qed simp

lemma fmt_enc_length: "1 \<le> length (fmt_enc c)" "length (fmt_enc c) \<le> 4"
  using fmt.enc_nonempty [of c] by (auto simp: fmt_enc_def Let_def Suc_le_eq)

subsection \<open>The loop\<close>

text \<open>How many bytes of data are encoded in \<open>n\<close> bytes of output, the terminator among them.\<close>

fun fmt_fit :: "nat \<Rightarrow> byte list \<Rightarrow> nat" where
  "fmt_fit n [] = 0"
| "fmt_fit n (c # cs) =
     (if n \<le> length (fmt_enc c) then 0 else Suc (fmt_fit (n - length (fmt_enc c)) cs))"

lemma fmt_fit_le: "fmt_fit n xs \<le> length xs"
  by (induction n xs rule: fmt_fit.induct) auto

lemma fmt_fit_room: "0 < n \<Longrightarrow> length (fmt.enc_all (take (fmt_fit n xs) xs)) < n"
  by (induction n xs rule: fmt_fit.induct) (auto simp: fmt.enc_all_def)

lemma fmt_fit_all: "length (fmt.enc_all xs) < n \<Longrightarrow> fmt_fit n xs = length xs"
  by (induction n xs rule: fmt_fit.induct) (auto simp: fmt.enc_all_def)

lemma fmt_loop_spec:
  assumes "0 < n" and "p + n \<le> length m"
  shows "fmt_loop m p n len xs =
    (let t = fmt.enc_all (take (fmt_fit n xs) xs) in
     Inr (len + length t, overwrite p (t @ [0]) m))"
  using assms
proof (induction m p n len xs rule: fmt_loop.induct)
  case (2 m p n len c cs)
  let ?l = "length (fmt_enc c)"
  show ?case
  proof (cases "n \<le> ?l")
    case False
    let ?t = "fmt.enc_all (take (fmt_fit (n - ?l) cs) cs)"
    have t: "length ?t < n - ?l" using False by (intro fmt_fit_room) simp
    have "overwrite (p + ?l) (?t @ [0]) (overwrite p (fmt_enc c) m) = overwrite p (fmt_enc c @ ?t @ [0]) m"
      using t 2(3) False by (simp add: overwrite_def ac_simps)
    with 2 False t show ?thesis by (simp add: Let_def fmt.enc_all_def)
  qed (use 2 in \<open>simp add: fmt.enc_all_def Let_def\<close>)
qed (simp add: fmt.enc_all_def)

subsection \<open>Properties\<close>

text \<open>
  C25. \<open>sancus_fmt_ascii_cstr\<close> stores the escapes of the longest prefix of the data that leaves room for
  the terminator, then the terminator, writes nothing else and returns the length of the text; the
  text decodes to that prefix. A buffer of more than four bytes per byte of data takes all of it.
\<close>

theorem fmt_cstr_spec:
  assumes "0 < buf_len" and "buf_len \<le> length m" and "0 < length xs"
  shows "\<exists>k t. sancus_fmt_ascii_cstr (Some m) buf_len (Some (xs @ rest)) (length xs) =
      Inr (length t, overwrite 0 (t @ [0]) m) \<and>
    t = concat (map fmt_enc (take k xs)) \<and> length t < buf_len \<and> k \<le> length xs \<and>
    (k < length xs \<longrightarrow> buf_len \<le> length t + length (fmt_enc (xs ! k))) \<and>
    fmt.dec_all k t = take k xs \<and> (4 * length xs < buf_len \<longrightarrow> k = length xs)"
proof -
  let ?k = "fmt_fit buf_len xs"
  let ?t = "fmt.enc_all (take ?k xs)"
  have "sancus_fmt_ascii_cstr (Some m) buf_len (Some (xs @ rest)) (length xs) =
      Inr (length ?t, overwrite 0 (?t @ [0]) m)"
    using assms fmt_loop_spec [of buf_len 0 m 0 xs] by (simp add: sancus_fmt_ascii_cstr_def Let_def)
  moreover have "?k < length xs \<Longrightarrow> buf_len \<le> length ?t + length (fmt_enc (xs ! ?k))"
    by (induction buf_len xs rule: fmt_fit.induct) (auto simp: fmt.enc_all_def)
  moreover have "length (fmt.enc_all xs) \<le> 4 * length xs"
  proof (induction xs)
    case (Cons x xs)
    then show ?case using fmt_enc_length(2) [of x] by (simp add: fmt.enc_all_def)
  qed (simp add: fmt.enc_all_def)
  then have "4 * length xs < buf_len \<Longrightarrow> ?k = length xs" by (intro fmt_fit_all) simp
  moreover have "fmt.dec_all ?k ?t = take ?k xs" by (rule fmt.dec_enc_all) simp
  ultimately show ?thesis
    using fmt_fit_room [OF assms(1), of xs] fmt_fit_le [of buf_len xs]
    by (intro exI [of _ ?k] exI [of _ ?t]) (simp add: fmt.enc_all_def)
qed

theorem fmt_cstr_spec_witness:
  "\<exists>k t. sancus_fmt_ascii_cstr (Some (replicate 20 9)) 16 (Some [65, 10, 200]) 3 =
      Inr (length t, overwrite 0 (t @ [0]) (replicate 20 9)) \<and> k = 3 \<and>
    t = concat (map fmt_enc (take k [65, 10, 200])) \<and> fmt.dec_all k t = [65, 10, 200]"
proof -
  have "0 < (16 :: nat)" "16 \<le> length (replicate 20 (9 :: byte))" "0 < length [65, 10, 200 :: byte]"
    by simp_all
  from fmt_cstr_spec [OF this, of "[]"] show ?thesis by (auto simp: numeral_3_eq_3)
qed

end
