(* ===== verification/Serial.thy ===== *)
theory Serial
  imports Fd
begin

text \<open>
  Serial ports, \<^verbatim>\<open>include/sancus/serial.h\<close> and \<^verbatim>\<open>src/sancus/sancus_serial.c\<close>: opening a port with its terminal
  settings saved, applying settings and verifying them, and closing with the old settings restored. A
  \<open>struct termios\<close> is its sixty bytes in the layout of Linux: the four flag words, the line discipline,
  the control characters, padding and the two speeds.
\<close>

type_synonym termios = "byte list"

definition termios_size :: nat where "termios_size = 60"

record sancus_serial =
  ser_fd :: int
  oldtio :: termios

abbreviation (input) O_RDWR :: int where "O_RDWR \<equiv> 2"
abbreviation (input) O_NOCTTY :: int where "O_NOCTTY \<equiv> 256"

subsection \<open>Opening, applying and closing\<close>

text \<open>
  \<open>tcgetattr\<close> stores what the kernel gives over the structure; bytes it does not touch keep their value.
  The pointers are not \<open>NULL\<close> by their types; \<open>copy\<close> may be.
\<close>

definition sancus_serial_open ::
  "sancus_serial \<Rightarrow> byte list \<Rightarrow> bool \<Rightarrow> termios option \<Rightarrow> (int \<times> sancus_serial \<times> termios option) sys" where
  "sancus_serial_open s pathname cloexec copy =
     sbind (sancus_open pathname (O_RDWR OR O_NOCTTY OR O_NONBLOCK) cloexec 0) (\<lambda>fd.
       if fd < 0 then sret (fd, s\<lparr>ser_fd := fd\<rparr>, copy)
       else sbind (syscall (Tcgetattr fd)) (\<lambda>a.
         case a of
           Err _ \<Rightarrow>
             sbind (sancus_close2 (Some fd)) (\<lambda>(_, p).
               case p of
                 Some v \<Rightarrow> sret (v, s\<lparr>ser_fd := v\<rparr>, copy)
               | None \<Rightarrow> sfault Null_Deref)
         | Ret _ x \<Rightarrow>
             sbind (slift (mem_put 0 x (oldtio s))) (\<lambda>old.
               sret (fd, s\<lparr>ser_fd := fd, oldtio := old\<rparr>, case copy of Some _ \<Rightarrow> Some old | None \<Rightarrow> None))))"

definition sancus_serial_apply :: "sancus_serial \<Rightarrow> termios \<Rightarrow> int sys" where
  "sancus_serial_apply s tio =
     (if \<not> ser_fd s \<ge> 0 then sfault Assert_Fail
      else sbind (syscall (Tcsetattr (ser_fd s) tio)) (\<lambda>a.
        case a of
          Err _ \<Rightarrow> sret (-1)
        | Ret _ _ \<Rightarrow>
            sbind (syscall (Tcgetattr (ser_fd s))) (\<lambda>b.
              case b of
                Err _ \<Rightarrow> sret (-1)
              | Ret _ x \<Rightarrow>
                  sbind (slift (mem_put 0 x tio)) (\<lambda>newtio.
                    if tio \<noteq> newtio then sret (-1) else sret 0))))"

definition sancus_serial_close :: "sancus_serial \<Rightarrow> (int \<times> sancus_serial) sys" where
  "sancus_serial_close s =
     (if \<not> ser_fd s \<ge> 0 then sfault Assert_Fail
      else sbind (sancus_serial_apply s (oldtio s)) (\<lambda>ret.
        sbind (sancus_close2 (Some (ser_fd s))) (\<lambda>(_, p).
          case p of
            Some v \<Rightarrow> sret (ret, s\<lparr>ser_fd := v\<rparr>)
          | None \<Rightarrow> sfault Null_Deref)))"

subsection \<open>Settings\<close>

text \<open>Changing a flag word of a structure: the bits of \<open>off\<close> are cleared, then those of \<open>on\<close> set.\<close>

definition set_flags :: "nat \<Rightarrow> u32 \<Rightarrow> u32 \<Rightarrow> termios \<Rightarrow> termios exec" where
  "set_flags p off on tio =
     ebind (get_le 4 tio p) (\<lambda>v.
       put_le 4 tio p (unat ((word_of_nat v AND NOT off) OR on)))"

abbreviation (input) c_iflag :: nat where "c_iflag \<equiv> 0"
abbreviation (input) c_oflag :: nat where "c_oflag \<equiv> 4"
abbreviation (input) c_cflag :: nat where "c_cflag \<equiv> 8"
abbreviation (input) c_lflag :: nat where "c_lflag \<equiv> 12"

abbreviation (input) CSIZE :: u32 where "CSIZE \<equiv> 0x30"
abbreviation (input) CS8 :: u32 where "CS8 \<equiv> 0x30"
abbreviation (input) PARENB :: u32 where "PARENB \<equiv> 0x100"
abbreviation (input) CSTOPB :: u32 where "CSTOPB \<equiv> 0x40"
abbreviation (input) CREAD :: u32 where "CREAD \<equiv> 0x80"
abbreviation (input) CLOCAL :: u32 where "CLOCAL \<equiv> 0x800"

text \<open>The input flags are \<open>IGNBRK\<close>, \<open>BRKINT\<close>, \<open>PARMRK\<close>, \<open>ISTRIP\<close>, \<open>INLCR\<close>, \<open>IGNCR\<close>, \<open>ICRNL\<close> and \<open>IXON\<close>; the
  output flag \<open>OPOST\<close>; the local flags \<open>ECHO\<close>, \<open>ECHONL\<close>, \<open>ICANON\<close>, \<open>ISIG\<close> and \<open>IEXTEN\<close>.\<close>

definition sancus_serial_setup_raw :: "termios \<Rightarrow> termios exec" where
  "sancus_serial_setup_raw tio =
     ebind (set_flags c_iflag (0x1 OR 0x2 OR 0x8 OR 0x20 OR 0x40 OR 0x80 OR 0x100 OR 0x400) 0 tio) (\<lambda>tio.
     ebind (set_flags c_oflag 0x1 0 tio) (\<lambda>tio.
     ebind (set_flags c_lflag (0x8 OR 0x40 OR 0x2 OR 0x1 OR 0x8000) 0 tio) (\<lambda>tio.
     ebind (set_flags c_cflag (CSIZE OR PARENB) 0 tio) (\<lambda>tio.
       set_flags c_cflag 0 CS8 tio))))"

text \<open>\<open>cfsetispeed\<close> and \<open>cfsetospeed\<close> belong to the C library and are arguments.\<close>

definition sancus_serial_setup_8N1 ::
  "(termios \<Rightarrow> u32 \<Rightarrow> termios) \<Rightarrow> (termios \<Rightarrow> u32 \<Rightarrow> termios) \<Rightarrow> termios \<Rightarrow> u32 \<Rightarrow> termios exec" where
  "sancus_serial_setup_8N1 cfsetispeed cfsetospeed tio baudrate =
     ebind (set_flags c_cflag 0 (CLOCAL OR CREAD) tio) (\<lambda>tio.
     ebind (set_flags c_cflag (CSIZE OR PARENB OR CSTOPB) 0 tio) (\<lambda>tio.
     ebind (set_flags c_cflag 0 CS8 tio) (\<lambda>tio.
       Inr (if baudrate \<noteq> 0 then cfsetospeed (cfsetispeed tio baudrate) baudrate else tio))))"

subsection \<open>A port owns its descriptor\<close>

lemma serial_open_owned:
  assumes "owned (-1) k"
  shows "post (sancus_serial_open s path ce copy) (\<lambda>(r, s', _). \<lambda>k. ser_fd s' = r \<and> owned r k) k"
  unfolding sancus_serial_open_def sancus_open_def post_sbind
proof (rule post_mono [OF openat_owned [OF assms]])
  fix fd l
  assume "owned fd l"
  then show "post (if fd < 0 then sret (fd, s\<lparr>ser_fd := fd\<rparr>, copy)
      else sbind (syscall (Tcgetattr fd)) (\<lambda>a.
        case a of
          Err _ \<Rightarrow>
            sbind (sancus_close2 (Some fd)) (\<lambda>(_, p).
              case p of Some v \<Rightarrow> sret (v, s\<lparr>ser_fd := v\<rparr>, copy) | None \<Rightarrow> sfault Null_Deref)
        | Ret _ x \<Rightarrow>
            sbind (slift (mem_put 0 x (oldtio s))) (\<lambda>old.
              sret (fd, s\<lparr>ser_fd := fd, oldtio := old\<rparr>, case copy of Some _ \<Rightarrow> Some old | None \<Rightarrow> None))))
      (\<lambda>(r, s', _). \<lambda>k. ser_fd s' = r \<and> owned r k) l"
    by (auto simp: sancus_close2_def split: answer.split option.split
        intro!: post_owned [where fd = fd] post_close_owned [where fd = fd])
qed

text \<open>
  Opening a serial port, with every answer of the kernel: a descriptor that is returned is open and
  stored in the port, and a negative result leaves no descriptor open, also when reading the settings failed.
\<close>

theorem serial_open_owns:
  assumes "list_all errno_ok t" and "sancus_serial_open s path ce copy (t, []) = (Done (r, s', copy'), k')"
  shows "ser_fd s' = r \<and> owned r k'"
  using post_Done [OF serial_open_owned [OF owned_start [OF assms(1)]] assms(2)] by simp

theorem serial_open_owns_witness:
  "\<exists>s' k'. sancus_serial_open \<lparr>ser_fd = 0, oldtio = replicate 60 0\<rparr> [47] False None ([Ret 4 [], Err EINVAL, Ret 0 []], []) =
     (Done (-1, s', None), k') \<and> held k' = []"
proof -
  let ?s = "\<lparr>ser_fd = 0, oldtio = replicate 60 0\<rparr>" and ?t = "[Ret 4 [], Err EINVAL, Ret 0 []]"
  obtain s' k' where "sancus_serial_open ?s [47] False None (?t, []) = (Done (-1, s', None), k')"
    by (simp add: sancus_serial_open_def sancus_open_def sancus__openat_def Let_def sbind_def ropen.answered open_result_def
        sancus_close2_def rclose.answered close_result_def)
  with serial_open_owns [of ?t ?s "[47]" False None "-1" s' None k'] show ?thesis by (auto simp: owned_def)
qed

subsection \<open>Settings applied and restored\<close>

text \<open>
  C36. Closing a serial port makes these calls and no others, whatever the terminal answers: the saved
  settings are sent; when that succeeded the settings are asked for; and in every case the descriptor is
  closed, which is tried again when it is interrupted and not when it failed otherwise. The port is left
  without a descriptor, and the result is 0 exactly when both calls to the terminal succeeded and what
  was read back leaves the saved settings as they are.
\<close>

theorem serial_close_restores:
  assumes "0 \<le> ser_fd s" and "length x \<le> length (oldtio s)" and "a \<noteq> Err EINTR"
  shows "sancus_serial_close s (Ret m y # Ret n x # replicate j (Err EINTR) @ a # t, tr) =
      (Done (if overwrite 0 x (oldtio s) = oldtio s then 0 else -1, s\<lparr>ser_fd := -1\<rparr>),
       (t, tr @ [(Tcsetattr (ser_fd s) (oldtio s), Ret m y), (Tcgetattr (ser_fd s), Ret n x)] @ closing (ser_fd s) j a)) \<and>
    sancus_serial_close s (Ret m y # Err e # replicate j (Err EINTR) @ a # t, tr) =
      (Done (-1, s\<lparr>ser_fd := -1\<rparr>),
       (t, tr @ [(Tcsetattr (ser_fd s) (oldtio s), Ret m y), (Tcgetattr (ser_fd s), Err e)] @ closing (ser_fd s) j a)) \<and>
    sancus_serial_close s (Err e # replicate j (Err EINTR) @ a # t, tr) =
      (Done (-1, s\<lparr>ser_fd := -1\<rparr>), (t, tr @ [(Tcsetattr (ser_fd s) (oldtio s), Err e)] @ closing (ser_fd s) j a))"
  using assms(1,2)
  by (auto simp: sancus_serial_close_def sancus_serial_apply_def sancus_close2_def sbind_def close_closing [OF assms(3)])

theorem serial_close_restores_witness:
  "sancus_serial_close \<lparr>ser_fd = 4, oldtio = [1, 2]\<rparr> ([Ret 0 [], Ret 0 [1, 3], Err EINTR, Err 5], []) =
     (Done (-1, \<lparr>ser_fd = -1, oldtio = [1, 2]\<rparr>),
      ([], [(Tcsetattr 4 [1, 2], Ret 0 []), (Tcgetattr 4, Ret 0 [1, 3]), (Close 4, Err EINTR), (Close 4, Err 5)]))"
  using serial_close_restores [of "\<lparr>ser_fd = 4, oldtio = [1, 2]\<rparr>" "[1, 3]" "Err 5" 0 "[]" 0 1 "[]" "[]" 7]
  by (simp add: overwrite_def closing_def)

subsection \<open>The flag words\<close>

lemma set_flags_spec:
  assumes "p + 4 \<le> length tio" and "get_le 4 tio p = Inr v"
  shows "\<exists>tio'. set_flags p off on tio = Inr tio' \<and> length tio' = length tio \<and>
    get_le 4 tio' p = Inr (unat ((word_of_nat v AND NOT off) OR on)) \<and>
    (\<forall>q. q + 4 \<le> p \<or> p + 4 \<le> q \<longrightarrow> get_le 4 tio' q = get_le 4 tio q) \<and> drop (p + 4) tio' = drop (p + 4) tio"
proof -
  let ?w = "unat ((word_of_nat v AND NOT off) OR on)"
  have w: "?w < 256 ^ 4" using unat_bound [of "(word_of_nat v AND NOT off) OR on"] by simp
  have "set_flags p off on tio = Inr (overwrite p (le_enc 4 ?w) tio)"
    using assms by (simp add: set_flags_def)
  moreover have "get_le 4 (overwrite p (le_enc 4 ?w) tio) p = Inr ?w" using assms(1) w by (intro get_le_same) auto
  ultimately show ?thesis using assms(1) by (auto simp: get_le_disjoint drop_overwrite)
qed

text \<open>
  Raw mode on a complete structure: no access outside it, the flags for the translation of input and
  output, echo, lines and signals are off, characters have eight bits without parity, every other bit of
  the four words and everything behind them is kept.
\<close>

theorem serial_raw_mode:
  assumes "length tio = termios_size"
    and "get_le 4 tio 0 = Inr i" and "get_le 4 tio 4 = Inr out" and "get_le 4 tio 8 = Inr c" and "get_le 4 tio 12 = Inr l"
  shows "\<exists>tio'. sancus_serial_setup_raw tio = Inr tio' \<and> length tio' = termios_size \<and> drop 16 tio' = drop 16 tio \<and>
    get_le 4 tio' 0 = Inr (unat (word_of_nat i AND NOT 0x5eb :: u32)) \<and>
    get_le 4 tio' 4 = Inr (unat (word_of_nat out AND NOT 0x1 :: u32)) \<and>
    get_le 4 tio' 8 = Inr (unat (word_of_nat c AND NOT 0x130 OR 0x30 :: u32)) \<and>
    get_le 4 tio' 12 = Inr (unat (word_of_nat l AND NOT 0x804b :: u32))"
proof -
  have len: "length tio = 60" using assms(1) by (simp add: termios_size_def)
  obtain t1 where 1: "set_flags 0 (0x1 OR 0x2 OR 0x8 OR 0x20 OR 0x40 OR 0x80 OR 0x100 OR 0x400) 0 tio = Inr t1" "length t1 = 60"
      "get_le 4 t1 0 = Inr (unat (word_of_nat i AND NOT 0x5eb :: u32))" "\<And>q. 4 \<le> q \<Longrightarrow> get_le 4 t1 q = get_le 4 tio q"
      "drop 4 t1 = drop 4 tio"
    using set_flags_spec [OF _ assms(2), of "0x1 OR 0x2 OR 0x8 OR 0x20 OR 0x40 OR 0x80 OR 0x100 OR 0x400" 0] len by auto
  have o1: "get_le 4 t1 4 = Inr out" using 1(4) [of 4] assms(3) by simp
  obtain t2 where 2: "set_flags 4 0x1 0 t1 = Inr t2" "length t2 = 60"
      "get_le 4 t2 4 = Inr (unat (word_of_nat out AND NOT 0x1 :: u32))" "\<And>q. q = 0 \<or> 8 \<le> q \<Longrightarrow> get_le 4 t2 q = get_le 4 t1 q"
      "drop 8 t2 = drop 8 t1"
    using set_flags_spec [OF _ o1, of "0x1" 0] 1(2) by auto
  have l2: "get_le 4 t2 12 = Inr l" using 1(4) [of 12] 2(4) [of 12] assms(5) by simp
  obtain t3 where 3: "set_flags 12 (0x8 OR 0x40 OR 0x2 OR 0x1 OR 0x8000) 0 t2 = Inr t3" "length t3 = 60"
      "get_le 4 t3 12 = Inr (unat (word_of_nat l AND NOT 0x804b :: u32))" "\<And>q. q \<le> 8 \<Longrightarrow> get_le 4 t3 q = get_le 4 t2 q"
      "drop 16 t3 = drop 16 t2"
    using set_flags_spec [OF _ l2, of "0x8 OR 0x40 OR 0x2 OR 0x1 OR 0x8000" 0] 2(2) by auto
  have c: "get_le 4 t3 8 = Inr c" using 1(4) [of 8] 2(4) [of 8] 3(4) [of 8] assms(4) by simp
  obtain t4 where 4: "set_flags 8 (0x30 OR 0x100) 0 t3 = Inr t4" "length t4 = 60"
      "get_le 4 t4 8 = Inr (unat (word_of_nat c AND NOT 0x130 :: u32))" "\<And>q. q \<le> 4 \<or> 12 \<le> q \<Longrightarrow> get_le 4 t4 q = get_le 4 t3 q"
      "drop 12 t4 = drop 12 t3"
    using set_flags_spec [OF _ c, of "0x30 OR 0x100" 0] 3(2) by auto
  obtain t5 where 5: "set_flags 8 0 0x30 t4 = Inr t5" "length t5 = 60"
      "get_le 4 t5 8 = Inr (unat (word_of_nat c AND NOT 0x130 OR 0x30 :: u32))" "\<And>q. q \<le> 4 \<or> 12 \<le> q \<Longrightarrow> get_le 4 t5 q = get_le 4 t4 q"
      "drop 12 t5 = drop 12 t4"
    using set_flags_spec [OF _ 4(3), of 0 "0x30"] 4(2) by auto
  have d: "drop 16 t5 = drop 16 tio"
    using arg_cong [OF 1(5), of "drop 12"] arg_cong [OF 2(5), of "drop 8"] 3(5) arg_cong [OF 4(5), of "drop 4"]
      arg_cong [OF 5(5), of "drop 4"] by simp
  have "sancus_serial_setup_raw tio = Inr t5"
    unfolding sancus_serial_setup_raw_def 1(1) ebind_Inr 2(1) 3(1) 4(1) 5(1) ..
  moreover have "get_le 4 t5 0 = get_le 4 t1 0" "get_le 4 t5 4 = get_le 4 t2 4" "get_le 4 t5 12 = get_le 4 t3 12"
    using 2(4) [of 0] 3(4) [of 0] 3(4) [of 4] 4(4) [of 0] 4(4) [of 4] 4(4) [of 12] 5(4) [of 0] 5(4) [of 4] 5(4) [of 12]
    by simp_all
  ultimately show ?thesis using d 1(3) 2(3) 3(3) 5(2,3) by (simp add: termios_size_def)
qed

theorem serial_raw_mode_witness:
  "\<exists>tio'. sancus_serial_setup_raw (replicate 60 255) = Inr tio' \<and> drop 16 tio' = replicate 44 255 \<and> get_le 4 tio' 4 = Inr 4294967294"
proof -
  have f: "get_le 4 (replicate 60 255) p = Inr 4294967295" if "p \<le> 12" for p
  proof -
    have "replicate 4 (255 :: byte) = [255, 255, 255, 255]" by (simp add: numeral_eq_Suc)
    with that show ?thesis by (simp add: get_le_def)
  qed
  from serial_raw_mode [of "replicate 60 255" 4294967295 4294967295 4294967295 4294967295] f
  show ?thesis by (auto simp: termios_size_def)
qed

end
