(* ===== verification/Logger.thy ===== *)
theory Logger
  imports Buffer Buffer_Type Fd Fmt Types Clock Bits
begin

text \<open>
  The logger, \<^verbatim>\<open>include/sancus/logger.h\<close> and \<^verbatim>\<open>src/sancus/logger.c\<close>: a chain of loggers with masks,
  prefixes and backends, messages put together in local buffers, data dumped in C-string and hexdump
  form, and the backend that writes lines to a descriptor. A chain of loggers is finite here. Text that
  \<open>vsnprintf\<close> makes of a caller's format is an argument; the formats of the logger itself are written
  out. The mutex of the descriptor backend has no counterpart in a single thread.
\<close>

subsection \<open>Loggers\<close>

text \<open>A backend: its function, by identity (\<open>None\<close> for \<open>NULL\<close>), and its context.\<close>

record sancus_logger_backend =
  be_f :: "nat option"
  be_ctx :: nat

text \<open>A prefixer is called with the size of its buffer; it returns its result and the bytes it stores.\<close>

datatype sancus_logger =
  Logger (log_parent: "sancus_logger option") (log_prefix: "byte list option") (log_mask: u32)
    (log_prefixer: "(nat \<Rightarrow> int \<times> byte list) option") (log_backend: "sancus_logger_backend option")

text \<open>The levels, their bits in a mask, and the masks of the usual verbosities.\<close>

abbreviation (input) SANCUS_LOG_ERROR_BIT :: u32 where "SANCUS_LOG_ERROR_BIT \<equiv> 0"
abbreviation (input) SANCUS_LOG_WARN_BIT :: u32 where "SANCUS_LOG_WARN_BIT \<equiv> 1"
abbreviation (input) SANCUS_LOG_INFO_BIT :: u32 where "SANCUS_LOG_INFO_BIT \<equiv> 2"
abbreviation (input) SANCUS_LOG_TRACE_BIT :: u32 where "SANCUS_LOG_TRACE_BIT \<equiv> 3"
abbreviation (input) SANCUS_LOG_DEBUG_BIT :: u32 where "SANCUS_LOG_DEBUG_BIT \<equiv> 4"
abbreviation (input) SANCUS_LOG_NEXT_BIT :: u32 where "SANCUS_LOG_NEXT_BIT \<equiv> 8"

abbreviation (input) SANCUS_LOG_ERR :: u32 where "SANCUS_LOG_ERR \<equiv> 1"
abbreviation (input) SANCUS_LOG_WARN :: u32 where "SANCUS_LOG_WARN \<equiv> 2"
abbreviation (input) SANCUS_LOG_INFO :: u32 where "SANCUS_LOG_INFO \<equiv> 4"
abbreviation (input) SANCUS_LOG_TRACE :: u32 where "SANCUS_LOG_TRACE \<equiv> 8"
abbreviation (input) SANCUS_LOG_DEBUG :: u32 where "SANCUS_LOG_DEBUG \<equiv> 16"
abbreviation (input) LOG_PRELUDE_SIZE :: "'n::numeral" where "LOG_PRELUDE_SIZE \<equiv> 64"
abbreviation (input) LOG_PREFIX_SIZE :: "'n::numeral" where "LOG_PREFIX_SIZE \<equiv> 128"
abbreviation (input) LOG_MESSAGE_SIZE :: "'n::numeral" where "LOG_MESSAGE_SIZE \<equiv> 256"
abbreviation (input) LOG_DATA_SIZE :: "'n::numeral" where "LOG_DATA_SIZE \<equiv> 256"

abbreviation (input) SANCUS_LOG_NEXT :: u32 where "SANCUS_LOG_NEXT \<equiv> 256"
abbreviation (input) SANCUS_LOG_QUIET :: u32 where "SANCUS_LOG_QUIET \<equiv> 3"
abbreviation (input) SANCUS_LOG_NORMAL :: u32 where "SANCUS_LOG_NORMAL \<equiv> 7"
abbreviation (input) SANCUS_LOG_VERBOSE :: u32 where "SANCUS_LOG_VERBOSE \<equiv> 23"

text \<open>The mask of a level is its bit, and the verbosities are unions of levels.\<close>

lemma log_level_masks:
  "SANCUS_LOG_ERR = push_bit (unat SANCUS_LOG_ERROR_BIT) 1" "SANCUS_LOG_WARN = push_bit (unat SANCUS_LOG_WARN_BIT) 1"
  "SANCUS_LOG_INFO = push_bit (unat SANCUS_LOG_INFO_BIT) 1" "SANCUS_LOG_TRACE = push_bit (unat SANCUS_LOG_TRACE_BIT) 1"
  "SANCUS_LOG_DEBUG = push_bit (unat SANCUS_LOG_DEBUG_BIT) 1" "SANCUS_LOG_NEXT = push_bit (unat SANCUS_LOG_NEXT_BIT) 1"
  "SANCUS_LOG_QUIET = SANCUS_LOG_ERR OR SANCUS_LOG_WARN" "SANCUS_LOG_NORMAL = SANCUS_LOG_QUIET OR SANCUS_LOG_INFO"
  "SANCUS_LOG_VERBOSE = SANCUS_LOG_NORMAL OR SANCUS_LOG_DEBUG"
  by simp_all

definition sancus_logger_init2 ::
  "sancus_logger option \<Rightarrow> sancus_logger option \<Rightarrow> (nat \<Rightarrow> int \<times> byte list) option \<Rightarrow> u32 \<Rightarrow>
   byte list option \<Rightarrow> sancus_logger option" where
  "sancus_logger_init2 log par f msk prefix =
     (case log of
        None \<Rightarrow> None
      | Some _ \<Rightarrow>
          let msk = (if msk = 0 \<and> par = None then SANCUS_LOG_NORMAL else msk)
          in Some (Logger par prefix msk f None))"

definition sancus_logger_init :: "sancus_logger option \<Rightarrow> byte list option \<Rightarrow> u32 \<Rightarrow> sancus_logger option" where
  "sancus_logger_init log prefix msk = sancus_logger_init2 log None None msk prefix"

text \<open>The initializers of static loggers.\<close>

definition SANCUS_LOGGER_INIT :: "byte list option \<Rightarrow> u32 \<Rightarrow> sancus_logger" where
  "SANCUS_LOGGER_INIT S M = Logger None S (if M = 0 then SANCUS_LOG_NORMAL else M) None None"

definition DECL_SANCUS_LOGGER :: "byte list option \<Rightarrow> u32 \<Rightarrow> sancus_logger" where
  "DECL_SANCUS_LOGGER S M = SANCUS_LOGGER_INIT S M"

lemma logger_init_static: "sancus_logger_init (Some l) S M = Some (DECL_SANCUS_LOGGER S M)"
  by (simp add: sancus_logger_init_def sancus_logger_init2_def DECL_SANCUS_LOGGER_def SANCUS_LOGGER_INIT_def)

definition sancus_logger_get_parent :: "sancus_logger option \<Rightarrow> sancus_logger option" where
  "sancus_logger_get_parent log = (case log of Some l \<Rightarrow> log_parent l | None \<Rightarrow> None)"

fun sancus_logger_set_prefix :: "sancus_logger \<Rightarrow> byte list option \<Rightarrow> sancus_logger" where
  "sancus_logger_set_prefix (Logger par _ msk f be) prefix = Logger par prefix msk f be"

definition sancus_logger_get_prefix :: "sancus_logger option \<Rightarrow> byte list option" where
  "sancus_logger_get_prefix log = (case log of Some l \<Rightarrow> log_prefix l | None \<Rightarrow> None)"

fun sancus_logger_set_prefixer :: "sancus_logger \<Rightarrow> (nat \<Rightarrow> int \<times> byte list) option \<Rightarrow> sancus_logger" where
  "sancus_logger_set_prefixer (Logger par prefix msk _ be) f = Logger par prefix msk f be"

fun sancus_logger_set_mask :: "sancus_logger \<Rightarrow> u32 \<Rightarrow> sancus_logger" where
  "sancus_logger_set_mask (Logger par prefix _ f be) msk = Logger par prefix msk f be"

definition sancus_logger_extend_mask :: "sancus_logger \<Rightarrow> u32 \<Rightarrow> sancus_logger exec" where
  "sancus_logger_extend_mask log msk =
     ebind (sancus_bit_cms (ucast (log_mask log)) (ucast msk) (ucast msk) 0) (\<lambda>w.
       Inr (sancus_logger_set_mask log (ucast w)))"

definition sancus_logger_unset_mask :: "sancus_logger \<Rightarrow> u32 \<Rightarrow> sancus_logger exec" where
  "sancus_logger_unset_mask log msk =
     ebind (sancus_bit_cms (ucast (log_mask log)) 0 (ucast msk) 0) (\<lambda>w.
       Inr (sancus_logger_set_mask log (ucast w)))"

fun sancus_logger_has_level :: "sancus_logger option \<Rightarrow> u32 \<Rightarrow> bool" where
  "sancus_logger_has_level None msk =
     (if msk = 0 \<or> msk AND SANCUS_LOG_ERR \<noteq> 0 then True else msk AND SANCUS_LOG_NORMAL \<noteq> 0)"
| "sancus_logger_has_level (Some (Logger par prefix own f be)) msk =
     (if msk = 0 \<or> msk AND SANCUS_LOG_ERR \<noteq> 0 then True
      else if own \<noteq> 0 then msk AND own \<noteq> 0
      else if par = None then msk AND SANCUS_LOG_NORMAL \<noteq> 0
      else sancus_logger_has_level par msk)"

subsection \<open>Backends\<close>

text \<open>The backend of the file, whose function \<open>fd_logger_write\<close> has the identity 0.\<close>

definition fd_backend :: sancus_logger_backend where
  "fd_backend = \<lparr>be_f = Some 0, be_ctx = 0\<rparr>"

text \<open>The static variable \<open>default_backend\<close> is the state.\<close>

definition sancus_logger_set_default_backend ::
  "sancus_logger_backend option \<Rightarrow> sancus_logger_backend \<Rightarrow> int \<times> sancus_logger_backend" where
  "sancus_logger_set_default_backend be cur =
     (case be of
        None \<Rightarrow> (0, fd_backend)
      | Some b \<Rightarrow> if be_f b = None then (- EINVAL, cur) else (0, b))"

fun log_find_backend :: "sancus_logger option \<Rightarrow> sancus_logger_backend \<Rightarrow> sancus_logger_backend" where
  "log_find_backend None fallback = fallback"
| "log_find_backend (Some (Logger par prefix msk f be)) fallback =
     (case be of
        Some b \<Rightarrow> if be_f b \<noteq> None then b else log_find_backend par fallback
      | None \<Rightarrow> log_find_backend par fallback)"

text \<open>The loop of \<open>log_buffer_trim\<close> from the last byte back, and the bytes it leaves.\<close>

fun trim_loop :: "byte list \<Rightarrow> byte list" where
  "trim_loop [] = []"
| "trim_loop (c # cs) = (if c = 32 \<or> c = 9 \<or> c = 10 then trim_loop cs else c # cs)"

definition log_buffer_trim :: "sancus_buffer option \<Rightarrow> byte list exec" where
  "log_buffer_trim buf =
     (case buf of
        None \<Rightarrow> Inr []
      | Some b \<Rightarrow>
          ebind (mem_get (unat (b_base b)) (unat (b_len b)) (b_buf b)) (\<lambda>w. Inr (rev (trim_loop (rev w)))))"

text \<open>
  What the logger calls: the default backend and what a call of a backend's function does with a level,
  a prefix, a message and data.
\<close>

record log_env =
  le_default :: sancus_logger_backend
  le_call :: "sancus_logger_backend \<Rightarrow> u32 \<Rightarrow> byte list \<Rightarrow> byte list \<Rightarrow> byte list \<Rightarrow> int sys"

definition log_write ::
  "log_env \<Rightarrow> sancus_logger option \<Rightarrow> u32 \<Rightarrow> sancus_buffer option \<Rightarrow> sancus_buffer option \<Rightarrow>
   sancus_buffer option \<Rightarrow> int sys" where
  "log_write env logger level pbuf mbuf dbuf =
     sbind (slift (log_buffer_trim pbuf)) (\<lambda>prefix.
     sbind (slift (log_buffer_trim mbuf)) (\<lambda>msg.
     sbind (slift (log_buffer_trim dbuf)) (\<lambda>data.
       if length prefix + length msg + length data \<noteq> 0 then
         le_call env (log_find_backend logger (le_default env)) level prefix msg data
       else sret 0)))"

subsection \<open>The descriptor backend\<close>

text \<open>
  Its data, with the two static times of \<open>fd_logger_write\<close>. The mutex is in \<open>Log_Threads\<close>: the calls of one
  thread never wait for it.
\<close>

record sancus_logger_fd_backend_data =
  bd_fd :: int
  bd_timestamp :: bool
  bd_first :: timespec
  bd_prev :: timespec

definition fd_backend_data :: sancus_logger_fd_backend_data where
  "fd_backend_data = \<lparr>bd_fd = 2, bd_timestamp = True, bd_first = TIMESPEC_INIT 0 0, bd_prev = TIMESPEC_INIT 0 0\<rparr>"

definition sancus_logger_set_fd_backend ::
  "int \<Rightarrow> sancus_logger_fd_backend_data \<Rightarrow> int \<times> sancus_logger_fd_backend_data" where
  "sancus_logger_set_fd_backend fd d = (if fd < 0 then (- EINVAL, d) else (0, d\<lparr>bd_fd := fd\<rparr>))"

definition log_iov :: "byte list \<Rightarrow> iovec" where
  "log_iov s = \<lparr>iov_block = s, iov_off = 0, iov_len = length s\<rparr>"

definition log_iov2 :: "sancus_buffer \<Rightarrow> iovec" where
  "log_iov2 b = \<lparr>iov_block = b_buf b, iov_off = unat (b_base b), iov_len = unat (b_len b)\<rparr>"

text \<open>\<open>TIMESPEC_FMT_MS\<close>: the sign, the seconds and three digits or more of milliseconds.\<close>

definition fmt_ms :: "timespec \<Rightarrow> byte list" where
  "fmt_ms t = (case TIMESPEC_SPLIT_MS t of (sg, s, ms) \<Rightarrow>
     map of_char sg @ dec s @ [46] @ replicate (3 - length (dec ms)) 48 @ dec ms)"

definition log_levels :: "byte list" where
  "log_levels = [69, 87, 73, 84, 68, 0]"

text \<open>The times of one line: since the first and since the previous one.\<close>

definition log_times ::
  "timespec \<Rightarrow> sancus_logger_fd_backend_data \<Rightarrow> (timespec \<times> timespec \<times> sancus_logger_fd_backend_data) exec" where
  "log_times ts ctx =
     ebind (if sancus_time_is_zero (bd_prev ctx) then Inr True else sancus_time_is_lt ts (bd_first ctx)) (\<lambda>warped.
     ebind (if warped then Inr (TIMESPEC_INIT 0 0, TIMESPEC_INIT 0 0, ctx\<lparr>bd_first := ts\<rparr>)
            else ebind (sancus_time_sub ts (bd_first ctx)) (\<lambda>(_, dt0).
                 ebind (sancus_time_sub ts (bd_prev ctx)) (\<lambda>(_, dt1). Inr (dt0, dt1, ctx)))) (\<lambda>(dt0, dt1, ctx).
       Inr (dt0, dt1, ctx\<lparr>bd_prev := ts\<rparr>)))"

text \<open>\<open>sancus_lbuffer_appendf\<close> with its result dropped.\<close>

definition appendf_ignore :: "sancus_buffer \<Rightarrow> byte list \<Rightarrow> sancus_buffer exec" where
  "appendf_ignore b text =
     ebind (sancus_buffer__appendf (Some b) False (Some text)) (\<lambda>(_, B).
       case B of Some b \<Rightarrow> Inr b | None \<Rightarrow> Inl Null_Deref)"

definition log_prelude ::
  "timespec \<Rightarrow> u32 \<Rightarrow> sancus_logger_fd_backend_data \<Rightarrow> (sancus_buffer \<times> sancus_logger_fd_backend_data) exec" where
  "log_prelude now level ctx =
     (let b0 = DECL_SANCUS_LBUFFER (replicate LOG_PRELUDE_SIZE 0) LOG_PRELUDE_SIZE in
      ebind (if bd_timestamp ctx then
               ebind (log_times now ctx) (\<lambda>(dt0, dt1, ctx).
               ebind (appendf_ignore b0 ([91] @ fmt_ms dt0 @ [32, 43] @ fmt_ms dt1 @ [93, 32])) (\<lambda>b.
                 Inr (b, ctx)))
             else Inr (b0, ctx)) (\<lambda>(b, ctx).
      ebind (appendf_ignore b
               (if level < 6 then [log_levels ! unat level, 47] else dec_nat (unat level) @ [47])) (\<lambda>b.
        Inr (b, ctx))))"

definition log_vectors :: "sancus_buffer \<Rightarrow> byte list \<Rightarrow> byte list \<Rightarrow> byte list \<Rightarrow> iovec list" where
  "log_vectors prelude prefix msg data =
     [log_iov2 prelude] @
     (if prefix \<noteq> [] then [log_iov prefix] @ (if msg \<noteq> [] \<or> data \<noteq> [] then [log_iov [58, 32]] else []) else []) @
     (if msg \<noteq> [] then [log_iov msg] @ (if data \<noteq> [] then [log_iov [58, 32]] else []) else []) @
     (if data \<noteq> [] then [log_iov data] else []) @
     [log_iov [10]]"

definition fd_logger_write ::
  "timespec \<Rightarrow> u32 \<Rightarrow> byte list \<Rightarrow> byte list \<Rightarrow> byte list \<Rightarrow> sancus_logger_fd_backend_data option \<Rightarrow>
   (int \<times> sancus_logger_fd_backend_data option) sys" where
  "fd_logger_write now level prefix msg data ctx =
     (case ctx of
        None \<Rightarrow> sret (- EINVAL, None)
      | Some ctx \<Rightarrow>
          sbind (slift (log_prelude now level ctx)) (\<lambda>(b, ctx).
            let iov = log_vectors b prefix msg data in
            sbind (sancus_writev (bd_fd ctx) iov (int (length iov))) (\<lambda>(rc, _).
              sret (int_cast rc, Some ctx))))"

subsection \<open>Prefix and message\<close>

text \<open>The buffer is the place \<open>p\<close> of the block \<open>m\<close>, of \<open>sz\<close> bytes.\<close>

fun log_ctx_prefix :: "sancus_logger option \<Rightarrow> byte list \<Rightarrow> nat \<Rightarrow> nat \<Rightarrow> (int \<times> byte list) exec" where
  "log_ctx_prefix None m p sz = Inr (0, m)"
| "log_ctx_prefix (Some (Logger par prefix msk f be)) m p sz =
     (if sz = 0 then Inr (0, m)
      else case f of
        Some g \<Rightarrow> ebind (mem_put p (snd (g sz)) m) (\<lambda>m. Inr (fst (g sz), m))
      | None \<Rightarrow>
          (case prefix of
             Some s \<Rightarrow>
               ebind (mem_get 0 1 s) (\<lambda>c.
                 if c = [0] then Inr (0, m)
                 else ebind (strlen s) (\<lambda>l.
                   let l = (if sz < l then sz - 1 else l) in
                   ebind (mem_get 0 l s) (\<lambda>x.
                   ebind (mem_put p x m) (\<lambda>m.
                   ebind (mem_put (p + l) [0] m) (\<lambda>m. Inr (int l, m))))))
           | None \<Rightarrow> if par = None then Inr (0, m) else log_ctx_prefix par m p sz))"

definition sancus_logger_render_prefix ::
  "sancus_logger option \<Rightarrow> byte list option \<Rightarrow> nat \<Rightarrow> (int \<times> byte list option) exec" where
  "sancus_logger_render_prefix ctx buf sz =
     (case buf of
        None \<Rightarrow> Inr (0, None)
      | Some m \<Rightarrow> ebind (log_ctx_prefix ctx m 0 sz) (\<lambda>(rc, m). Inr (rc, Some m)))"

definition log_ctx_prefix2 :: "sancus_logger option \<Rightarrow> sancus_buffer \<Rightarrow> (int \<times> sancus_buffer) exec" where
  "log_ctx_prefix2 ctx b =
     ebind (log_ctx_prefix ctx (b_buf b) (unat (b_base b) + unat (b_len b))
              (unat (sancus_buffer_tail_size (Some b)))) (\<lambda>(rc, m).
       let b = b\<lparr>b_buf := m\<rparr> in
       if rc > 0 then
         ebind (sancus_buffer_sparse (Some b) (word_of_int rc)) (\<lambda>(_, B).
           case B of Some b \<Rightarrow> Inr (rc, b) | None \<Rightarrow> Inl Null_Deref)
       else Inr (rc, b))"

text \<open>A call on a buffer that is not \<open>NULL\<close>, its result dropped.\<close>

definition drop_rc :: "(int \<times> sancus_buffer option) exec \<Rightarrow> sancus_buffer exec" where
  "drop_rc r = ebind r (\<lambda>(_, B). case B of Some b \<Rightarrow> Inr b | None \<Rightarrow> Inl Null_Deref)"

definition keep_rc :: "(int \<times> sancus_buffer option) exec \<Rightarrow> (int \<times> sancus_buffer) exec" where
  "keep_rc r = ebind r (\<lambda>(rc, B). case B of Some b \<Rightarrow> Inr (rc, b) | None \<Rightarrow> Inl Null_Deref)"

text \<open>A string argument that is empty counts as \<open>NULL\<close>.\<close>

definition nonempty_arg :: "byte list option \<Rightarrow> byte list option exec" where
  "nonempty_arg s =
     (case s of None \<Rightarrow> Inr None | Some blk \<Rightarrow> ebind (mem_get 0 1 blk) (\<lambda>c. Inr (if c = [0] then None else s)))"

definition log_fmt ::
  "sancus_buffer \<Rightarrow> byte list option \<Rightarrow> u32 \<Rightarrow> byte list option \<Rightarrow> byte list option \<Rightarrow>
   (int \<times> sancus_buffer) exec" where
  "log_fmt buf func line fmt out =
     ebind (nonempty_arg func) (\<lambda>func.
     ebind (nonempty_arg fmt) (\<lambda>fmt.
     ebind (case func of
              None \<Rightarrow> Inr buf
            | Some _ \<Rightarrow>
                ebind (drop_rc (sancus_buffer__appendz (Some buf) False func)) (\<lambda>buf.
                ebind (if line \<noteq> 0 then appendf_ignore buf (58 # dec_nat (unat line)) else Inr buf) (\<lambda>buf.
                  drop_rc (sancus_buffer_append (Some buf) (Some [58, 32]) 2)))) (\<lambda>buf.
     ebind (case fmt of
              None \<Rightarrow> Inr (0, buf)
            | Some _ \<Rightarrow> keep_rc (sancus_buffer__appendv (Some buf) True out)) (\<lambda>(rc, buf).
       if rc < 0 then Inr (rc, buf)
       else ebind (drop_rc (sancus_buffer_stripany (Some buf) (Some [10, 9, 32, 58, 0]))) (\<lambda>buf.
         Inr (rc, buf))))))"

definition sancus_logger__vprintf ::
  "log_env \<Rightarrow> sancus_logger option \<Rightarrow> u32 \<Rightarrow> byte list option \<Rightarrow> u32 \<Rightarrow> byte list option \<Rightarrow>
   byte list option \<Rightarrow> int sys" where
  "sancus_logger__vprintf env ctx level func line fmt out =
     sbind (slift (log_ctx_prefix2 ctx (DECL_SANCUS_LBUFFER (replicate LOG_PREFIX_SIZE 0) LOG_PREFIX_SIZE))) (\<lambda>(rc, pbuf).
       if rc < 0 then sret (int_cast rc)
       else sbind (slift (log_fmt (DECL_SANCUS_LBUFFER (replicate LOG_MESSAGE_SIZE 0) LOG_MESSAGE_SIZE) func line fmt out)) (\<lambda>(rc, mbuf).
         if rc < 0 then sret (int_cast rc)
         else sbind (log_write env ctx level (Some pbuf) (Some mbuf) None) (\<lambda>rc. sret (int_cast rc))))"

definition sancus_logger__printf ::
  "log_env \<Rightarrow> sancus_logger option \<Rightarrow> u32 \<Rightarrow> byte list option \<Rightarrow> u32 \<Rightarrow> byte list option \<Rightarrow>
   byte list option \<Rightarrow> int sys" where
  "sancus_logger__printf env ctx level func line fmt out =
     sancus_logger__vprintf env ctx level func line fmt out"

subsection \<open>Dumps in C-string form\<close>

definition dump_byte :: "byte \<Rightarrow> byte list" where
  "dump_byte c =
     (if c > 0x1f \<and> c < 0x7f then (if c = 34 \<or> c = 92 then [92, c] else [c])
      else if c \<ge> 7 \<and> c \<le> 13 then [92, [97, 98, 116, 110, 118, 102, 114] ! unat (c - 7)]
      else [92, 120, hexa ! unat (drop_bit 4 (c AND 0xf0)), hexa ! unat (c AND 0x0f)])"

text \<open>Without a buffer only the length is counted.\<close>

fun dump_enc :: "sancus_buffer option \<Rightarrow> byte list \<Rightarrow> int \<Rightarrow> (int \<times> sancus_buffer option) exec" where
  "dump_enc B [] count = Inr (count, B)"
| "dump_enc B (c # cs) count =
     (let x = dump_byte c; count = count + int (length x) in
      if B = None then dump_enc None cs count
      else ebind (sancus_buffer_append B (Some x) (int (length x))) (\<lambda>(rc, B).
        if rc < 0 then Inr (rc, B) else dump_enc B cs count))"

text \<open>
  The loop of \<open>vdumpf\<close>: blocks that fit in the worst case behind ten bytes kept for the suffix. The
  result says whether it left for the label \<open>truncate\<close>, with the place reached in the data.
\<close>

function dump_blocks :: "sancus_buffer \<Rightarrow> byte list \<Rightarrow> nat \<Rightarrow> (bool \<times> nat \<times> sancus_buffer) exec" where
  "dump_blocks b data p =
     (if p \<ge> length data then Inr (False, p, b)
      else
        (let len = length data - p;
             n = unat ((sancus_buffer_tail_size (Some b) - 10) div 4);
             n = (if len > n then n else len)
         in if n = 0 then Inr (True, p, b)
            else ebind (drop_rc (dump_enc (Some b) (take n (drop p data)) 0)) (\<lambda>b.
              dump_blocks b data (p + n))))"
  by pat_completeness auto
termination by (relation "measure (\<lambda>(b, d, p). length d - p)") (auto split: if_splits)

declare dump_blocks.simps [simp del]

text \<open>The loop at \<open>truncate\<close>: take bytes off the end until the longer suffix fits.\<close>

primrec dump_back :: "byte list \<Rightarrow> nat \<Rightarrow> sancus_buffer \<Rightarrow> sancus_buffer exec" where
  "dump_back data 0 b = Inr b"
| "dump_back data (Suc p) b =
     (if sancus_buffer_tail_size (Some b) < 13 then
        ebind (dump_enc None [data ! p] 0) (\<lambda>(rc, _).
        ebind (sancus_buffer_stripn b (word_of_int rc)) (\<lambda>(_, b). dump_back data p b))
      else Inr b)"

text \<open>The data buffer of \<open>vdumpf\<close> with the dump in it, or the error of an append.\<close>

definition dump_data :: "byte list \<Rightarrow> (int \<times> sancus_buffer) exec" where
  "dump_data data =
     ebind (keep_rc (sancus_buffer_append (Some (DECL_SANCUS_LBUFFER (replicate LOG_DATA_SIZE 0) LOG_DATA_SIZE)) (Some [34]) 1)) (\<lambda>(rc, b).
       if rc < 0 then Inr (rc, b)
       else ebind (dump_blocks b data 0) (\<lambda>(truncate, p, b).
       ebind (if truncate then
                ebind (dump_back data p b) (\<lambda>b. keep_rc (sancus_buffer_append (Some b) (Some [46, 46, 46]) 3))
              else Inr (0, b)) (\<lambda>(rc, b).
         if rc < 0 then Inr (rc, b)
         else keep_rc (sancus_buffer__appendf (Some b) False
           (Some ([34, 32, 40] @ dec_nat (length data) @ [41]))))))"

definition sancus_logger__vdumpf ::
  "log_env \<Rightarrow> sancus_logger option \<Rightarrow> u32 \<Rightarrow> byte list option \<Rightarrow> u32 \<Rightarrow> byte list option \<Rightarrow> nat \<Rightarrow>
   byte list option \<Rightarrow> byte list option \<Rightarrow> int sys" where
  "sancus_logger__vdumpf env ctx level func line data len fmt out =
     (if data = None \<and> len > 0 then sret (- EINVAL)
      else
        sbind (slift (log_ctx_prefix2 ctx (DECL_SANCUS_LBUFFER (replicate LOG_PREFIX_SIZE 0) LOG_PREFIX_SIZE))) (\<lambda>(rc, pbuf).
          if rc < 0 then sret (int_cast rc)
          else sbind (slift (log_fmt (DECL_SANCUS_LBUFFER (replicate LOG_MESSAGE_SIZE 0) LOG_MESSAGE_SIZE) func line fmt out)) (\<lambda>(rc, mbuf).
            if rc < 0 then sret (int_cast rc)
            else sbind (slift (case data of None \<Rightarrow> Inr [] | Some d \<Rightarrow> mem_get 0 len d)) (\<lambda>d.
              sbind (slift (dump_data d)) (\<lambda>(rc, buf).
                if rc < 0 then sret (int_cast rc)
                else sbind (log_write env ctx level (Some pbuf) (Some mbuf) (Some buf)) (\<lambda>rc.
                  sret (int_cast rc)))))))"

definition sancus_logger__dumpf ::
  "log_env \<Rightarrow> sancus_logger option \<Rightarrow> u32 \<Rightarrow> byte list option \<Rightarrow> u32 \<Rightarrow> byte list option \<Rightarrow> nat \<Rightarrow>
   byte list option \<Rightarrow> byte list option \<Rightarrow> int sys" where
  "sancus_logger__dumpf env log level func line data len fmt out =
     sancus_logger__vdumpf env log level func line data len fmt out"

subsection \<open>Dumps in hexdump form\<close>

definition hex2 :: "byte \<Rightarrow> byte list" where
  "hex2 c = [hexa ! (unat c div 16), hexa ! (unat c mod 16)]"

text \<open>The conversion \<open>%08x\<close>.\<close>

definition hex8 :: "u32 \<Rightarrow> byte list" where
  "hex8 w = map (\<lambda>i. hexa ! (unat w div 16 ^ i mod 16)) [7, 6, 5, 4, 3, 2, 1, 0]"

fun append_each :: "sancus_buffer \<Rightarrow> byte list list \<Rightarrow> sancus_buffer exec" where
  "append_each b [] = Inr b"
| "append_each b (x # xs) =
     ebind (drop_rc (sancus_buffer_append (Some b) (Some x) (int (length x)))) (\<lambda>b. append_each b xs)"

fun appendf_each :: "sancus_buffer \<Rightarrow> byte list list \<Rightarrow> sancus_buffer exec" where
  "appendf_each b [] = Inr b"
| "appendf_each b (x # xs) = ebind (appendf_ignore b x) (\<lambda>b. appendf_each b xs)"

text \<open>One line: the bytes of the row, the offset, the hex columns and the characters.\<close>

definition hex_line :: "sancus_buffer \<Rightarrow> nat \<Rightarrow> u32 \<Rightarrow> byte list \<Rightarrow> sancus_buffer exec" where
  "hex_line b width off row =
     ebind (if width \<noteq> 0 then
              ebind (appendf_ignore b (hex8 off @ [32])) (\<lambda>b.
              ebind (appendf_each b (map (\<lambda>c. 32 # hex2 c) row)) (\<lambda>b.
                append_each b (replicate (width - length row) [32, 32, 32])))
            else appendf_each b (map (\<lambda>c. 32 # hex2 c) row)) (\<lambda>b.
     ebind (append_each b [[32, 124]]) (\<lambda>b.
     ebind (append_each b (map (\<lambda>c. [if c < 0x20 \<or> c > 0x7e then 46 else c]) row)) (\<lambda>b.
       append_each b [[124]])))"

function hexdump_loop ::
  "log_env \<Rightarrow> sancus_logger option \<Rightarrow> u32 \<Rightarrow> sancus_buffer \<Rightarrow> sancus_buffer \<Rightarrow> nat \<Rightarrow> sancus_buffer \<Rightarrow> u32 \<Rightarrow>
   byte list \<Rightarrow> int \<Rightarrow> int sys" where
  "hexdump_loop env ctx level pbuf mbuf width buf off data rc k =
     (if data = [] then sret rc k
      else
        (let n = (if width \<noteq> 0 then min width (length data) else length data) in
         sbind (slift (hex_line buf width off (take n data))) (\<lambda>buf k.
         sbind (log_write env ctx level (Some pbuf) (Some mbuf) (Some buf)) (\<lambda>rc k.
           if rc < 0 then sret rc k
           else sbind (slift (sancus_buffer_reset buf)) (\<lambda>(_, buf) k.
             hexdump_loop env ctx level pbuf mbuf width buf (off + word_of_nat n) (drop n data) rc k) k) k) k))"
  by pat_completeness auto
termination
  by (relation "measure (\<lambda>(env, ctx, level, pbuf, mbuf, width, buf, off, data, rc, k). length data)")
    (auto split: if_splits)

declare hexdump_loop.simps [simp del]

definition sancus_logger__vhexdumpf ::
  "log_env \<Rightarrow> sancus_logger option \<Rightarrow> u32 \<Rightarrow> byte list option \<Rightarrow> u32 \<Rightarrow> nat \<Rightarrow> byte list option \<Rightarrow> nat \<Rightarrow>
   byte list option \<Rightarrow> byte list option \<Rightarrow> int sys" where
  "sancus_logger__vhexdumpf env ctx level func line width data data_len fmt out =
     (if data = None \<and> data_len > 0 then sret (- EINVAL)
      else
        sbind (slift (log_ctx_prefix2 ctx (DECL_SANCUS_LBUFFER (replicate LOG_PREFIX_SIZE 0) LOG_PREFIX_SIZE))) (\<lambda>(rc, pbuf).
          if rc < 0 then sret (int_cast rc)
          else sbind (slift (log_fmt (DECL_SANCUS_LBUFFER (replicate LOG_MESSAGE_SIZE 0) LOG_MESSAGE_SIZE) func line fmt out)) (\<lambda>(rc, mbuf).
            if rc < 0 then sret (int_cast rc)
            else if data_len = 0 then
              sbind (log_write env ctx level (Some pbuf) (Some mbuf) None) (\<lambda>rc. sret (int_cast rc))
            else sbind (slift (case data of None \<Rightarrow> Inr [] | Some d \<Rightarrow> mem_get 0 data_len d)) (\<lambda>d.
              sbind (hexdump_loop env ctx level pbuf mbuf width
                (DECL_SANCUS_LBUFFER (replicate LOG_DATA_SIZE 0) LOG_DATA_SIZE) 0 d rc) (\<lambda>rc. sret (int_cast rc))))))"

definition sancus_logger__hexdumpf ::
  "log_env \<Rightarrow> sancus_logger option \<Rightarrow> u32 \<Rightarrow> byte list option \<Rightarrow> u32 \<Rightarrow> nat \<Rightarrow> byte list option \<Rightarrow> nat \<Rightarrow>
   byte list option \<Rightarrow> byte list option \<Rightarrow> int sys" where
  "sancus_logger__hexdumpf env log level func line width data data_len fmt out =
     sancus_logger__vhexdumpf env log level func line width data data_len fmt out"

text \<open>\<open>sancus__assert\<close>: the level is \<open>SANCUS_LOG_ERROR_BIT\<close>; \<open>abort\<close> is a failed assertion.\<close>

definition sancus__assert ::
  "log_env \<Rightarrow> sancus_logger option \<Rightarrow> bool \<Rightarrow> byte list option \<Rightarrow> u32 \<Rightarrow> int \<Rightarrow> byte list option \<Rightarrow>
   byte list option \<Rightarrow> int sys" where
  "sancus__assert env log ndebug func line e fmt out =
     (if e = 0 then
        sbind (sancus_logger__vprintf env log 0 func line fmt out) (\<lambda>_.
          if \<not> ndebug then sfault Assert_Fail else sret e)
      else sret e)"

subsection \<open>Levels and backends\<close>

text \<open>The mask that decides: the first that is not zero along the chain.\<close>

fun effective_mask :: "sancus_logger option \<Rightarrow> u32" where
  "effective_mask None = SANCUS_LOG_NORMAL"
| "effective_mask (Some (Logger par prefix own f be)) = (if own \<noteq> 0 then own else effective_mask par)"

lemma has_level_mask:
  "sancus_logger_has_level log msk \<longleftrightarrow> msk = 0 \<or> msk AND 1 \<noteq> 0 \<or> msk AND effective_mask log \<noteq> 0"
proof (induction log rule: effective_mask.induct)
  case (2 par prefix own f be)
  then show ?case by (cases par) auto
qed simp

lemma trim_loop_dropWhile: "trim_loop xs = dropWhile (\<lambda>c. c \<in> {32, 9, 10}) xs"
  by (induction xs) auto

lemma log_buffer_trim_spec:
  "log_buffer_trim None = Inr []"
  "buf_wf b \<Longrightarrow> log_buffer_trim (Some b) = Inr (rstrip {32, 9, 10} (contents b))"
  by (simp_all add: log_buffer_trim_def contents_window rstrip_def trim_loop_dropWhile)

subsection \<open>The encoder of dumps\<close>

lemma dump_byte_fmt: "c \<noteq> 0 \<Longrightarrow> dump_byte c = fmt_enc c"
proof -
  assume "c \<noteq> 0"
  then have pos: "0 < unat c" by (simp add: unat_gt_0)
  have b: "(c > 0x1f \<and> c < 0x7f) = (32 \<le> unat c \<and> unat c < 127)" "(c \<ge> 7 \<and> c \<le> 13) = (7 \<le> unat c \<and> unat c \<le> 13)"
    by (auto simp: word_less_nat_alt word_le_nat_alt)
  have h: "[92, 120, hexa ! unat (drop_bit 4 (c AND 0xf0)), hexa ! unat (c AND 0x0f)] = hex_esc c"
    unfolding hex_esc_def high_half low_half ..
  consider (plain) "32 \<le> unat c" "unat c < 127" | (letter) "7 \<le> unat c" "unat c \<le> 13"
    | (hex) "127 \<le> unat c \<or> (0 < unat c \<and> unat c < 7) \<or> (13 < unat c \<and> unat c < 32)"
    using pos by linarith
  then show ?thesis
  proof cases
    case plain
    then show ?thesis unfolding dump_byte_def h b fmt_enc_cases(1) [OF plain] by simp
  next
    case letter
    then have "unat (c - 7) = unat c - 7" by (simp add: unat_minus_nat)
    with letter show ?thesis unfolding dump_byte_def h b fmt_enc_cases(3) [OF letter] by simp
  next
    case hex
    then have "\<not> (32 \<le> unat c \<and> unat c < 127)" "\<not> (7 \<le> unat c \<and> unat c \<le> 13)" by linarith+
    then show ?thesis unfolding dump_byte_def h b fmt_enc_cases(4) [OF hex] by (simp only: if_False)
  qed
qed

lemma dump_byte_zero: "dump_byte 0 = hex_esc 0"
  by (simp add: dump_byte_def hex_esc_def)

interpretation dmp: escape dump_byte unescape
proof unfold_locales
  fix c :: byte and r
  show "unescape (dump_byte c @ r) = Some (c, r)"
  proof (cases "c = 0")
    case True
    then show ?thesis using unescape_hex [of 0 r] by (simp add: dump_byte_zero)
  next
    case False
    then show ?thesis using fmt.dec1_enc [of c r] by (simp add: dump_byte_fmt)
  qed
qed simp

lemma dump_byte_length: "length (dump_byte c) \<le> 4" "0 < length (dump_byte c)"
  using dmp.enc_nonempty [of c] by (auto simp: dump_byte_def)

lemma dump_all_length: "length (dmp.enc_all xs) \<le> 4 * length xs"
proof (induction xs)
  case (Cons x xs)
  then show ?case using dump_byte_length(1) [of x] by (simp add: dmp.enc_all_def)
qed (simp add: dmp.enc_all_def)

lemma dump_all_count: "length xs \<le> length (dmp.enc_all xs)"
proof (induction xs)
  case (Cons x xs)
  then show ?case
    using dump_byte_length(2) [of x] unfolding dmp.enc_all_def list.map concat.simps length_append list.size
    by linarith
qed simp

lemma dump_enc_count: "dump_enc None xs c = Inr (c + int (length (dmp.enc_all xs)), None)"
  by (induction xs arbitrary: c) (simp_all add: Let_def dmp.enc_all_def)

text \<open>With a buffer the encoder is the chunk-wise output of theory \<open>Buffer\<close>.\<close>

lemma dump_enc_step:
  "dump_enc (Some b) (x # xs) c =
     ebind (buf_put b (dump_byte x)) (\<lambda>(rc, b).
       if rc < 0 then Inr (rc, Some b) else dump_enc (Some b) xs (c + int (length (dump_byte x))))"
proof -
  have "sancus_buffer_append (Some b) (Some y) n \<noteq> Inr (rc, None)" for y n rc
    by (auto simp: sancus_buffer_append_def sancus_buffer__append_def Let_def
        str_arg_len_def ebind_eq_Inr split: if_splits)
  then show ?thesis
    by (cases "sancus_buffer_append (Some b) (Some (dump_byte x)) (int (length (dump_byte x)))")
      (auto simp: buf_put_def Let_def split: option.splits)
qed

lemma dump_enc_put_all:
  "drop_rc (dump_enc (Some b) xs c) = ebind (ob.put_all b (map dump_byte xs)) (\<lambda>(_, b). Inr b)"
proof (induction xs arbitrary: b c)
  case (Cons x xs)
  then show ?case
    unfolding dump_enc_step list.map ob.put_all.simps
    by (cases "buf_put b (dump_byte x)") (auto simp: drop_rc_def)
qed (simp add: drop_rc_def)

lemma dump_enc_fits:
  assumes "buf_wf b" and "length (dmp.enc_all xs) \<le> room b"
  shows "\<exists>b'. drop_rc (dump_enc (Some b) xs c) = Inr b' \<and> buf_wf b' \<and>
    contents b' = contents b @ dmp.enc_all xs \<and> room b' = room b - length (dmp.enc_all xs)"
  using ob.put_all_fits [OF assms(1), of "map dump_byte xs"] assms(2)
  by (auto simp: dump_enc_put_all dmp.enc_all_def)

subsection \<open>The bounds of a dump\<close>

lemma keep_rc_put:
  "keep_rc (sancus_buffer_append (Some b) (Some xs) (int (length xs))) = buf_put b xs"
  by (simp add: keep_rc_def buf_put_def)

text \<open>The buffer of a dump: the opening quote and the encoding of the first bytes of the data.\<close>

definition dumped :: "byte list \<Rightarrow> nat \<Rightarrow> sancus_buffer \<Rightarrow> bool" where
  "dumped data p b \<longleftrightarrow> buf_wf b \<and> p \<le> length data \<and>
     contents b = 34 # dmp.enc_all (take p data) \<and> room b + length (contents b) = 256"

lemma dumped_tail: "dumped data p b \<Longrightarrow> unat (sancus_buffer_tail_size (Some b)) = room b"
  by (simp add: dumped_def sancus_buffer_tail_size_def tail_size_room)

lemma dumped_length: "dumped data p b \<Longrightarrow> room b + length (dmp.enc_all (take p data)) = 255"
  by (auto simp: dumped_def)

lemma dumped_step:
  assumes "dumped data p b" and "p + n \<le> length data" and "4 * n \<le> room b"
  shows "\<exists>b'. drop_rc (dump_enc (Some b) (take n (drop p data)) 0) = Inr b' \<and> dumped data (p + n) b' \<and>
    room b' + 4 * n \<ge> room b"
proof -
  let ?xs = "take n (drop p data)"
  have l: "length (dmp.enc_all ?xs) \<le> 4 * n" using dump_all_length [of ?xs] by simp
  with assms(3) have "length (dmp.enc_all ?xs) \<le> room b" by simp
  moreover have "buf_wf b" using assms(1) by (simp add: dumped_def)
  ultimately obtain b' where b': "drop_rc (dump_enc (Some b) ?xs 0) = Inr b'" "buf_wf b'"
      "contents b' = contents b @ dmp.enc_all ?xs" "room b' = room b - length (dmp.enc_all ?xs)"
    using dump_enc_fits by blast
  have "dmp.enc_all (take (p + n) data) = dmp.enc_all (take p data) @ dmp.enc_all ?xs"
    by (simp add: dmp.enc_all_def take_add)
  with b' assms l have "dumped data (p + n) b'" by (auto simp: dumped_def)
  with b' l show ?thesis by auto
qed

lemma dump_blocks_turn:
  assumes "dumped data p b" and "10 \<le> room b"
  defines "n \<equiv> min ((room b - 10) div 4) (length data - p)"
  shows "dump_blocks b data p =
      (if p \<ge> length data then Inr (False, p, b)
       else if n = 0 then Inr (True, p, b)
       else ebind (drop_rc (dump_enc (Some b) (take n (drop p data)) 0)) (\<lambda>b. dump_blocks b data (p + n)))"
proof -
  have r: "unat ((sancus_buffer_tail_size (Some b) - 10) div 4) = (room b - 10) div 4"
    using dumped_tail [OF assms(1)] assms(2) by (simp add: unat_div_distrib unat_minus_nat)
  show ?thesis
    unfolding n_def
    by (subst dump_blocks.simps) (simp only: r Let_def min_def not_le if_distrib, auto simp: Let_def)
qed

lemma dump_blocks_spec:
  assumes "dumped data p b" and "10 \<le> room b"
  shows "\<exists>t q b'. dump_blocks b data p = Inr (t, q, b') \<and> dumped data q b' \<and> 10 \<le> room b' \<and>
    (if t then room b' < 14 \<and> q < length data else q = length data)"
  using assms
proof (induction "length data - p" arbitrary: p b rule: less_induct)
  case less
  let ?n = "min ((room b - 10) div 4) (length data - p)"
  have p: "p \<le> length data" using less.prems(1) by (simp add: dumped_def)
  note unfold = dump_blocks_turn [OF less.prems]
  show ?case
  proof (cases "p < length data \<and> ?n \<noteq> 0")
    case True
    then have "4 * ?n \<le> room b - 10" "p + ?n \<le> length data" "4 * ?n \<le> room b" by auto
    then obtain b' where b': "drop_rc (dump_enc (Some b) (take ?n (drop p data)) 0) = Inr b'"
        "dumped data (p + ?n) b'" "room b' + 4 * ?n \<ge> room b"
      using dumped_step [OF less.prems(1), of ?n] by blast
    moreover have "10 \<le> room b'" using b'(3) \<open>4 * ?n \<le> room b - 10\<close> less.prems(2) by linarith
    moreover have "length data - (p + ?n) < length data - p" using True by linarith
    moreover have "dump_blocks b data p = dump_blocks b' data (p + ?n)"
      unfolding unfold b'(1) using True by (simp only: if_False linorder_not_le [symmetric] ebind_Inr)
    ultimately show ?thesis using less.hyps [of "p + ?n" b'] by (simp only:)
  next
    case False
    then consider "p = length data" | "p < length data" "?n = 0" using p by linarith
    then show ?thesis
    proof cases
      case 1
      then have "dump_blocks b data p = Inr (False, p, b)" unfolding unfold by simp
      then show ?thesis using less.prems 1 by auto
    next
      case 2
      then have "dump_blocks b data p = Inr (True, p, b)" unfolding unfold by (simp only: linorder_not_le [symmetric] if_False if_True refl)
      moreover have "room b < 14" using 2 by (simp add: min_def split: if_splits)
      ultimately show ?thesis using less.prems 2(1) by auto
    qed
  qed
qed

lemma stripn_some:
  assumes "buf_wf b" and "0 < unat n" and "unat n < length (contents b)"
  shows "\<exists>b'. sancus_buffer_stripn b n = Inr (int (length (contents b) - unat n), b') \<and> buf_wf b' \<and>
    contents b' = take (length (contents b) - unat n) (contents b) \<and> room b' = room b + unat n"
proof -
  have l: "unat n < unat (b_len b)" using assms(3) length_contents [OF assms(1)] by simp
  have "n \<noteq> 0" "b_buf b \<noteq> []" using assms(2) l buf_wfD(1,2) [OF assms(1)] by auto
  then obtain b' where b': "sancus_buffer_stripn b n = Inr (int (length (contents b) - unat n), b')" "buf_wf b'"
      "contents b' = take (length (contents b) - unat n) (contents b)"
    using stripn_spec(2) [OF assms(1), of n] by auto
  moreover have "b_size b' = b_size b" "b_base b' = b_base b"
    using b'(1) l by (auto simp: sancus_buffer_stripn_def word_less_nat_alt ebind_eq_Inr)
  moreover have "unat (b_len b') = unat (b_len b) - unat n"
    using length_contents [OF b'(2)] length_contents [OF assms(1)] b'(3) by simp
  ultimately show ?thesis using l buf_wfD(1) [OF assms(1)] by (auto simp: room_def)
qed

lemma dump_back_spec:
  assumes "dumped data p b" and "room b < 17"
  shows "\<exists>k b'. dump_back data p b = Inr b' \<and> dumped data k b' \<and> k \<le> p \<and> 13 \<le> room b' \<and> room b' < 17"
  using assms
proof (induction p arbitrary: b)
  case 0
  then show ?case by (auto simp: dumped_def dmp.enc_all_def)
next
  case (Suc p)
  let ?x = "dump_byte (data ! p)"
  have p: "p < length data" using Suc.prems(1) by (simp add: dumped_def)
  have tail: "sancus_buffer_tail_size (Some b) < 13 \<longleftrightarrow> room b < 13"
    using dumped_tail [OF Suc.prems(1)] by (simp add: word_less_nat_alt)
  have x: "0 < length ?x" "length ?x \<le> 4" using dump_byte_length by auto
  have e: "dmp.enc_all (take (Suc p) data) = dmp.enc_all (take p data) @ ?x"
    using p by (simp add: take_Suc_conv_app_nth dmp.enc_all_def)
  show ?case
  proof (cases "room b < 13")
    case True
    define n where "n = (word_of_int (int (length ?x)) :: u64)"
    have n: "unat n = length ?x" using x by (simp add: n_def take_bit_nat_eq_self unat_of_nat)
    have "buf_wf b" "length ?x < length (contents b)" using Suc.prems(1) e by (auto simp: dumped_def)
    then obtain b' where b': "sancus_buffer_stripn b n = Inr (int (length (contents b) - length ?x), b')" "buf_wf b'"
        "contents b' = take (length (contents b) - length ?x) (contents b)" "room b' = room b + length ?x"
      using stripn_some [of b n] x(1) by (auto simp: n)
    have "dumped data p b'" using b' Suc.prems(1) e p by (auto simp: dumped_def)
    moreover have "room b' < 17" using b'(4) x(2) True by simp
    ultimately obtain k b'' where "dump_back data p b' = Inr b''" "dumped data k b''" "k \<le> p" "13 \<le> room b''" "room b'' < 17"
      using Suc.IH by blast
    then show ?thesis using b'(1) True tail
      by (auto simp: dump_enc_count dmp.enc_all_def n_def intro!: exI [of _ k])
  next
    case False
    then show ?thesis using Suc.prems tail by auto
  qed
qed

text \<open>What follows the encoded data: dots when the data was cut, the closing quote and the length.\<close>

definition dump_suffix :: "bool \<Rightarrow> nat \<Rightarrow> byte list" where
  "dump_suffix c n = (if c then [46, 46, 46] else []) @ [34, 32, 40] @ dec_nat n @ [41]"

lemma dump_close:
  assumes "buf_wf b" and "10 \<le> room b" and "n < 100000"
  shows "\<exists>rc b'. keep_rc (sancus_buffer__appendf (Some b) False (Some ([34, 32, 40] @ dec_nat n @ [41]))) = Inr (rc, b') \<and>
    0 < rc \<and> buf_wf b' \<and> contents b' = contents b @ dump_suffix False n"
proof -
  have "length ([34, 32, 40] @ dec_nat n @ [41 :: byte]) < room b"
    using dec_nat_length [of n 4] assms(2,3) by simp
  from appendv_fits [OF assms(1) this, of False] show ?thesis
    by (auto simp: keep_rc_def sancus_buffer__appendf_def dump_suffix_def)
qed

lemma dump_open:
  "\<exists>b. buf_put (DECL_SANCUS_LBUFFER (replicate 256 0) 256) [34] = Inr (1, b) \<and> dumped data 0 b \<and> room b = 255"
proof -
  let ?b = "DECL_SANCUS_LBUFFER (replicate 256 0) 256"
  have f: "buf_wf ?b" "contents ?b = []" "room ?b = 256" using lbuffer_fresh [of 256 "replicate 256 0"] by simp_all
  with ob.put_fits [of ?b "[34]"] show ?thesis by (auto simp: dumped_def dmp.enc_all_def)
qed

lemma dump_cut:
  assumes "dumped data p b" and "room b < 14" and "p < length data" and "length data < 100000"
  shows "\<exists>rc k b'. ebind (ebind (dump_back data p b) (\<lambda>b. keep_rc (sancus_buffer_append (Some b) (Some [46, 46, 46]) 3)))
      (\<lambda>(rc, b). if rc < 0 then Inr (rc, b)
        else keep_rc (sancus_buffer__appendf (Some b) False (Some ([34, 32, 40] @ dec_nat (length data) @ [41])))) = Inr (rc, b') \<and>
    0 < rc \<and> buf_wf b' \<and> 60 \<le> k \<and> k < length data \<and>
    length (dmp.enc_all (take k data)) \<in> {239..242} \<and>
    contents b' = 34 # dmp.enc_all (take k data) @ dump_suffix True (length data)"
proof -
  have "room b < 17" using assms(2) by simp
  from dump_back_spec [OF assms(1) this] obtain k b1
    where k: "dump_back data p b = Inr b1" "dumped data k b1" "k \<le> p" "13 \<le> room b1" "room b1 < 17" by blast
  have len: "length (dmp.enc_all (take k data)) \<in> {239..242}" using k(2,4,5) by (auto simp: dumped_def)
  then have "239 \<le> 4 * k" using dump_all_length [of "take k data"] by auto
  then have k60: "60 \<le> k" by simp
  have wf: "buf_wf b1" using k(2) by (simp add: dumped_def)
  with k(4) obtain b2 where b2: "buf_put b1 [46, 46, 46] = Inr (3, b2)" "buf_wf b2"
      "contents b2 = contents b1 @ [46, 46, 46]" "room b2 = room b1 - 3"
    using ob.put_fits [of b1 "[46, 46, 46]"] by auto
  have "10 \<le> room b2" using b2(4) k(4) by linarith
  from dump_close [OF b2(2) this assms(4)]
  obtain rc b' where "keep_rc (sancus_buffer__appendf (Some b2) False
        (Some ([34, 32, 40] @ dec_nat (length data) @ [41]))) = Inr (rc, b')"
      "0 < rc" "buf_wf b'" "contents b' = contents b2 @ dump_suffix False (length data)"
    by blast
  with b2 show ?thesis using k k60 len assms(3) keep_rc_put [of b1 "[46, 46, 46]"]
    by (intro exI [of _ rc] exI [of _ k] exI [of _ b']) (simp add: dump_suffix_def dumped_def)
qed

lemma dump_suffix_length:
  "length (dump_suffix c n) = length (dec_nat n) + (if c then 7 else 4)"
  by (simp add: dump_suffix_def)

text \<open>The block of a dump is the one it was declared with, whatever the appends did.\<close>

definition data_block :: "sancus_buffer \<Rightarrow> bool" where
  "data_block b \<longleftrightarrow> buf_wf b \<and> b_size b = 256 \<and> length (b_buf b) = 256"

lemma data_block_typed: "data_block b \<Longrightarrow> typed_as b b' \<Longrightarrow> data_block b'"
  by (simp add: data_block_def typed_as_def same_block_def)

lemma data_block_append:
  assumes "data_block b" and "keep_rc (sancus_buffer_append (Some b) t l) = Inr (rc, b')"
  shows "data_block b'"
  using assms data_block_typed [OF assms(1) append_typed [of b False t l rc b']]
  by (auto simp: keep_rc_def sancus_buffer_append_def ebind_eq_Inr data_block_def split: option.splits)

lemma data_block_appendf:
  assumes "data_block b" and "keep_rc (sancus_buffer__appendf (Some b) tr t) = Inr (rc, b')"
  shows "data_block b'"
  using assms data_block_typed [OF assms(1) appendv_typed [of b tr t rc b']]
  by (auto simp: keep_rc_def sancus_buffer__appendf_def ebind_eq_Inr data_block_def split: option.splits)

lemma data_block_put: "data_block b \<Longrightarrow> buf_put b x = Inr (rc, b') \<Longrightarrow> data_block b'"
  using data_block_append by (simp add: keep_rc_put [symmetric])

lemma data_block_put_all: "data_block b \<Longrightarrow> ob.put_all b xs = Inr (rc, b') \<Longrightarrow> data_block b'"
proof (induction xs arbitrary: b)
  case (Cons x xs)
  then obtain r b1 where "buf_put b x = Inr (r, b1)" "b1 = b' \<or> ob.put_all b1 xs = Inr (rc, b')"
    by (auto simp: ebind_eq_Inr split: if_splits)
  with Cons.IH Cons.prems(1) data_block_put show ?case by blast
qed simp

lemma data_block_blocks: "dump_blocks b data p = Inr (t, q, b') \<Longrightarrow> data_block b \<Longrightarrow> data_block b'"
proof (induction "length data - p" arbitrary: b p rule: less_induct)
  case less
  let ?n = "unat ((sancus_buffer_tail_size (Some b) - 10) div 4)"
  define n where "n = (if length data - p > ?n then ?n else length data - p)"
  note unfold = less.prems(1) [unfolded dump_blocks.simps [of b data p] Let_def, folded n_def]
  show ?case
  proof (cases "length data \<le> p \<or> n = 0")
    case True
    then have "b' = b" using unfold by (auto split: if_splits)
    then show ?thesis using less.prems(2) by simp
  next
    case False
    then obtain b1 where b1: "drop_rc (dump_enc (Some b) (take n (drop p data)) 0) = Inr b1"
        "dump_blocks b1 data (p + n) = Inr (t, q, b')" using unfold by (auto simp: ebind_eq_Inr)
    then have "data_block b1"
      using data_block_put_all less.prems(2) by (auto simp: dump_enc_put_all ebind_eq_Inr)
    moreover have "length data - (p + n) < length data - p" using False by linarith
    ultimately show ?thesis using less.hyps [of "p + n" b1] b1(2) by simp
  qed
qed

lemma data_block_back: "dump_back data p b = Inr b' \<Longrightarrow> data_block b \<Longrightarrow> data_block b'"
proof (induction p arbitrary: b)
  case (Suc p)
  show ?case
  proof (cases "sancus_buffer_tail_size (Some b) < 13")
    case True
    then obtain n r b1 where "sancus_buffer_stripn b n = Inr (r, b1)" "dump_back data p b1 = Inr b'"
      using Suc.prems(1) by (auto simp: ebind_eq_Inr simp del: dump_enc.simps)
    then show ?thesis
      using Suc.IH Suc.prems(2) data_block_typed stripn_typed by (metis data_block_def)
  qed (use Suc.prems in simp)
qed simp

lemma data_block_dump:
  assumes "dump_data data = Inr (rc, b)" shows "data_block b"
proof -
  let ?b = "DECL_SANCUS_LBUFFER (replicate 256 0) 256"
  have fresh: "data_block ?b"
    using lbuffer_fresh [of 256 "replicate 256 0"] by (simp add: data_block_def DECL_SANCUS_LBUFFER_def)
  obtain r b0 where b0: "keep_rc (sancus_buffer_append (Some ?b) (Some [34]) 1) = Inr (r, b0)"
    using assms by (auto simp: dump_data_def ebind_eq_Inr)
  note d0 = data_block_append [OF fresh b0]
  show ?thesis
  proof (cases "r < 0")
    case True
    then show ?thesis using assms b0 d0 by (simp add: dump_data_def)
  next
    case False
    then obtain t q b1 where b1: "dump_blocks b0 data 0 = Inr (t, q, b1)"
      using assms b0 by (auto simp: dump_data_def ebind_eq_Inr)
    note d1 = data_block_blocks [OF b1 d0]
    obtain r' b2 where b2: "(if t then ebind (dump_back data q b1) (\<lambda>b. keep_rc (sancus_buffer_append (Some b) (Some [46, 46, 46]) 3))
        else Inr (0, b1)) = Inr (r', b2)"
        "b2 = b \<or> keep_rc (sancus_buffer__appendf (Some b2) False (Some ([34, 32, 40] @ dec_nat (length data) @ [41]))) = Inr (rc, b)"
      using assms b0 False b1 unfolding dump_data_def
      by (fastforce simp: ebind_eq_Inr [of "if _ then _ else _"] split: if_split_asm)
    have "data_block b2"
    proof (cases t)
      case True
      then obtain b3 where "dump_back data q b1 = Inr b3"
          "keep_rc (sancus_buffer_append (Some b3) (Some [46, 46, 46]) 3) = Inr (r', b2)"
        using b2(1) by (auto simp: ebind_eq_Inr)
      then show ?thesis using data_block_back d1 data_block_append by blast
    qed (use b2(1) d1 in simp)
    then show ?thesis using b2(2) data_block_appendf by blast
  qed
qed

text \<open>
  C14. The dump of fewer than 100000 bytes of data always succeeds and stays in its block of 256 bytes
  with the last byte left for the terminator: it is the opening quote, the encoding of a beginning
  of the data, three dots when bytes were left out, the closing quote and the length of all the data.
  At most 249 bytes of the data are shown. A dump that leaves bytes out has at least the first 60 of
  them and fills 248 bytes or more, and decoding what is between the quotes gives back the bytes
  dumped.
\<close>

theorem dump_data_spec:
  assumes "length data < 100000"
  shows "\<exists>rc b k. dump_data data = Inr (rc, b) \<and> 0 < rc \<and> buf_wf b \<and>
    b_size b = 256 \<and> length (b_buf b) = 256 \<and> length (contents b) \<le> 255 \<and>
    k \<le> length data \<and> k \<le> 249 \<and>
    (k < length data \<longrightarrow> 60 \<le> k \<and> 248 \<le> length (contents b)) \<and>
    contents b = 34 # dmp.enc_all (take k data) @ dump_suffix (k < length data) (length data) \<and>
    dmp.dec_all k (dmp.enc_all (take k data)) = take k data"
proof -
  obtain b0 where b0: "buf_put (DECL_SANCUS_LBUFFER (replicate 256 0) 256) [34] = Inr (1, b0)" "dumped data 0 b0" "room b0 = 255"
    using dump_open by blast
  have open_eq: "keep_rc (sancus_buffer_append (Some (DECL_SANCUS_LBUFFER (replicate 256 0) 256)) (Some [34]) 1) = Inr (1, b0)"
    using keep_rc_put [of _ "[34]"] b0(1) by simp
  obtain t q b1 where b1: "dump_blocks b0 data 0 = Inr (t, q, b1)" "dumped data q b1" "10 \<le> room b1"
      "if t then room b1 < 14 \<and> q < length data else q = length data"
    using dump_blocks_spec [OF b0(2)] b0(3) by auto
  have dec: "dmp.dec_all k (dmp.enc_all (take k data)) = take k data" for k
    by (rule dmp.dec_enc_all) simp
  have digits: "1 \<le> length (dec_nat (length data))" "length (dec_nat (length data)) \<le> 5"
    using dec_nat_ne [of "length data"] dec_nat_length [of "length data" 4] assms by (simp_all add: Suc_leI)
  have count: "length (take k data) \<le> length (dmp.enc_all (take k data))" for k
    by (rule dump_all_count)
  show ?thesis
  proof (cases t)
    case True
    then have "room b1 < 14" "q < length data" using b1(4) by auto
    from dump_cut [OF b1(2) this assms] obtain rc k b' where c:
      "ebind (ebind (dump_back data q b1) (\<lambda>b. keep_rc (sancus_buffer_append (Some b) (Some [46, 46, 46]) 3)))
        (\<lambda>(rc, b). if rc < 0 then Inr (rc, b)
          else keep_rc (sancus_buffer__appendf (Some b) False (Some ([34, 32, 40] @ dec_nat (length data) @ [41])))) = Inr (rc, b')"
      "0 < rc" "buf_wf b'" "60 \<le> k" "k < length data" "length (dmp.enc_all (take k data)) \<in> {239..242}"
      "contents b' = 34 # dmp.enc_all (take k data) @ dump_suffix True (length data)" by blast
    have "dump_data data = Inr (rc, b')" using c(1) True by (simp add: dump_data_def open_eq b1(1))
    with c(2-) dec [of k] data_block_dump show ?thesis using digits count [of k]
      by (intro exI [of _ rc] exI [of _ b'] exI [of _ k]) (auto simp: dump_suffix_length data_block_def)
  next
    case False
    have wf: "buf_wf b1" using b1(2) by (simp add: dumped_def)
    obtain rc b' where "keep_rc (sancus_buffer__appendf (Some b1) False
          (Some ([34, 32, 40] @ dec_nat (length data) @ [41]))) = Inr (rc, b')"
        "0 < rc" "buf_wf b'" "contents b' = contents b1 @ dump_suffix False (length data)"
      using dump_close [OF wf b1(3) assms] by blast
    moreover from this have d: "dump_data data = Inr (rc, b')"
      using False b1(1) by (simp add: dump_data_def open_eq)
    moreover have "length (dmp.enc_all data) \<le> 245"
      using dumped_length [OF b1(2)] b1(3,4) False by simp
    ultimately show ?thesis using False b1 dec [of "length data"] data_block_dump [OF d] digits count [of "length data"]
      by (intro exI [of _ rc] exI [of _ b'] exI [of _ "length data"])
        (simp add: dumped_def dump_suffix_length data_block_def)
  qed
qed

theorem dump_data_spec_witness:
  "\<exists>rc b k. dump_data [65, 0, 34] = Inr (rc, b) \<and> 0 < rc \<and> k = 3 \<and>
    contents b = 34 # dmp.enc_all (take k [65, 0, 34]) @ dump_suffix False 3"
proof -
  obtain rc b k where s: "dump_data [65, 0, 34] = Inr (rc, b)" "0 < rc" "k \<le> 3" "k < 3 \<longrightarrow> 60 \<le> k"
      "contents b = 34 # dmp.enc_all (take k [65, 0, 34]) @ dump_suffix (k < 3) 3"
    using dump_data_spec [of "[65, 0, 34]"] by (auto simp: numeral_3_eq_3)
  then have "k = 3" by linarith
  with s show ?thesis by auto
qed

subsection \<open>Lines on a descriptor\<close>

text \<open>The text of a line: parts that are not empty, separated by a colon and a space.\<close>

fun joined :: "byte list list \<Rightarrow> byte list" where
  "joined [] = []"
| "joined [x] = x"
| "joined (x # y # zs) = x @ [58, 32] @ joined (y # zs)"

definition log_line :: "byte list \<Rightarrow> byte list \<Rightarrow> byte list \<Rightarrow> byte list \<Rightarrow> byte list" where
  "log_line prelude prefix msg data = prelude @ joined (List.filter (\<lambda>x. x \<noteq> []) [prefix, msg, data]) @ [10]"

lemma log_iov_bytes: "iov_bytes (log_iov s) = Inr s"
  by (simp add: iov_bytes_def log_iov_def)

lemma log_iov2_bytes: "buf_wf b \<Longrightarrow> iov_bytes (log_iov2 b) = Inr (contents b)"
  by (simp add: iov_bytes_def log_iov2_def contents_window)

lemma gather_append:
  "iov_gather us = Inr xs \<Longrightarrow> iov_gather vs = Inr ys \<Longrightarrow> iov_gather (us @ vs) = Inr (xs @ ys)"
  by (induction us arbitrary: xs) (auto simp: ebind_eq_Inr)

lemma log_vectors_gather:
  assumes "buf_wf b"
  shows "\<exists>ds. iov_gather (log_vectors b prefix msg data) = Inr ds \<and>
    concat ds = log_line (contents b) prefix msg data"
  using log_iov2_bytes [OF assms]
  by (auto simp: log_vectors_def log_line_def log_iov_bytes)

lemma log_vectors_last: "\<exists>us. log_vectors b prefix msg data = us @ [log_iov [10]]"
  by (simp add: log_vectors_def)

lemma prelude_plain:
  assumes "\<not> bd_timestamp ctx"
  shows "\<exists>b. log_prelude now level ctx = Inr (b, ctx) \<and> buf_wf b \<and>
    contents b = (if level < 6 then [log_levels ! unat level] else dec_nat (unat level)) @ [47]"
proof -
  let ?b = "DECL_SANCUS_LBUFFER (replicate 64 0) 64"
  let ?t = "if level < 6 then [log_levels ! unat level, 47] else dec_nat (unat level) @ [47]"
  have f: "buf_wf ?b" "contents ?b = []" "room ?b = 64" using lbuffer_fresh [of 64 "replicate 64 0"] by simp_all
  have "unat level < 10 ^ Suc 9" using unat_bound [of level] by simp
  then have "length (dec_nat (unat level)) \<le> Suc 9" by (rule dec_nat_length)
  then have "length ?t < room ?b" using f(3) by simp
  from appendv_fits [OF f(1) this, of False] f(2) assms show ?thesis
    by (auto simp: log_prelude_def appendf_ignore_def sancus_buffer__appendf_def)
qed

text \<open>
  One line of the descriptor backend: when the prelude is built and the kernel, after any number of
  interruptions, takes a line whole, exactly the line reaches the descriptor, once: the prelude, those of
  prefix, message and data that are not empty with a colon and a space between them, and a newline. The
  result is the length of the line.
\<close>

theorem fd_logger_line:
  assumes "log_prelude now level ctx = Inr (b, ctx')" and "buf_wf b"
    and "length (log_line (contents b) prefix msg data) \<le> n"
    and "length (log_line (contents b) prefix msg data) < 2 ^ 31"
  shows "\<exists>tr'. fd_logger_write now level prefix msg data (Some ctx) (replicate m (Err EINTR) @ Ret n x # s, tr) =
      (Done (int (length (log_line (contents b) prefix msg data)), Some ctx'), (s, tr @ tr')) \<and>
    written (bd_fd ctx') tr' = log_line (contents b) prefix msg data"
proof -
  let ?iov = "log_vectors b prefix msg data"
  obtain us where us: "?iov = us @ [log_iov [10]]" using log_vectors_last by blast
  obtain ds where ds: "iov_gather ?iov = Inr ds" "concat ds = log_line (contents b) prefix msg data"
    using log_vectors_gather [OF assms(2)] by blast
  have w: "writev_loop fd [] ?iov 0 (replicate m (Err EINTR) @ Ret n x # s, tr) =
      (Done (int (length (concat ds)), ?iov),
       (s, tr @ replicate m (Writev fd ds, Err EINTR) @ [(Writev fd ds, Ret (length (concat ds)) [])]))" for fd
    using writev_whole [of us "log_iov [10]" ds n] ds us assms(3) by (simp add: log_iov_def)
  have c: "int_cast (int (length (log_line (contents b) prefix msg data))) = int (length (log_line (contents b) prefix msg data))"
    using assms(4) by simp
  have r: "written fd (replicate m (Writev fd ds, Err EINTR)) = []" for fd by (induction m) simp_all
  show ?thesis
    using ds(2) by (simp add: fd_logger_write_def sancus_writev_def sbind_def Let_def assms(1) w c r)
qed

theorem fd_logger_line_witness:
  "\<exists>c tr. fd_logger_write (TIMESPEC_INIT 5 0) 2 [97] [98, 99] []
      (Some \<lparr>bd_fd = 2, bd_timestamp = False, bd_first = TIMESPEC_INIT 0 0, bd_prev = TIMESPEC_INIT 0 0\<rparr>)
      ([Err EINTR, Ret 100 []], []) = (Done (8, Some c), ([], tr)) \<and>
    written 2 tr = [73, 47, 97, 58, 32, 98, 99, 10]"
proof -
  let ?c = "\<lparr>bd_fd = 2, bd_timestamp = False, bd_first = TIMESPEC_INIT 0 0, bd_prev = TIMESPEC_INIT 0 0\<rparr>"
  obtain b where "log_prelude (TIMESPEC_INIT 5 0) 2 ?c = Inr (b, ?c)" "buf_wf b" "contents b = [73, 47]"
    using prelude_plain [of ?c "TIMESPEC_INIT 5 0" 2] by (auto simp: log_levels_def)
  with fd_logger_line [of "TIMESPEC_INIT 5 0" 2 ?c b ?c "[97]" "[98, 99]" "[]" 100 1 "[]" "[]" "[]"]
  show ?thesis by (auto simp: log_line_def)
qed

subsection \<open>Prefixes and messages\<close>

text \<open>The part of a prefix that a buffer of \<open>sz\<close> bytes gets.\<close>

definition prefix_part :: "nat \<Rightarrow> byte list \<Rightarrow> byte list" where
  "prefix_part sz s = (if sz < length s then take (sz - 1) s else s)"

lemma prefix_stored:
  assumes "0 \<notin> set s" and "s \<noteq> []" and "0 < sz" and "p + sz \<le> length m"
  shows "log_ctx_prefix (Some (Logger par (Some (s @ 0 # r)) msk None be)) m p sz =
    (if p + length (prefix_part sz s) < length m
     then Inr (int (length (prefix_part sz s)), overwrite p (prefix_part sz s @ [0]) m) else Inl Bad_Access)"
proof -
  let ?q = "prefix_part sz s"
  obtain c cs where c: "s = c # cs" "c \<noteq> 0" using assms(1,2) by (cases s) auto
  have q: "(if sz < length s then sz - 1 else length s) = length ?q"
    "take (length ?q) (s @ 0 # r) = ?q" "length ?q \<le> length s" "p + length ?q \<le> length m"
    using assms(3,4) by (auto simp: prefix_part_def)
  have "overwrite (p + length ?q) [0] (overwrite p ?q m) = overwrite p (?q @ [0]) m"
    if "p + length ?q < length m" using that by (simp add: overwrite_def)
  then show ?thesis using assms c(2) q by (simp add: Let_def mem_get_def mem_put_def c(1) [symmetric] nth_append)
      (simp add: c(1))
qed

text \<open>
  C18. Rendering a prefix into a buffer: a prefix shorter than the buffer is stored whole with its
  terminator, a longer one is cut to leave room for the terminator, and a prefix of exactly the size of
  the buffer has its terminator stored one byte past the end.
\<close>

theorem prefix_bounds:
  assumes "0 \<notin> set s" and "s \<noteq> []" and "m \<noteq> []"
  shows "sancus_logger_render_prefix (Some (Logger par (Some (s @ 0 # r)) msk None be)) (Some m) (length m) =
    (if length s < length m then Inr (int (length s), Some (overwrite 0 (s @ [0]) m))
     else if length s = length m then Inl Bad_Access
     else Inr (int (length m - 1), Some (take (length m - 1) s @ [0])))"
proof -
  have "overwrite 0 (take (length m - 1) s @ [0]) m = take (length m - 1) s @ [0]" if "length m < length s"
    using that assms(3) by (simp add: overwrite_def)
  then show ?thesis using assms prefix_stored [OF assms(1,2), of "length m" 0 m par r msk be]
    by (auto simp: sancus_logger_render_prefix_def prefix_part_def)
qed

theorem prefix_bounds_witness:
  "sancus_logger_render_prefix (Some (Logger None (Some [65, 66, 0]) 7 None None)) (Some [9, 9]) 2 = Inl Bad_Access \<and>
   sancus_logger_render_prefix (Some (Logger None (Some [65, 66, 67, 0]) 7 None None)) (Some [9, 9]) 2 = Inr (1, Some [65, 0])"
  using prefix_bounds [of "[65, 66]" "[9, 9]" None "[]" 7 None]
    prefix_bounds [of "[65, 66, 67]" "[9, 9]" None "[]" 7 None]
  by (auto simp flip: numeral_2_eq_2)

lemma prefix_rendered:
  assumes "0 \<notin> set s" and "s \<noteq> []" and "length s \<noteq> 128"
  shows "\<exists>b. log_ctx_prefix2 (Some (Logger par (Some (s @ 0 # r)) msk None be)) (DECL_SANCUS_LBUFFER (replicate 128 0) 128) =
      Inr (int (length (prefix_part 128 s)), b) \<and> buf_wf b \<and> contents b = prefix_part 128 s"
proof -
  let ?q = "prefix_part 128 s" and ?m = "replicate 128 (0 :: byte)"
  have q: "0 < length ?q" "length ?q < 128" using assms(2,3) by (auto simp: prefix_part_def)
  then have w: "unat (word_of_nat (length ?q) :: u64) = length ?q" by (intro unat_of_nat_small) simp
  have "\<not> (128 :: u64) < word_of_nat (length ?q)" using q(2) w by (simp add: word_less_nat_alt)
  then show ?thesis
    using q w prefix_stored [OF assms(1,2), of 128 0 ?m par r msk be]
    by (simp add: log_ctx_prefix2_def DECL_SANCUS_LBUFFER_def sancus_buffer_tail_size_def Let_def
        sancus_buffer_sparse_def buf_wf_def contents_def overwrite_def)
qed

text \<open>The text of a message: what fits in 255 bytes, without the separators at its end.\<close>

definition message_part :: "byte list \<Rightarrow> byte list" where
  "message_part t = rstrip {10, 9, 32, 58} (take 255 t)"

lemma message_rendered:
  assumes "f \<noteq> 0"
  shows "\<exists>b rc. log_fmt (DECL_SANCUS_LBUFFER (replicate 256 0) 256) None line (Some (f # fs)) (Some t) = Inr (rc, b) \<and>
    0 \<le> rc \<and> buf_wf b \<and> contents b = message_part t"
proof -
  let ?b = "DECL_SANCUS_LBUFFER (replicate 256 0) 256"
  have f: "buf_wf ?b" "contents ?b = []" "room ?b = 256" using lbuffer_fresh [of 256 "replicate 256 0"] by simp_all
  obtain rc b1 where b1: "sancus_buffer__appendv (Some ?b) True (Some t) = Inr (rc, Some b1)" "0 \<le> rc" "buf_wf b1"
      "contents b1 = take 255 t"
    using appendv_fits [OF f(1), of t True] appendv_truncates [OF f(1), of t] f(2,3)
    by (cases "length t < 256") auto
  have "(0 :: byte) \<notin> set [10, 9, 32, 58]" by simp
  from stripany_contents [OF b1(3) this, of "[]"] b1 assms show ?thesis
    by (auto simp: log_fmt_def nonempty_arg_def keep_rc_def drop_rc_def message_part_def mem_get_def)
qed

lemma vprintf_calls:
  assumes "0 \<notin> set s" and "s \<noteq> []" and "length s \<noteq> 128" and "f \<noteq> 0"
    and "rstrip {32, 9, 10} (prefix_part 128 s) \<noteq> []"
  shows "sancus_logger__vprintf env (Some (Logger par (Some (s @ 0 # r)) msk None be)) level None line (Some (f # fs)) (Some t) =
    sbind (le_call env (log_find_backend (Some (Logger par (Some (s @ 0 # r)) msk None be)) (le_default env)) level
      (rstrip {32, 9, 10} (prefix_part 128 s)) (rstrip {32, 9, 10} (message_part t)) []) (\<lambda>rc. sret (int_cast rc))"
proof -
  obtain pb where p: "log_ctx_prefix2 (Some (Logger par (Some (s @ 0 # r)) msk None be)) (DECL_SANCUS_LBUFFER (replicate 128 0) 128) =
      Inr (int (length (prefix_part 128 s)), pb)" "buf_wf pb" "contents pb = prefix_part 128 s"
    using prefix_rendered [OF assms(1-3)] by blast
  obtain mb rc where m: "log_fmt (DECL_SANCUS_LBUFFER (replicate 256 0) 256) None line (Some (f # fs)) (Some t) = Inr (rc, mb)"
      "0 \<le> rc" "buf_wf mb" "contents mb = message_part t"
    using message_rendered [OF assms(4)] by blast
  show ?thesis
    using assms(5) m(2)
    by (intro ext) (simp add: sancus_logger__vprintf_def p m(1,3,4) sbind_def log_write_def log_buffer_trim_spec)
qed

text \<open>
  \<open>sancus_logger__vprintf\<close> on a logger with a prefix string: the nearest backend up the chain, or the
  default one, is called once with the level, the prefix cut to 127 bytes and the formatted text cut to
  255 bytes, both without the blanks at their end, and its result is the result.
\<close>

theorem log_print_spec:
  assumes "0 \<notin> set s" and "s \<noteq> []" and "length s \<noteq> 128" and "f \<noteq> 0"
    and "rstrip {32, 9, 10} (prefix_part 128 s) \<noteq> []"
  shows "sancus_logger__vprintf env (Some (Logger par (Some (s @ 0 # r)) msk None be)) level None line (Some (f # fs)) (Some t) =
    sbind (le_call env (log_find_backend (Some (Logger par (Some (s @ 0 # r)) msk None be)) (le_default env)) level
      (rstrip {32, 9, 10} (prefix_part 128 s)) (rstrip {32, 9, 10} (message_part t)) []) (\<lambda>rc. sret (int_cast rc))"
  using assms by (rule vprintf_calls)

theorem log_print_spec_witness:
  "sancus_logger__vprintf \<lparr>le_default = fd_backend, le_call = \<lambda>be l p m d. sret (int (length p + length m))\<rparr>
     (Some (Logger None (Some [97, 0]) 7 None None)) 2 None 0 (Some [37, 0]) (Some [98, 99, 58, 10]) ([], []) =
   (Done 3, ([], []))"
  using log_print_spec [of "[97]" 37 "\<lparr>le_default = fd_backend, le_call = \<lambda>be l p m d. sret (int (length p + length m))\<rparr>"
      None "[]" 7 None 2 0 "[0]" "[98, 99, 58, 10]"]
  by (simp add: prefix_part_def message_part_def rstrip_def sbind_def)

subsection \<open>Masks\<close>

lemma mask_bits:
  "(ucast (w :: u64) :: u32) = v \<longleftrightarrow> (\<forall>n < 32. bit w n = bit v n)"
  by (auto simp: bit_eq_iff bit_simps)

text \<open>
  A level is enabled when it is empty, contains the error level, or shares a bit with the mask of the
  nearest logger up the chain that has one, or with the normal mask when none has; extending a logger's
  mask adds the bits and unsetting removes them.
\<close>

theorem has_level_spec:
  "(sancus_logger_has_level log msk \<longleftrightarrow> msk = 0 \<or> bit msk 0 \<or> msk AND effective_mask log \<noteq> 0) \<and>
   (\<exists>l'. sancus_logger_extend_mask l add = Inr l' \<and> log_mask l' = log_mask l OR add) \<and>
   (\<exists>l'. sancus_logger_unset_mask l rem = Inr l' \<and> log_mask l' = log_mask l AND NOT rem)"
proof (intro conjI)
  have "msk AND 1 \<noteq> 0 \<longleftrightarrow> bit msk 0" by (simp add: bit_0 and_one_eq odd_iff_mod_2_eq_one)
  then show "sancus_logger_has_level log msk \<longleftrightarrow> msk = 0 \<or> bit msk 0 \<or> msk AND effective_mask log \<noteq> 0"
    by (simp add: has_level_mask)
  have s: "log_mask (sancus_logger_set_mask l m) = m" for m by (cases l) simp
  show "\<exists>l'. sancus_logger_extend_mask l add = Inr l' \<and> log_mask l' = log_mask l OR add"
    using cms_bit [of 0 "ucast (log_mask l)" "ucast add" "ucast add"]
    by (auto simp: sancus_logger_extend_mask_def s mask_bits bit_simps)
  show "\<exists>l'. sancus_logger_unset_mask l rem = Inr l' \<and> log_mask l' = log_mask l AND NOT rem"
    using cms_bit [of 0 "ucast (log_mask l)" 0 "ucast rem"]
    by (auto simp: sancus_logger_unset_mask_def s mask_bits bit_simps)
qed


theorem has_level_spec_witness:
  "sancus_logger_has_level (Some (Logger (Some (Logger None None 4 None None)) None 0 None None)) 4 \<and>
   \<not> sancus_logger_has_level (Some (Logger (Some (Logger None None 4 None None)) None 0 None None)) 2"
  using has_level_spec [of "Some (Logger (Some (Logger None None 4 None None)) None 0 None None)" 4]
    has_level_spec [of "Some (Logger (Some (Logger None None 4 None None)) None 0 None None)" 2]
  by (simp add: bit_0)

end
