(* ===== verification/Log_Calls.thy ===== *)
theory Log_Calls
  imports Logger Common
begin

text \<open>
  The macros programs log with, at the end of \<^verbatim>\<open>include/sancus/logger.h\<close>, and \<open>sancus__trap\<close> of
  \<^verbatim>\<open>src/sancus/logger.c\<close>. There is a macro per level for text, for a dump and for a hexdump, each in three
  forms: with two underscores without a test, with a 2 under the level given, and under its own level.
  \<open>__func__\<close> and \<open>__LINE__\<close>, which trace and debug messages carry, are arguments, and as in the functions
  below them the variable arguments are the text they format to.
\<close>

subsection \<open>Without a test\<close>

definition sancus_log__error ::
  "log_env \<Rightarrow> sancus_logger option \<Rightarrow> byte list option \<Rightarrow> byte list option \<Rightarrow> int sys" where
  "sancus_log__error env D fmt out =
     sancus_logger__printf env D SANCUS_LOG_ERROR_BIT None 0 fmt out"

definition sancus_log__error_dump ::
  "log_env \<Rightarrow> sancus_logger option \<Rightarrow> byte list option \<Rightarrow> nat \<Rightarrow> byte list option \<Rightarrow> byte list option \<Rightarrow> int sys" where
  "sancus_log__error_dump env D data len fmt out =
     sancus_logger__dumpf env D SANCUS_LOG_ERROR_BIT None 0 data len fmt out"

definition sancus_log__error_hexdump ::
  "log_env \<Rightarrow> sancus_logger option \<Rightarrow> nat \<Rightarrow> byte list option \<Rightarrow> nat \<Rightarrow> byte list option \<Rightarrow> byte list option \<Rightarrow> int sys" where
  "sancus_log__error_hexdump env D width data len fmt out =
     sancus_logger__hexdumpf env D SANCUS_LOG_ERROR_BIT None 0 width data len fmt out"

definition sancus_log__warn ::
  "log_env \<Rightarrow> sancus_logger option \<Rightarrow> byte list option \<Rightarrow> byte list option \<Rightarrow> int sys" where
  "sancus_log__warn env D fmt out =
     sancus_logger__printf env D SANCUS_LOG_WARN_BIT None 0 fmt out"

definition sancus_log__warn_dump ::
  "log_env \<Rightarrow> sancus_logger option \<Rightarrow> byte list option \<Rightarrow> nat \<Rightarrow> byte list option \<Rightarrow> byte list option \<Rightarrow> int sys" where
  "sancus_log__warn_dump env D data len fmt out =
     sancus_logger__dumpf env D SANCUS_LOG_WARN_BIT None 0 data len fmt out"

definition sancus_log__warn_hexdump ::
  "log_env \<Rightarrow> sancus_logger option \<Rightarrow> nat \<Rightarrow> byte list option \<Rightarrow> nat \<Rightarrow> byte list option \<Rightarrow> byte list option \<Rightarrow> int sys" where
  "sancus_log__warn_hexdump env D width data len fmt out =
     sancus_logger__hexdumpf env D SANCUS_LOG_WARN_BIT None 0 width data len fmt out"

definition sancus_log__info ::
  "log_env \<Rightarrow> sancus_logger option \<Rightarrow> byte list option \<Rightarrow> byte list option \<Rightarrow> int sys" where
  "sancus_log__info env D fmt out =
     sancus_logger__printf env D SANCUS_LOG_INFO_BIT None 0 fmt out"

definition sancus_log__info_dump ::
  "log_env \<Rightarrow> sancus_logger option \<Rightarrow> byte list option \<Rightarrow> nat \<Rightarrow> byte list option \<Rightarrow> byte list option \<Rightarrow> int sys" where
  "sancus_log__info_dump env D data len fmt out =
     sancus_logger__dumpf env D SANCUS_LOG_INFO_BIT None 0 data len fmt out"

definition sancus_log__info_hexdump ::
  "log_env \<Rightarrow> sancus_logger option \<Rightarrow> nat \<Rightarrow> byte list option \<Rightarrow> nat \<Rightarrow> byte list option \<Rightarrow> byte list option \<Rightarrow> int sys" where
  "sancus_log__info_hexdump env D width data len fmt out =
     sancus_logger__hexdumpf env D SANCUS_LOG_INFO_BIT None 0 width data len fmt out"

definition sancus_log__trace ::
  "log_env \<Rightarrow> sancus_logger option \<Rightarrow> byte list \<Rightarrow> u32 \<Rightarrow> byte list option \<Rightarrow> byte list option \<Rightarrow> int sys" where
  "sancus_log__trace env D func line fmt out =
     sancus_logger__printf env D SANCUS_LOG_TRACE_BIT (Some func) line fmt out"

definition sancus_log__trace_dump ::
  "log_env \<Rightarrow> sancus_logger option \<Rightarrow> byte list \<Rightarrow> u32 \<Rightarrow> byte list option \<Rightarrow> nat \<Rightarrow> byte list option \<Rightarrow> byte list option \<Rightarrow> int sys" where
  "sancus_log__trace_dump env D func line data len fmt out =
     sancus_logger__dumpf env D SANCUS_LOG_TRACE_BIT (Some func) line data len fmt out"

definition sancus_log__trace_hexdump ::
  "log_env \<Rightarrow> sancus_logger option \<Rightarrow> byte list \<Rightarrow> u32 \<Rightarrow> nat \<Rightarrow> byte list option \<Rightarrow> nat \<Rightarrow> byte list option \<Rightarrow> byte list option \<Rightarrow> int sys" where
  "sancus_log__trace_hexdump env D func line width data len fmt out =
     sancus_logger__hexdumpf env D SANCUS_LOG_TRACE_BIT (Some func) line width data len fmt out"

definition sancus_log__debug ::
  "log_env \<Rightarrow> sancus_logger option \<Rightarrow> byte list \<Rightarrow> byte list option \<Rightarrow> byte list option \<Rightarrow> int sys" where
  "sancus_log__debug env D func fmt out =
     sancus_logger__printf env D SANCUS_LOG_DEBUG_BIT (Some func) 0 fmt out"

definition sancus_log__debug_dump ::
  "log_env \<Rightarrow> sancus_logger option \<Rightarrow> byte list \<Rightarrow> byte list option \<Rightarrow> nat \<Rightarrow> byte list option \<Rightarrow> byte list option \<Rightarrow> int sys" where
  "sancus_log__debug_dump env D func data len fmt out =
     sancus_logger__dumpf env D SANCUS_LOG_DEBUG_BIT (Some func) 0 data len fmt out"

definition sancus_log__debug_hexdump ::
  "log_env \<Rightarrow> sancus_logger option \<Rightarrow> byte list \<Rightarrow> nat \<Rightarrow> byte list option \<Rightarrow> nat \<Rightarrow> byte list option \<Rightarrow> byte list option \<Rightarrow> int sys" where
  "sancus_log__debug_hexdump env D func width data len fmt out =
     sancus_logger__hexdumpf env D SANCUS_LOG_DEBUG_BIT (Some func) 0 width data len fmt out"

definition sancus_log__notice ::
  "log_env \<Rightarrow> sancus_logger option \<Rightarrow> byte list option \<Rightarrow> byte list option \<Rightarrow> int sys" where
  "sancus_log__notice env D fmt out =
     sancus_logger__printf env D SANCUS_LOG_DEBUG_BIT None 0 fmt out"

definition sancus_log__notice_dump ::
  "log_env \<Rightarrow> sancus_logger option \<Rightarrow> byte list option \<Rightarrow> nat \<Rightarrow> byte list option \<Rightarrow> byte list option \<Rightarrow> int sys" where
  "sancus_log__notice_dump env D data len fmt out =
     sancus_logger__dumpf env D SANCUS_LOG_DEBUG_BIT None 0 data len fmt out"

definition sancus_log__notice_hexdump ::
  "log_env \<Rightarrow> sancus_logger option \<Rightarrow> nat \<Rightarrow> byte list option \<Rightarrow> nat \<Rightarrow> byte list option \<Rightarrow> byte list option \<Rightarrow> int sys" where
  "sancus_log__notice_hexdump env D width data len fmt out =
     sancus_logger__hexdumpf env D SANCUS_LOG_DEBUG_BIT None 0 width data len fmt out"

subsection \<open>Under a level\<close>

definition sancus_log__if_level :: "sancus_logger option \<Rightarrow> u32 \<Rightarrow> int sys \<Rightarrow> unit sys" where
  "sancus_log__if_level D L call =
     (if sancus_logger_has_level D L then sbind call (\<lambda>_. sret ()) else sret ())"

definition sancus_log_error2 ::
  "log_env \<Rightarrow> sancus_logger option \<Rightarrow> u32 \<Rightarrow> byte list option \<Rightarrow> byte list option \<Rightarrow> unit sys" where
  "sancus_log_error2 env D L fmt out =
     sancus_log__if_level D L (sancus_log__error env D fmt out)"

definition sancus_log_error_dump2 ::
  "log_env \<Rightarrow> sancus_logger option \<Rightarrow> u32 \<Rightarrow> byte list option \<Rightarrow> nat \<Rightarrow> byte list option \<Rightarrow> byte list option \<Rightarrow> unit sys" where
  "sancus_log_error_dump2 env D L data len fmt out =
     sancus_log__if_level D L (sancus_log__error_dump env D data len fmt out)"

definition sancus_log_error_hexdump2 ::
  "log_env \<Rightarrow> sancus_logger option \<Rightarrow> u32 \<Rightarrow> nat \<Rightarrow> byte list option \<Rightarrow> nat \<Rightarrow> byte list option \<Rightarrow> byte list option \<Rightarrow> unit sys" where
  "sancus_log_error_hexdump2 env D L width data len fmt out =
     sancus_log__if_level D L (sancus_log__error_hexdump env D width data len fmt out)"

definition sancus_log_warn2 ::
  "log_env \<Rightarrow> sancus_logger option \<Rightarrow> u32 \<Rightarrow> byte list option \<Rightarrow> byte list option \<Rightarrow> unit sys" where
  "sancus_log_warn2 env D L fmt out =
     sancus_log__if_level D L (sancus_log__warn env D fmt out)"

definition sancus_log_warn_dump2 ::
  "log_env \<Rightarrow> sancus_logger option \<Rightarrow> u32 \<Rightarrow> byte list option \<Rightarrow> nat \<Rightarrow> byte list option \<Rightarrow> byte list option \<Rightarrow> unit sys" where
  "sancus_log_warn_dump2 env D L data len fmt out =
     sancus_log__if_level D L (sancus_log__warn_dump env D data len fmt out)"

definition sancus_log_warn_hexdump2 ::
  "log_env \<Rightarrow> sancus_logger option \<Rightarrow> u32 \<Rightarrow> nat \<Rightarrow> byte list option \<Rightarrow> nat \<Rightarrow> byte list option \<Rightarrow> byte list option \<Rightarrow> unit sys" where
  "sancus_log_warn_hexdump2 env D L width data len fmt out =
     sancus_log__if_level D L (sancus_log__warn_hexdump env D width data len fmt out)"

definition sancus_log_info2 ::
  "log_env \<Rightarrow> sancus_logger option \<Rightarrow> u32 \<Rightarrow> byte list option \<Rightarrow> byte list option \<Rightarrow> unit sys" where
  "sancus_log_info2 env D L fmt out =
     sancus_log__if_level D L (sancus_log__info env D fmt out)"

definition sancus_log_info_dump2 ::
  "log_env \<Rightarrow> sancus_logger option \<Rightarrow> u32 \<Rightarrow> byte list option \<Rightarrow> nat \<Rightarrow> byte list option \<Rightarrow> byte list option \<Rightarrow> unit sys" where
  "sancus_log_info_dump2 env D L data len fmt out =
     sancus_log__if_level D L (sancus_log__info_dump env D data len fmt out)"

definition sancus_log_info_hexdump2 ::
  "log_env \<Rightarrow> sancus_logger option \<Rightarrow> u32 \<Rightarrow> nat \<Rightarrow> byte list option \<Rightarrow> nat \<Rightarrow> byte list option \<Rightarrow> byte list option \<Rightarrow> unit sys" where
  "sancus_log_info_hexdump2 env D L width data len fmt out =
     sancus_log__if_level D L (sancus_log__info_hexdump env D width data len fmt out)"

definition sancus_log_trace2 ::
  "log_env \<Rightarrow> sancus_logger option \<Rightarrow> u32 \<Rightarrow> byte list \<Rightarrow> u32 \<Rightarrow> byte list option \<Rightarrow> byte list option \<Rightarrow> unit sys" where
  "sancus_log_trace2 env D L func line fmt out =
     sancus_log__if_level D L (sancus_log__trace env D func line fmt out)"

definition sancus_log_trace_dump2 ::
  "log_env \<Rightarrow> sancus_logger option \<Rightarrow> u32 \<Rightarrow> byte list \<Rightarrow> u32 \<Rightarrow> byte list option \<Rightarrow> nat \<Rightarrow> byte list option \<Rightarrow> byte list option \<Rightarrow> unit sys" where
  "sancus_log_trace_dump2 env D L func line data len fmt out =
     sancus_log__if_level D L (sancus_log__trace_dump env D func line data len fmt out)"

definition sancus_log_trace_hexdump2 ::
  "log_env \<Rightarrow> sancus_logger option \<Rightarrow> u32 \<Rightarrow> byte list \<Rightarrow> u32 \<Rightarrow> nat \<Rightarrow> byte list option \<Rightarrow> nat \<Rightarrow> byte list option \<Rightarrow> byte list option \<Rightarrow> unit sys" where
  "sancus_log_trace_hexdump2 env D L func line width data len fmt out =
     sancus_log__if_level D L (sancus_log__trace_hexdump env D func line width data len fmt out)"

definition sancus_log_debug2 ::
  "log_env \<Rightarrow> sancus_logger option \<Rightarrow> u32 \<Rightarrow> byte list \<Rightarrow> byte list option \<Rightarrow> byte list option \<Rightarrow> unit sys" where
  "sancus_log_debug2 env D L func fmt out =
     sancus_log__if_level D L (sancus_log__debug env D func fmt out)"

definition sancus_log_debug_dump2 ::
  "log_env \<Rightarrow> sancus_logger option \<Rightarrow> u32 \<Rightarrow> byte list \<Rightarrow> byte list option \<Rightarrow> nat \<Rightarrow> byte list option \<Rightarrow> byte list option \<Rightarrow> unit sys" where
  "sancus_log_debug_dump2 env D L func data len fmt out =
     sancus_log__if_level D L (sancus_log__debug_dump env D func data len fmt out)"

definition sancus_log_debug_hexdump2 ::
  "log_env \<Rightarrow> sancus_logger option \<Rightarrow> u32 \<Rightarrow> byte list \<Rightarrow> nat \<Rightarrow> byte list option \<Rightarrow> nat \<Rightarrow> byte list option \<Rightarrow> byte list option \<Rightarrow> unit sys" where
  "sancus_log_debug_hexdump2 env D L func width data len fmt out =
     sancus_log__if_level D L (sancus_log__debug_hexdump env D func width data len fmt out)"

definition sancus_log_notice2 ::
  "log_env \<Rightarrow> sancus_logger option \<Rightarrow> u32 \<Rightarrow> byte list option \<Rightarrow> byte list option \<Rightarrow> unit sys" where
  "sancus_log_notice2 env D L fmt out =
     sancus_log__if_level D L (sancus_log__notice env D fmt out)"

definition sancus_log_notice_dump2 ::
  "log_env \<Rightarrow> sancus_logger option \<Rightarrow> u32 \<Rightarrow> byte list option \<Rightarrow> nat \<Rightarrow> byte list option \<Rightarrow> byte list option \<Rightarrow> unit sys" where
  "sancus_log_notice_dump2 env D L data len fmt out =
     sancus_log__if_level D L (sancus_log__notice_dump env D data len fmt out)"

definition sancus_log_notice_hexdump2 ::
  "log_env \<Rightarrow> sancus_logger option \<Rightarrow> u32 \<Rightarrow> nat \<Rightarrow> byte list option \<Rightarrow> nat \<Rightarrow> byte list option \<Rightarrow> byte list option \<Rightarrow> unit sys" where
  "sancus_log_notice_hexdump2 env D L width data len fmt out =
     sancus_log__if_level D L (sancus_log__notice_hexdump env D width data len fmt out)"

subsection \<open>Under their own level\<close>

definition sancus_log_error ::
  "log_env \<Rightarrow> sancus_logger option \<Rightarrow> byte list option \<Rightarrow> byte list option \<Rightarrow> int sys" where
  "sancus_log_error env D fmt out = sancus_log__error env D fmt out"

definition sancus_log_error_dump ::
  "log_env \<Rightarrow> sancus_logger option \<Rightarrow> byte list option \<Rightarrow> nat \<Rightarrow> byte list option \<Rightarrow> byte list option \<Rightarrow> int sys" where
  "sancus_log_error_dump env D data len fmt out = sancus_log__error_dump env D data len fmt out"

definition sancus_log_error_hexdump ::
  "log_env \<Rightarrow> sancus_logger option \<Rightarrow> nat \<Rightarrow> byte list option \<Rightarrow> nat \<Rightarrow> byte list option \<Rightarrow> byte list option \<Rightarrow> int sys" where
  "sancus_log_error_hexdump env D width data len fmt out = sancus_log__error_hexdump env D width data len fmt out"

definition sancus_log_warn ::
  "log_env \<Rightarrow> sancus_logger option \<Rightarrow> byte list option \<Rightarrow> byte list option \<Rightarrow> unit sys" where
  "sancus_log_warn env D fmt out = sancus_log_warn2 env D SANCUS_LOG_WARN fmt out"

definition sancus_log_warn_dump ::
  "log_env \<Rightarrow> sancus_logger option \<Rightarrow> byte list option \<Rightarrow> nat \<Rightarrow> byte list option \<Rightarrow> byte list option \<Rightarrow> unit sys" where
  "sancus_log_warn_dump env D data len fmt out = sancus_log_warn_dump2 env D SANCUS_LOG_WARN data len fmt out"

definition sancus_log_warn_hexdump ::
  "log_env \<Rightarrow> sancus_logger option \<Rightarrow> nat \<Rightarrow> byte list option \<Rightarrow> nat \<Rightarrow> byte list option \<Rightarrow> byte list option \<Rightarrow> unit sys" where
  "sancus_log_warn_hexdump env D width data len fmt out = sancus_log_warn_hexdump2 env D SANCUS_LOG_WARN width data len fmt out"

definition sancus_log_info ::
  "log_env \<Rightarrow> sancus_logger option \<Rightarrow> byte list option \<Rightarrow> byte list option \<Rightarrow> unit sys" where
  "sancus_log_info env D fmt out = sancus_log_info2 env D SANCUS_LOG_INFO fmt out"

definition sancus_log_info_dump ::
  "log_env \<Rightarrow> sancus_logger option \<Rightarrow> byte list option \<Rightarrow> nat \<Rightarrow> byte list option \<Rightarrow> byte list option \<Rightarrow> unit sys" where
  "sancus_log_info_dump env D data len fmt out = sancus_log_info_dump2 env D SANCUS_LOG_INFO data len fmt out"

definition sancus_log_info_hexdump ::
  "log_env \<Rightarrow> sancus_logger option \<Rightarrow> nat \<Rightarrow> byte list option \<Rightarrow> nat \<Rightarrow> byte list option \<Rightarrow> byte list option \<Rightarrow> unit sys" where
  "sancus_log_info_hexdump env D width data len fmt out = sancus_log_info_hexdump2 env D SANCUS_LOG_INFO width data len fmt out"

definition sancus_log_trace ::
  "log_env \<Rightarrow> sancus_logger option \<Rightarrow> byte list \<Rightarrow> u32 \<Rightarrow> byte list option \<Rightarrow> byte list option \<Rightarrow> unit sys" where
  "sancus_log_trace env D func line fmt out = sancus_log_trace2 env D SANCUS_LOG_TRACE func line fmt out"

definition sancus_log_trace_dump ::
  "log_env \<Rightarrow> sancus_logger option \<Rightarrow> byte list \<Rightarrow> u32 \<Rightarrow> byte list option \<Rightarrow> nat \<Rightarrow> byte list option \<Rightarrow> byte list option \<Rightarrow> unit sys" where
  "sancus_log_trace_dump env D func line data len fmt out = sancus_log_trace_dump2 env D SANCUS_LOG_TRACE func line data len fmt out"

definition sancus_log_trace_hexdump ::
  "log_env \<Rightarrow> sancus_logger option \<Rightarrow> byte list \<Rightarrow> u32 \<Rightarrow> nat \<Rightarrow> byte list option \<Rightarrow> nat \<Rightarrow> byte list option \<Rightarrow> byte list option \<Rightarrow> unit sys" where
  "sancus_log_trace_hexdump env D func line width data len fmt out = sancus_log_trace_hexdump2 env D SANCUS_LOG_TRACE func line width data len fmt out"

definition sancus_log_debug ::
  "log_env \<Rightarrow> sancus_logger option \<Rightarrow> byte list \<Rightarrow> byte list option \<Rightarrow> byte list option \<Rightarrow> unit sys" where
  "sancus_log_debug env D func fmt out = sancus_log_debug2 env D SANCUS_LOG_DEBUG func fmt out"

definition sancus_log_debug_dump ::
  "log_env \<Rightarrow> sancus_logger option \<Rightarrow> byte list \<Rightarrow> byte list option \<Rightarrow> nat \<Rightarrow> byte list option \<Rightarrow> byte list option \<Rightarrow> unit sys" where
  "sancus_log_debug_dump env D func data len fmt out = sancus_log_debug_dump2 env D SANCUS_LOG_DEBUG func data len fmt out"

definition sancus_log_debug_hexdump ::
  "log_env \<Rightarrow> sancus_logger option \<Rightarrow> byte list \<Rightarrow> nat \<Rightarrow> byte list option \<Rightarrow> nat \<Rightarrow> byte list option \<Rightarrow> byte list option \<Rightarrow> unit sys" where
  "sancus_log_debug_hexdump env D func width data len fmt out = sancus_log_debug_hexdump2 env D SANCUS_LOG_DEBUG func width data len fmt out"

definition sancus_log_notice ::
  "log_env \<Rightarrow> sancus_logger option \<Rightarrow> byte list option \<Rightarrow> byte list option \<Rightarrow> unit sys" where
  "sancus_log_notice env D fmt out = sancus_log_notice2 env D SANCUS_LOG_DEBUG fmt out"

definition sancus_log_notice_dump ::
  "log_env \<Rightarrow> sancus_logger option \<Rightarrow> byte list option \<Rightarrow> nat \<Rightarrow> byte list option \<Rightarrow> byte list option \<Rightarrow> unit sys" where
  "sancus_log_notice_dump env D data len fmt out = sancus_log_notice_dump2 env D SANCUS_LOG_DEBUG data len fmt out"

definition sancus_log_notice_hexdump ::
  "log_env \<Rightarrow> sancus_logger option \<Rightarrow> nat \<Rightarrow> byte list option \<Rightarrow> nat \<Rightarrow> byte list option \<Rightarrow> byte list option \<Rightarrow> unit sys" where
  "sancus_log_notice_hexdump env D width data len fmt out = sancus_log_notice_hexdump2 env D SANCUS_LOG_DEBUG width data len fmt out"

text \<open>
  \<open>sancus_log_perror2\<close> adds the text of the error and its number to the format; \<open>strerror\<close> is an argument,
  and so is the text \<open>t\<close> that the caller's own format and arguments give.
\<close>

definition sancus_log_perror2 ::
  "log_env \<Rightarrow> (int \<Rightarrow> byte list) \<Rightarrow> sancus_logger option \<Rightarrow> int \<Rightarrow> byte list \<Rightarrow> byte list \<Rightarrow> int sys" where
  "sancus_log_perror2 env strerror D E F t =
     sancus_log_error env D (Some (F @ [58, 32, 37, 115, 32, 40, 37, 100, 41, 0]))
       (Some (t @ [58, 32] @ strerror E @ [32, 40] @ dec E @ [41]))"

definition sancus_log_perror ::
  "log_env \<Rightarrow> (int \<Rightarrow> byte list) \<Rightarrow> int \<Rightarrow> sancus_logger option \<Rightarrow> byte list \<Rightarrow> byte list \<Rightarrow> int sys" where
  "sancus_log_perror env strerror errno D F t = sancus_log_perror2 env strerror D errno F t"

subsection \<open>Traps\<close>

definition sancus__trap ::
  "log_env \<Rightarrow> sancus_logger option \<Rightarrow> bool \<Rightarrow> byte list option \<Rightarrow> u32 \<Rightarrow> int \<Rightarrow> byte list option \<Rightarrow>
   byte list option \<Rightarrow> int sys" where
  "sancus__trap env log ndebug func line e fmt out =
     (if e \<noteq> 0 then
        sbind (sancus_logger__vprintf env log SANCUS_LOG_WARN_BIT func line fmt out) (\<lambda>_.
          if \<not> ndebug then
            sbind (syscall Ptrace_traceme) (\<lambda>a.
              case a of
                Err _ \<Rightarrow> sbind (syscall (Raise 5)) (\<lambda>_. sret e)
              | Ret _ _ \<Rightarrow> sret e)
          else sret e)
      else sret e)"

text \<open>
  The macros over \<open>sancus__assert\<close> and \<open>sancus__trap\<close>; \<open>ndebug\<close> says whether \<open>NDEBUG\<close> is defined. The texts
  are the beginning of the formats and, where the expression is quoted, \<open>expr\<close> is its source.
\<close>

definition assertion_failed :: "byte list" where
  "assertion_failed = [97, 115, 115, 101, 114, 116, 105, 111, 110, 32, 102, 97, 105, 108, 101, 100, 58, 32]"

definition assertion :: "byte list" where
  "assertion = [97, 115, 115, 101, 114, 116, 105, 111, 110, 32, 96]"

definition failed_dot :: "byte list" where
  "failed_dot = [96, 32, 102, 97, 105, 108, 101, 100, 46]"

definition trap_triggered :: "byte list" where
  "trap_triggered = [116, 114, 97, 112, 32, 116, 114, 105, 103, 103, 101, 114, 101, 100, 58, 32]"

definition trap_quote :: "byte list" where
  "trap_quote = [116, 114, 97, 112, 32, 96]"

definition triggered_dot :: "byte list" where
  "triggered_dot = [96, 32, 116, 114, 105, 103, 103, 101, 114, 101, 100, 46]"

definition sancus__assert2 ::
  "log_env \<Rightarrow> bool \<Rightarrow> sancus_logger option \<Rightarrow> byte list \<Rightarrow> u32 \<Rightarrow> int \<Rightarrow> byte list \<Rightarrow> byte list \<Rightarrow> int sys" where
  "sancus__assert2 env ndebug L func line E fmt t =
     sbind (sancus__assert env L ndebug (Some func) line E (Some fmt) (Some t)) (\<lambda>e. sret (likely e))"

definition sancus__trap2 ::
  "log_env \<Rightarrow> bool \<Rightarrow> sancus_logger option \<Rightarrow> byte list \<Rightarrow> u32 \<Rightarrow> int \<Rightarrow> byte list \<Rightarrow> byte list \<Rightarrow> int sys" where
  "sancus__trap2 env ndebug L func line E fmt t = sancus__trap env L ndebug (Some func) line E (Some fmt) (Some t)"

definition sancus_assertf ::
  "log_env \<Rightarrow> bool \<Rightarrow> sancus_logger option \<Rightarrow> byte list \<Rightarrow> u32 \<Rightarrow> int \<Rightarrow> byte list \<Rightarrow> byte list \<Rightarrow> int sys" where
  "sancus_assertf env ndebug L func line E fmt t =
     sancus__assert2 env ndebug L func line E (assertion_failed @ fmt) (assertion_failed @ t)"

definition sancus_assert ::
  "log_env \<Rightarrow> bool \<Rightarrow> sancus_logger option \<Rightarrow> byte list \<Rightarrow> u32 \<Rightarrow> int \<Rightarrow> byte list \<Rightarrow> int sys" where
  "sancus_assert env ndebug L func line E expr =
     sancus__assert2 env ndebug L func line E (assertion @ [37, 115] @ failed_dot @ [0]) (assertion @ expr @ failed_dot)"

definition sancus_trapf ::
  "log_env \<Rightarrow> bool \<Rightarrow> sancus_logger option \<Rightarrow> byte list \<Rightarrow> u32 \<Rightarrow> int \<Rightarrow> byte list \<Rightarrow> byte list \<Rightarrow> int sys" where
  "sancus_trapf env ndebug L func line E fmt t =
     sancus__trap2 env ndebug L func line E (trap_triggered @ fmt) (trap_triggered @ t)"

definition sancus_trap ::
  "log_env \<Rightarrow> bool \<Rightarrow> sancus_logger option \<Rightarrow> byte list \<Rightarrow> u32 \<Rightarrow> int \<Rightarrow> byte list \<Rightarrow> int sys" where
  "sancus_trap env ndebug L func line E expr =
     sancus__trap2 env ndebug L func line E (trap_quote @ [37, 115] @ triggered_dot @ [0]) (trap_quote @ expr @ triggered_dot)"

subsection \<open>Properties\<close>

text \<open>What the backend of a logger with a prefix string is called with.\<close>

definition backend_call :: "log_env \<Rightarrow> sancus_logger \<Rightarrow> u32 \<Rightarrow> byte list \<Rightarrow> byte list \<Rightarrow> int sys" where
  "backend_call env l level s t =
     le_call env (log_find_backend (Some l) (le_default env)) level
       (rstrip {32, 9, 10} (prefix_part 128 s)) (rstrip {32, 9, 10} (message_part t)) []"

lemma printf_backend:
  assumes "0 \<notin> set s" and "s \<noteq> []" and "length s \<noteq> 128" and "f \<noteq> 0" and "rstrip {32, 9, 10} (prefix_part 128 s) \<noteq> []"
  shows "sbind (sancus_logger__printf env (Some (Logger par (Some (s @ 0 # r)) msk None be)) level None line (Some (f # fs)) (Some t)) (\<lambda>_. sret x) =
    sbind (backend_call env (Logger par (Some (s @ 0 # r)) msk None be) level s t) (\<lambda>_. sret x)"
  unfolding sancus_logger__printf_def vprintf_calls [OF assms] backend_call_def
  by (intro ext) (auto simp: sbind_def split: prod.splits outcome.splits)

text \<open>
  The macros for warnings, information and notices on a logger with a prefix: when the mask that is in
  force for the logger has the bit of the level, the nearest backend is called once with the level, the
  trimmed prefix and the trimmed text; when it has not, nothing at all is called.
\<close>

theorem log_macros_gate:
  assumes "0 \<notin> set s" and "s \<noteq> []" and "length s \<noteq> 128" and "f \<noteq> 0" and "rstrip {32, 9, 10} (prefix_part 128 s) \<noteq> []"
    and "l = Logger par (Some (s @ 0 # r)) msk None be"
    and "(logm, n) \<in> {(sancus_log_warn, 1), (sancus_log_info, 2), (sancus_log_notice, 4)}"
  shows "logm env (Some l) (Some (f # fs)) (Some t) =
    (if bit (effective_mask (Some l)) n
     then sbind (backend_call env l (word_of_nat n) s t) (\<lambda>_. sret ()) else sret ())"
proof -
  have b: "(2 :: u32) AND m \<noteq> 0 \<longleftrightarrow> bit m 1" "(4 :: u32) AND m \<noteq> 0 \<longleftrightarrow> bit m 2" "(16 :: u32) AND m \<noteq> 0 \<longleftrightarrow> bit m 4" for m
    using and_exp_eq_0_iff_not_bit [of m 1] and_exp_eq_0_iff_not_bit [of m 2] and_exp_eq_0_iff_not_bit [of m 4]
    by (simp_all add: ac_simps)
  note defs = sancus_log_warn_def sancus_log_info_def sancus_log_notice_def sancus_log_warn2_def sancus_log_info2_def
    sancus_log_notice2_def sancus_log__warn_def sancus_log__info_def sancus_log__notice_def sancus_log__if_level_def
  show ?thesis
    using assms(7) unfolding assms(6)
    by (auto simp: defs has_level_mask b printf_backend [OF assms(1-5)])
qed

theorem log_macros_gate_witness:
  "sancus_log_info \<lparr>le_default = fd_backend, le_call = \<lambda>be l p m d. sbind (syscall (Write 1 m)) (\<lambda>_. sret 0)\<rparr>
     (Some (Logger None (Some [97, 0]) 4 None None)) (Some [37, 0]) (Some [98, 10]) ([Ret 9 []], []) =
     (Done (), ([], [(Write 1 [98], Ret 1 [])])) \<and>
   sancus_log_warn \<lparr>le_default = fd_backend, le_call = \<lambda>be l p m d. sbind (syscall (Write 1 m)) (\<lambda>_. sret 0)\<rparr>
     (Some (Logger None (Some [97, 0]) 4 None None)) (Some [37, 0]) (Some [98, 10]) ([Ret 9 []], []) =
     (Done (), ([Ret 9 []], []))"
proof -
  let ?e = "\<lparr>le_default = fd_backend, le_call = \<lambda>be l p m d. sbind (syscall (Write 1 m)) (\<lambda>_. sret 0)\<rparr>"
  have b: "bit (4 :: u32) 2" "\<not> bit (4 :: u32) 1" by (simp_all add: bit_numeral_rec(1))
  note g = log_macros_gate [of "[97]" 37 "Logger None (Some [97, 0]) 4 None None" None "[]" 4 None _ _ ?e "[0]" "[98, 10]"]
  show ?thesis
    using g [of sancus_log_info 2] g [of sancus_log_warn 1] b
    by (simp add: sbind_def backend_call_def prefix_part_def message_part_def rstrip_def)
qed

subsection \<open>Assertions and traps\<close>

text \<open>
  An assertion: when the expression is not zero nothing is called and the value
  is 1; when it is zero the message is logged at the error level, and the program is
  stopped exactly when \<open>NDEBUG\<close> is not defined. A trap logs at the warning level when its expression is not
  zero, and raises a signal exactly when \<open>NDEBUG\<close> is not defined and the process cannot be traced.
\<close>

lemma assert_trap_quiet:
  "E \<noteq> 0 \<Longrightarrow> sancus_assert env nd L func line E expr = sret 1"
  "sancus_trap env nd L func line 0 expr = sret 0"
  by (intro ext, simp add: sancus_assert_def sancus__assert2_def sancus__assert_def likely_def sbind_def)
    (simp add: sancus_trap_def sancus__trap2_def sancus__trap_def)

lemma assert_trap_loud:
  assumes "sancus_logger__vprintf env L 0 (Some func) line
      (Some (assertion @ [37, 115] @ failed_dot @ [0])) (Some (assertion @ expr @ failed_dot)) k = (Done rc, k')"
    and "sancus_logger__vprintf env L 1 (Some func) line
      (Some (trap_quote @ [37, 115] @ triggered_dot @ [0])) (Some (trap_quote @ expr @ triggered_dot)) l = (Done rc', (a # b # as, tr))"
    and "E \<noteq> 0"
  shows "sancus_assert env nd L func line 0 expr k = (if nd then (Done 0, k') else (Fault Assert_Fail, k'))"
    and "sancus_trap env nd L func line E expr l =
      (Done E, if nd then (a # b # as, tr)
               else if \<exists>e. a = Err e then (as, tr @ [(Ptrace_traceme, a), (Raise 5, b)]) else (b # as, tr @ [(Ptrace_traceme, a)]))"
  using assms
  by (auto simp: sancus_assert_def sancus__assert2_def sancus__assert_def likely_def sbind_def
      sancus_trap_def sancus__trap2_def sancus__trap_def split: answer.split)

end
