(* ===== verification/Hexdump.thy ===== *)
theory Hexdump
  imports Logger
begin

text \<open>
  The hexdump of \<^verbatim>\<open>src/sancus/logger.c\<close>, whose operations are in \<open>Logger\<close>, against the lines it is meant to
  produce: the rows of the data as text, and a backend that is called once per row.
\<close>

subsection \<open>The text of a row\<close>

definition hex_row :: "nat \<Rightarrow> u32 \<Rightarrow> byte list \<Rightarrow> byte list" where
  "hex_row w off row =
     hex8 off @ [32] @ concat (map (\<lambda>c. 32 # hex2 c) row) @ concat (replicate (w - length row) [32, 32, 32]) @
     [32, 124] @ map (\<lambda>c. if c < 0x20 \<or> c > 0x7e then 46 else c) row @ [124]"

function hex_rows :: "nat \<Rightarrow> u32 \<Rightarrow> byte list \<Rightarrow> byte list list" where
  "hex_rows w off data =
     (if w = 0 \<or> data = [] then []
      else hex_row w off (take w data) # hex_rows w (off + word_of_nat (min w (length data))) (drop w data))"
  by pat_completeness auto
termination by (relation "measure (\<lambda>(w, off, data). length data)") auto

declare hex_rows.simps [simp del]

text \<open>Reading a row back: pairs of digits after a blank, until one does not follow.\<close>

fun unrow :: "byte list \<Rightarrow> byte list" where
  "unrow (s # a # b # r) = (if a = 32 \<or> a = 124 then [] else (16 * hex_value a + hex_value b) # unrow r)"
| "unrow _ = []"

lemma hex8_length [simp]: "length (hex8 w) = 8"
  by (simp add: hex8_def)

lemma hex2_length [simp]: "length (hex2 c) = 2"
  by (simp add: hex2_def)

lemma hex_columns_length: "length (concat (map (\<lambda>c. 32 # hex2 c) row)) = 3 * length row"
  by (induction row) auto

lemma hexa_no_mark: "n < 16 \<Longrightarrow> hexa ! n \<noteq> 32 \<and> hexa ! n \<noteq> 124"
proof -
  assume "n < 16"
  then have "hexa ! n \<in> set hexa" by (intro nth_mem) (simp add: hexa_def)
  then show ?thesis by (auto simp: hexa_def)
qed

lemma unrow_column: "unrow (32 # hex2 c @ r) = c # unrow r"
proof -
  have c: "unat c < 256" using unat_bound [of c] by simp
  then have n: "unat c div 16 < 16" "unat c mod 16 < 16" by (simp_all add: div_less_iff_less_mult)
  have "16 * word_of_nat (unat c div 16) + word_of_nat (unat c mod 16) = (word_of_nat (16 * (unat c div 16) + unat c mod 16) :: byte)"
    by (simp only: of_nat_add of_nat_mult of_nat_numeral)
  then have "16 * word_of_nat (unat c div 16) + word_of_nat (unat c mod 16) = c" by simp
  then show ?thesis using n by (simp add: hex2_def hexa_no_mark hexa_value)
qed

lemma unrow_columns:
  "unrow (concat (map (\<lambda>c. 32 # hex2 c) row) @ r) = row @ unrow r"
  by (induction row) (simp_all add: unrow_column)

lemma unrow_hex_row: "unrow (drop 9 (hex_row w off row)) = row"
proof -
  have "unrow (concat (replicate n [32, 32, 32]) @ 32 # 124 # r @ [124]) = []" for n r
    by (cases n; cases r) simp_all
  then show ?thesis by (simp add: hex_row_def unrow_columns)
qed

lemma hex_rows_data: "w \<noteq> 0 \<Longrightarrow> concat (map (\<lambda>t. unrow (drop 9 t)) (hex_rows w off data)) = data"
  by (induction w off data rule: hex_rows.induct) (subst hex_rows.simps, simp add: unrow_hex_row)

lemma hex_rows_count: "w \<noteq> 0 \<Longrightarrow> length (hex_rows w off data) = (length data + w - 1) div w"
proof (induction w off data rule: hex_rows.induct)
  case (1 w off data)
  show ?case
  proof (cases "data = []")
    case True
    then show ?thesis using 1(2) by (subst hex_rows.simps) simp
  next
    case False
    have "Suc ((length data - w + w - 1) div w) = (length data + w - 1) div w"
    proof (cases "w \<le> length data")
      case True
      then have "length data + w - 1 = (length data - w + w - 1) + w" using 1(2) by simp
      then show ?thesis by (simp only: div_add_self2 [OF 1(2)] Suc_eq_plus1)
    next
      case f: False
      have "length data + w - 1 = (length data - 1) + w" using False by (simp add: Suc_leI)
      then have "(length data + w - 1) div w = Suc ((length data - 1) div w)" by (simp only: div_add_self2 [OF 1(2)] Suc_eq_plus1)
      then show ?thesis using f 1(2) by simp
    qed
    then show ?thesis using False 1 by (subst hex_rows.simps) simp
  qed
qed

subsection \<open>The buffer of a row\<close>

text \<open>The bytes in a buffer, and that its block has room for 256 with them.\<close>

definition row_buf :: "sancus_buffer \<Rightarrow> byte list \<Rightarrow> bool" where
  "row_buf b xs \<longleftrightarrow> buf_wf b \<and> contents b = xs \<and> 256 \<le> length xs + room b"

lemma row_append:
  assumes "row_buf b xs" and "length xs + length ys \<le> 256"
  shows "\<exists>b'. drop_rc (sancus_buffer_append (Some b) (Some ys) (int (length ys))) = Inr b' \<and> row_buf b' (xs @ ys)"
  using append_fits [of b ys False "[]"] assms by (auto simp: row_buf_def sancus_buffer_append_def drop_rc_def)

lemma row_appendf:
  assumes "row_buf b xs" and "length xs + length ys < 256"
  shows "\<exists>b'. appendf_ignore b ys = Inr b' \<and> row_buf b' (xs @ ys)"
  using appendv_fits [of b ys False] assms by (auto simp: row_buf_def sancus_buffer__appendf_def appendf_ignore_def)

lemma row_append_each:
  assumes "row_buf b xs" and "length xs + length (concat yss) \<le> 256"
  shows "\<exists>b'. append_each b yss = Inr b' \<and> row_buf b' (xs @ concat yss)"
  using assms
proof (induction yss arbitrary: b xs)
  case (Cons ys yss)
  then obtain b1 where "drop_rc (sancus_buffer_append (Some b) (Some ys) (int (length ys))) = Inr b1" "row_buf b1 (xs @ ys)"
    using row_append [of b xs ys] by auto
  with Cons.IH [of b1 "xs @ ys"] Cons.prems(2) show ?case by auto
qed simp

lemma row_appendf_each:
  assumes "row_buf b xs" and "length xs + length (concat yss) < 256"
  shows "\<exists>b'. appendf_each b yss = Inr b' \<and> row_buf b' (xs @ concat yss)"
  using assms
proof (induction yss arbitrary: b xs)
  case (Cons ys yss)
  then obtain b1 where "appendf_ignore b ys = Inr b1" "row_buf b1 (xs @ ys)"
    using row_appendf [of b xs ys] by auto
  with Cons.IH [of b1 "xs @ ys"] Cons.prems(2) show ?case by auto
qed simp

lemma length_pad [simp]: "length (concat (replicate n [32, 32, 32])) = 3 * n"
  by (induction n) auto

lemma concat_chars [simp]: "concat (map (\<lambda>c. [f c]) xs) = map f xs"
  by (induction xs) auto

lemma hex_line_row:
  assumes "row_buf b []" and "0 < w" and "w \<le> 61" and "length row \<le> w"
  shows "\<exists>b'. hex_line b w off row = Inr b' \<and> row_buf b' (hex_row w off row)"
proof -
  let ?cols = "map (\<lambda>c. 32 # hex2 c) row" and ?pad = "replicate (w - length row) [32, 32, 32 :: byte]"
  let ?chars = "map (\<lambda>c. [if c < 0x20 \<or> c > 0x7e then 46 else c]) row"
  have "3 * length row + 3 * (w - length row) = 3 * w" using assms(4) by simp
  note len = hex_columns_length [of row] this
  obtain b1 where b1: "appendf_ignore b (hex8 off @ [32]) = Inr b1" "row_buf b1 (hex8 off @ [32])"
    using row_appendf [OF assms(1), of "hex8 off @ [32]"] by auto
  obtain b2 where b2: "appendf_each b1 ?cols = Inr b2" "row_buf b2 ((hex8 off @ [32]) @ concat ?cols)"
    using row_appendf_each [OF b1(2), of ?cols] len assms(3,4) by auto
  obtain b3 where b3: "append_each b2 ?pad = Inr b3" "row_buf b3 (((hex8 off @ [32]) @ concat ?cols) @ concat ?pad)"
    using row_append_each [OF b2(2), of ?pad] len assms(3,4) by auto
  obtain b4 where b4: "append_each b3 [[32, 124]] = Inr b4"
      "row_buf b4 ((((hex8 off @ [32]) @ concat ?cols) @ concat ?pad) @ concat [[32, 124]])"
    using row_append_each [OF b3(2), of "[[32, 124]]"] len assms(3,4) by auto
  obtain b5 where b5: "append_each b4 ?chars = Inr b5"
      "row_buf b5 (((((hex8 off @ [32]) @ concat ?cols) @ concat ?pad) @ concat [[32, 124]]) @ concat ?chars)"
    using row_append_each [OF b4(2), of ?chars] len assms(3,4) by auto
  obtain b6 where b6: "append_each b5 [[124]] = Inr b6"
      "row_buf b6 ((((((hex8 off @ [32]) @ concat ?cols) @ concat ?pad) @ concat [[32, 124]]) @ concat ?chars) @ concat [[124]])"
    using row_append_each [OF b5(2), of "[[124]]"] len assms(3,4) by auto
  have "hex_line b w off row = Inr b6"
    using assms(2) unfolding hex_line_def b1(1) ebind_Inr b2(1) b3(1) by (simp only: b4(1) b5(1) b6(1) ebind_Inr if_True simp_thms neq0_conv)
  moreover have "row_buf b6 (hex_row w off row)" using b6(2) by (simp add: hex_row_def)
  ultimately show ?thesis by blast
qed

lemma row_reset:
  assumes "row_buf b xs" and "xs \<noteq> []"
  shows "\<exists>rc b'. sancus_buffer_reset b = Inr (rc, b') \<and> row_buf b' []"
proof -
  have w: "buf_wf b" "256 \<le> length (contents b) + room b" "contents b \<noteq> []" using assms by (auto simp: row_buf_def)
  have l: "0 < b_len b" using w(3) length_contents [OF w(1)] by (simp add: word_gt_0) (metis length_0_conv unat_0)
  have s: "256 \<le> unat (b_size b)" "unat (b_size b) \<le> length (b_buf b)" "unat (b_size b) < 2 ^ 63"
    using w(1,2) length_contents [OF w(1)] by (auto simp: buf_wf_def room_def)
  then have "b_buf b \<noteq> []" by auto
  then show ?thesis
    using s l by (simp add: sancus_buffer_reset_def sancus_buffer_truncate_def Let_def mem_put_def row_buf_def buf_wf_def
        contents_def room_def)
qed

subsection \<open>One call per row\<close>

fun call_each :: "(byte list \<Rightarrow> int sys) \<Rightarrow> byte list list \<Rightarrow> int \<Rightarrow> int sys" where
  "call_each f [] rc = sret rc"
| "call_each f (x # xs) rc = sbind (f x) (\<lambda>rc. if rc < 0 then sret rc else call_each f xs rc)"

lemma hex_row_trim: "rstrip {32, 9, 10} (hex_row w off row) = hex_row w off row"
  by (simp add: rstrip_def hex_row_def)

lemma log_write_row:
  assumes "buf_wf pb" and "buf_wf mb" and "row_buf b (hex_row w off row)"
  shows "log_write env ctx level (Some pb) (Some mb) (Some b) =
    le_call env (log_find_backend ctx (le_default env)) level
      (rstrip {32, 9, 10} (contents pb)) (rstrip {32, 9, 10} (contents mb)) (hex_row w off row)"
proof -
  have "buf_wf b" "contents b = hex_row w off row" using assms(3) by (auto simp: row_buf_def)
  moreover have "hex_row w off row \<noteq> []" by (simp add: hex_row_def)
  ultimately show ?thesis
    using assms(1,2) by (intro ext) (simp add: log_write_def log_buffer_trim_spec sbind_def hex_row_trim)
qed

lemma hexdump_loop_calls:
  assumes "buf_wf pb" and "buf_wf mb" and "row_buf b []" and "0 < w" and "w \<le> 61"
  shows "hexdump_loop env ctx level pb mb w b off data rc k =
    call_each (le_call env (log_find_backend ctx (le_default env)) level
      (rstrip {32, 9, 10} (contents pb)) (rstrip {32, 9, 10} (contents mb))) (hex_rows w off data) rc k"
  using assms(3-5)
proof (induction w off data arbitrary: b rc k rule: hex_rows.induct)
  case (1 w off data)
  let ?f = "le_call env (log_find_backend ctx (le_default env)) level
    (rstrip {32, 9, 10} (contents pb)) (rstrip {32, 9, 10} (contents mb))"
  show ?case
  proof (cases "data = []")
    case True
    then show ?thesis by (subst hexdump_loop.simps, subst hex_rows.simps) simp
  next
    case False
    have n: "take (min w (length data)) data = take w data" "drop (min w (length data)) data = drop w data"
      by (simp_all add: min_def)
    obtain b1 where b1: "hex_line b w off (take w data) = Inr b1" "row_buf b1 (hex_row w off (take w data))"
      using hex_line_row [OF 1(2-4), of "take w data" off] by auto
    obtain r b2 where b2: "sancus_buffer_reset b1 = Inr (r, b2)" "row_buf b2 []"
      using row_reset [OF b1(2)] by (auto simp: hex_row_def)
    have IH: "hexdump_loop env ctx level pb mb w b2 (off + word_of_nat (min w (length data))) (drop w data) rc k =
        call_each ?f (hex_rows w (off + word_of_nat (min w (length data))) (drop w data)) rc k" for rc k
      using 1(1) [OF _ b2(2) 1(3,4)] 1(3) False by simp
    have "hexdump_loop env ctx level pb mb w b off data rc k =
      sbind (?f (hex_row w off (take w data))) (\<lambda>rc k.
        if rc < 0 then sret rc k
        else hexdump_loop env ctx level pb mb w b2 (off + word_of_nat (min w (length data))) (drop w data) rc k) k"
      using False 1(3) n log_write_row [OF assms(1,2) b1(2), of env ctx level]
      by (subst hexdump_loop.simps) (simp add: Let_def sbind_def [of "slift _"] b1(1) b2(1) cong: if_cong)
    also have "\<dots> = call_each ?f (hex_rows w off data) rc k"
      using False 1(3) by (subst hex_rows.simps, simp add: IH cong: if_cong, intro sbind_cong) simp_all
    finally show ?thesis .
  qed
qed

text \<open>
  C34. The hexdump of data that is not empty, on a logger whose prefix is not empty and not of 128
  bytes, with a format but without the name of a function, and for a width of 1 to 61 bytes in a row:
  the nearest backend is called once for each row, in order and until it fails, with the same prefix and
  message and the text of the row; there are as many rows as the width asks for, and read back together
  they give exactly the data. Outside these widths rows are cut, and a prefix of 128 bytes is stored
  past its buffer; the claim does not cover them.
\<close>

theorem hexdump_rows:
  assumes "0 \<notin> set s" and "s \<noteq> []" and "length s \<noteq> 128" and "f \<noteq> 0" and "data \<noteq> []" and "0 < w" and "w \<le> 61"
    and "l = Logger par (Some (s @ 0 # r)) msk None be"
  shows "sancus_logger__vhexdumpf env (Some l) level None line w (Some (data @ rest)) (length data) (Some (f # fs)) (Some t) k =
      sbind (call_each (le_call env (log_find_backend (Some l) (le_default env)) level
        (rstrip {32, 9, 10} (prefix_part 128 s)) (rstrip {32, 9, 10} (message_part t))) (hex_rows w 0 data)
        rc) (\<lambda>rc. sret (int_cast rc)) k \<and>
    length (hex_rows w 0 data) = (length data + w - 1) div w \<and>
    concat (map (\<lambda>t. unrow (drop 9 t)) (hex_rows w 0 data)) = data"
proof (intro conjI)
  obtain pb where p: "log_ctx_prefix2 (Some l) (DECL_SANCUS_LBUFFER (replicate 128 0) 128) =
      Inr (int (length (prefix_part 128 s)), pb)" "buf_wf pb" "contents pb = prefix_part 128 s"
    using prefix_rendered [OF assms(1-3)] assms(8) by blast
  obtain mb rc0 where m: "log_fmt (DECL_SANCUS_LBUFFER (replicate 256 0) 256) None line (Some (f # fs)) (Some t) = Inr (rc0, mb)"
      "0 \<le> rc0" "buf_wf mb" "contents mb = message_part t"
    using message_rendered [OF assms(4)] by blast
  have b: "row_buf (DECL_SANCUS_LBUFFER (replicate 256 0) 256) []"
    using lbuffer_fresh [of 256 "replicate 256 0"] by (simp add: row_buf_def)
  have rc: "call_each g (hex_rows w 0 data) rc0 = call_each g (hex_rows w 0 data) rc" for g
    using assms(5,6) by (subst (1 2) hex_rows.simps) simp
  show "sancus_logger__vhexdumpf env (Some l) level None line w (Some (data @ rest)) (length data) (Some (f # fs)) (Some t) k =
      sbind (call_each (le_call env (log_find_backend (Some l) (le_default env)) level
        (rstrip {32, 9, 10} (prefix_part 128 s)) (rstrip {32, 9, 10} (message_part t))) (hex_rows w 0 data)
        rc) (\<lambda>rc. sret (int_cast rc)) k"
    using m(2) assms(5)
    by (simp add: sancus_logger__vhexdumpf_def p(1) m(1) sbind_def [of "slift _"] sbind_def [of "hexdump_loop _ _ _ _ _ _ _ _ _ _"]
        hexdump_loop_calls [OF p(2) m(3) b assms(6,7)] p(3) m(4) rc)
      (simp add: sbind_def)
  show "length (hex_rows w 0 data) = (length data + w - 1) div w" using assms(6) by (simp add: hex_rows_count)
  show "concat (map (\<lambda>t. unrow (drop 9 t)) (hex_rows w 0 data)) = data" using assms(6) by (simp add: hex_rows_data)
qed

theorem hexdump_rows_witness:
  "sancus_logger__vhexdumpf \<lparr>le_default = fd_backend, le_call = \<lambda>be l p m d. sret (int (length d))\<rparr>
     (Some (Logger None (Some [97, 0]) 7 None None)) 2 None 0 2 (Some [1, 2, 3, 9]) 3 (Some [37, 0]) (Some [98]) ([], []) =
   (Done 19, ([], []))"
proof -
  have "hex_rows 2 0 [1, 2, 3] = [hex_row 2 0 [1, 2], hex_row 2 2 [3]]"
    by (subst hex_rows.simps, subst hex_rows.simps, subst hex_rows.simps) simp
  moreover have "length (hex_row 2 0 [1, 2]) = 20" "length (hex_row 2 2 [3]) = 19"
    by (simp_all add: hex_row_def numeral_2_eq_2)
  ultimately show ?thesis
    using hexdump_rows [of "[97]" 37 "[1, 2, 3]" 2 "Logger None (Some [97, 0]) 7 None None" None "[]" 7 None
        "\<lparr>le_default = fd_backend, le_call = \<lambda>be l p m d. sret (int (length d))\<rparr>" 2 0 "[9]" "[0]" "[98]" "([], [])" 0]
    by (simp add: sbind_def numeral_3_eq_3)
qed

end
