(* ===== verification/Log_Threads.thy ===== *)
theory Log_Threads
  imports Logger
begin

text \<open>
  The descriptor backend of \<^verbatim>\<open>src/sancus/logger.c\<close> under several threads. \<open>fd_logger_write\<close> is run by
  any number of threads on the one \<open>fd_backend_data\<close>; a step of the system is one access of a thread
  to what they share: the static times \<open>first\<close> and \<open>prev\<close>, the mutex, and the descriptor, one system
  call of the loop of \<open>sancus_writev\<close> at a time. The mutex covers the call of \<open>sancus_writev\<close> only. A
  thread may also change the descriptor with \<open>sancus_logger_set_fd_backend\<close>, at any time. The lemmas show that
  the lines do not mix on a descriptor, whatever the interleaving, and that the static times are raced on.
\<close>

subsection \<open>The parts of a call\<close>

text \<open>The pieces of the prelude between two accesses to the static times.\<close>

definition times_test :: "timespec \<Rightarrow> sancus_logger_fd_backend_data \<Rightarrow> bool exec" where
  "times_test ts ctx =
     (if sancus_time_is_zero (bd_prev ctx) then Inr True else sancus_time_is_lt ts (bd_first ctx))"

definition times_diff ::
  "bool \<Rightarrow> timespec \<Rightarrow> sancus_logger_fd_backend_data \<Rightarrow> (timespec \<times> timespec \<times> sancus_logger_fd_backend_data) exec" where
  "times_diff warped ts ctx =
     (if warped then Inr (TIMESPEC_INIT 0 0, TIMESPEC_INIT 0 0, ctx\<lparr>bd_first := ts\<rparr>)
      else ebind (sancus_time_sub ts (bd_first ctx)) (\<lambda>(_, dt0).
           ebind (sancus_time_sub ts (bd_prev ctx)) (\<lambda>(_, dt1). Inr (dt0, dt1, ctx))))"

definition prelude_text :: "u32 \<Rightarrow> (timespec \<times> timespec) option \<Rightarrow> sancus_buffer exec" where
  "prelude_text level stamp =
     ebind (case stamp of
              Some (dt0, dt1) \<Rightarrow>
                appendf_ignore (DECL_SANCUS_LBUFFER (replicate LOG_PRELUDE_SIZE 0) LOG_PRELUDE_SIZE)
                  ([91] @ fmt_ms dt0 @ [32, 43] @ fmt_ms dt1 @ [93, 32])
            | None \<Rightarrow> Inr (DECL_SANCUS_LBUFFER (replicate LOG_PRELUDE_SIZE 0) LOG_PRELUDE_SIZE)) (\<lambda>b.
       appendf_ignore b (if level < 6 then [log_levels ! unat level, 47] else dec_nat (unat level) @ [47]))"

record log_args =
  la_level :: u32
  la_prefix :: "byte list"
  la_msg :: "byte list"
  la_data :: "byte list"

definition args_vectors :: "log_args \<Rightarrow> sancus_buffer \<Rightarrow> iovec list" where
  "args_vectors a b = log_vectors b (la_prefix a) (la_msg a) (la_data a)"

subsection \<open>Threads\<close>

text \<open>
  Where a thread is: outside; before and after the clock is read; after the test and after the
  difference of the times; before \<open>pthread_mutex_lock\<close> with its vectors, and behind it; in
  \<open>sancus_writev\<close> with the descriptor and the vectors it was given, those done, those left and the count;
  before \<open>pthread_mutex_unlock\<close>; before the return; or stopped by a fault, before the mutex is taken or with it.
\<close>

datatype log_pc =
    Outside
  | Entered log_args
  | Stamped log_args timespec
  | Tested log_args timespec bool
  | Timed log_args timespec timespec timespec
  | Waits "iovec list"
  | Locked "iovec list"
  | Writes int "iovec list" "iovec list" "iovec list" int
  | Wrote int "iovec list" int
  | Leaves int
  | Crashed fault
  | Crashed_locked fault

text \<open>The shared state, and as history the calls that released the mutex, in order, with their descriptors and results.\<close>

record log_system =
  ls_ctx :: sancus_logger_fd_backend_data
  ls_mutex :: "nat option"
  ls_kernel :: kernel
  ls_pc :: "nat \<Rightarrow> log_pc"
  ls_calls :: "((int \<times> iovec list) \<times> int) list"

text \<open>One turn of the loop of \<open>sancus_writev\<close>; \<open>None\<close> when the system call blocks.\<close>

definition writev_turn ::
  "int \<Rightarrow> iovec list \<Rightarrow> iovec list \<Rightarrow> iovec list \<Rightarrow> int \<Rightarrow> kernel \<Rightarrow> (log_pc \<times> kernel) option" where
  "writev_turn fd v pre iov wt k =
     (if iov = [] then Some (Wrote fd v (int_cast wt), k)
      else case iov_gather iov of
        Inl e \<Rightarrow> Some (Crashed_locked e, k)
      | Inr ds \<Rightarrow>
          (case syscall (Writev fd ds) k of
             (Done a, k) \<Rightarrow>
               Some ((case a of
                  Ret wc _ \<Rightarrow>
                    if wc > 0 then
                      (case iov_consume wc wc pre iov of
                         Inl e \<Rightarrow> Crashed_locked e
                       | Inr (pre', iov') \<Rightarrow> Writes fd v pre' iov' (wt + int wc))
                    else Writes fd v pre iov wt
                | Err e \<Rightarrow> if e \<noteq> EINTR then Wrote fd v (int_cast (- e)) else Writes fd v pre iov wt), k)
           | _ \<Rightarrow> None))"

definition set_pc :: "nat \<Rightarrow> log_pc \<Rightarrow> log_system \<Rightarrow> log_system" where
  "set_pc i p s = s\<lparr>ls_pc := (ls_pc s)(i := p)\<rparr>"

inductive log_step :: "log_system \<Rightarrow> nat \<Rightarrow> log_system \<Rightarrow> bool" where
  call: "ls_pc s i = Outside \<Longrightarrow> log_step s i (set_pc i (Entered a) s)"
| now: "ls_pc s i = Entered a \<Longrightarrow> bd_timestamp (ls_ctx s) \<Longrightarrow> log_step s i (set_pc i (Stamped a ts) s)"
| plain: "ls_pc s i = Entered a \<Longrightarrow> \<not> bd_timestamp (ls_ctx s) \<Longrightarrow> prelude_text (la_level a) None = Inr b \<Longrightarrow>
    log_step s i (set_pc i (Waits (args_vectors a b)) s)"
| test: "ls_pc s i = Stamped a ts \<Longrightarrow> times_test ts (ls_ctx s) = Inr w \<Longrightarrow>
    log_step s i (set_pc i (Tested a ts w) s)"
| test_fault: "ls_pc s i = Stamped a ts \<Longrightarrow> times_test ts (ls_ctx s) = Inl e \<Longrightarrow>
    log_step s i (set_pc i (Crashed e) s)"
| diff: "ls_pc s i = Tested a ts w \<Longrightarrow> times_diff w ts (ls_ctx s) = Inr (dt0, dt1, ctx) \<Longrightarrow>
    log_step s i (set_pc i (Timed a ts dt0 dt1) s\<lparr>ls_ctx := ctx\<rparr>)"
| diff_fault: "ls_pc s i = Tested a ts w \<Longrightarrow> times_diff w ts (ls_ctx s) = Inl e \<Longrightarrow>
    log_step s i (set_pc i (Crashed e) s)"
| store: "ls_pc s i = Timed a ts dt0 dt1 \<Longrightarrow> prelude_text (la_level a) (Some (dt0, dt1)) = Inr b \<Longrightarrow>
    log_step s i (set_pc i (Waits (args_vectors a b)) s\<lparr>ls_ctx := (ls_ctx s)\<lparr>bd_prev := ts\<rparr>\<rparr>)"
| lock: "ls_pc s i = Waits v \<Longrightarrow> ls_mutex s = None \<Longrightarrow>
    log_step s i (set_pc i (Locked v) s\<lparr>ls_mutex := Some i\<rparr>)"
| enter: "ls_pc s i = Locked v \<Longrightarrow> log_step s i (set_pc i (Writes (bd_fd (ls_ctx s)) v [] v 0) s)"
| turn: "ls_pc s i = Writes fd v pre iov wt \<Longrightarrow>
    writev_turn fd v pre iov wt (ls_kernel s) = Some (p, k) \<Longrightarrow>
    log_step s i (set_pc i p s\<lparr>ls_kernel := k\<rparr>)"
| unlock: "ls_pc s i = Wrote fd v rc \<Longrightarrow>
    log_step s i (set_pc i (Leaves rc) s\<lparr>ls_mutex := None, ls_calls := ls_calls s @ [((fd, v), rc)]\<rparr>)"
| return: "ls_pc s i = Leaves rc \<Longrightarrow> log_step s i (set_pc i Outside s)"
| set_fd: "ls_pc s i = Outside \<Longrightarrow> sancus_logger_set_fd_backend fd (ls_ctx s) = (rc, ctx) \<Longrightarrow>
    log_step s i (set_pc i (Leaves rc) s\<lparr>ls_ctx := ctx\<rparr>)"

inductive_cases log_stepE: "log_step s i s'"

definition log_steps :: "log_system \<Rightarrow> log_system \<Rightarrow> bool" where
  "log_steps = (\<lambda>s s'. \<exists>i. log_step s i s')\<^sup>*\<^sup>*"

definition log_init :: "sancus_logger_fd_backend_data \<Rightarrow> kernel \<Rightarrow> log_system" where
  "log_init ctx k = \<lparr>ls_ctx = ctx, ls_mutex = None, ls_kernel = k, ls_pc = (\<lambda>_. Outside), ls_calls = []\<rparr>"

lemma set_pc_simps [simp]:
  "ls_pc (set_pc i p s) = (ls_pc s)(i := p)" "ls_ctx (set_pc i p s) = ls_ctx s"
  "ls_mutex (set_pc i p s) = ls_mutex s" "ls_kernel (set_pc i p s) = ls_kernel s"
  "ls_calls (set_pc i p s) = ls_calls s"
  by (simp_all add: set_pc_def)

subsection \<open>Mutual exclusion\<close>

text \<open>
  A system of threads with a lock: who holds it, and who is inside the section it guards. A step is
  of one thread and keeps the others where they are; it takes the lock to enter, and gives it back
  to leave.
\<close>

locale lock_discipline =
  fixes step :: "'s \<Rightarrow> nat \<Rightarrow> 's \<Rightarrow> bool"
    and holder :: "'s \<Rightarrow> nat option"
    and inside :: "'s \<Rightarrow> nat \<Rightarrow> bool"
  assumes others: "step s i s' \<Longrightarrow> j \<noteq> i \<Longrightarrow> inside s' j = inside s j"
    and guarded: "step s i s' \<Longrightarrow>
      holder s' = holder s \<and> inside s' i = inside s i \<or>
      holder s = None \<and> holder s' = Some i \<and> inside s' i \<or>
      inside s i \<and> holder s' = None \<and> \<not> inside s' i"
begin

definition held :: "'s \<Rightarrow> bool" where
  "held s \<longleftrightarrow> (\<forall>i. inside s i \<longleftrightarrow> holder s = Some i)"

lemma heldD: "held s \<Longrightarrow> inside s i \<longleftrightarrow> holder s = Some i"
  by (simp add: held_def)

lemma held_step: "held s \<Longrightarrow> step s i s' \<Longrightarrow> held s'"
  using others [of s i s'] guarded [of s i s'] unfolding held_def by (metis option.distinct(1) option.inject)

lemma held_steps: "(\<lambda>s s'. \<exists>i. step s i s')\<^sup>*\<^sup>* s s' \<Longrightarrow> held s \<Longrightarrow> held s'"
  by (induction rule: rtranclp_induct) (auto intro: held_step)

lemma exclusive: "held s \<Longrightarrow> inside s i \<Longrightarrow> inside s j \<Longrightarrow> i = j"
  by (simp add: held_def)

end

text \<open>A thread that crashes in \<open>sancus_writev\<close> never gives the mutex back, and is inside for good.\<close>

fun pc_inside :: "log_pc \<Rightarrow> bool" where
  "pc_inside (Locked _) = True"
| "pc_inside (Writes _ _ _ _ _) = True"
| "pc_inside (Wrote _ _ _) = True"
| "pc_inside (Crashed_locked _) = True"
| "pc_inside _ = False"


lemma writev_turn_inside: "writev_turn fd v pre iov wt k = Some (p, k') \<Longrightarrow> pc_inside p"
  by (auto simp: writev_turn_def split: if_splits sum.splits prod.splits outcome.splits answer.splits)

interpretation lt: lock_discipline log_step ls_mutex "\<lambda>s i. pc_inside (ls_pc s i)"
proof
  fix s s' :: log_system and i j :: nat
  assume "log_step s i s'" "j \<noteq> i"
  then show "pc_inside (ls_pc s' j) = pc_inside (ls_pc s j)" by (auto elim!: log_stepE)
next
  fix s s' :: log_system and i :: nat
  assume "log_step s i s'"
  then show "ls_mutex s' = ls_mutex s \<and> pc_inside (ls_pc s' i) = pc_inside (ls_pc s i) \<or>
      ls_mutex s = None \<and> ls_mutex s' = Some i \<and> pc_inside (ls_pc s' i) \<or>
      pc_inside (ls_pc s i) \<and> ls_mutex s' = None \<and> \<not> pc_inside (ls_pc s' i)"
    by cases (auto dest: writev_turn_inside)
qed

lemma init_held: "lt.held (log_init ctx k)"
  by (simp add: lt.held_def log_init_def)

lemma steps_held: "log_steps (log_init ctx k) s \<Longrightarrow> lt.held s"
  unfolding log_steps_def by (erule lt.held_steps) (rule init_held)

subsection \<open>The order of the mutex\<close>

text \<open>Calls of \<open>sancus_writev\<close> one after the other, with the results as \<open>int\<close>.\<close>

fun seq_writes :: "(int \<times> iovec list) list \<Rightarrow> int list sys" where
  "seq_writes [] = sret []"
| "seq_writes (c # cs) =
     sbind (sancus_writev (fst c) (snd c) (int (length (snd c)))) (\<lambda>(rc, _).
     sbind (seq_writes cs) (\<lambda>rcs. sret (int_cast rc # rcs)))"

lemma writev_all: "writev_loop fd [] v 0 k = (Done (r, vs), k') \<Longrightarrow>
    sancus_writev fd v (int (length v)) k = (Done (r, vs), k')"
  by (simp add: sancus_writev_def sbind_def)

lemma seq_writes_snoc:
  assumes "seq_writes cs k = (Done rcs, k1)" "writev_loop fd [] v 0 k1 = (Done (r, us), k2)"
  shows "seq_writes (cs @ [(fd, v)]) k = (Done (rcs @ [int_cast r]), k2)"
  using assms
proof (induction cs arbitrary: k rcs)
  case Nil
  then show ?case using writev_all [OF Nil.prems(2)] by (simp add: sbind_def)
next
  case (Cons c cs)
  then show ?case by (cases k2) (auto simp: sbind_Done)
qed

lemma writev_turn_run:
  assumes "writev_turn fd v pre iov wt k = Some (p, k')"
  shows "case p of
      Writes fd' v' pre' iov' wt' \<Rightarrow> fd' = fd \<and> v' = v \<and>
        writev_loop fd pre iov wt k = writev_loop fd pre' iov' wt' k'
    | Wrote fd' v' rc \<Rightarrow> fd' = fd \<and> v' = v \<and>
        (\<exists>r vs. writev_loop fd pre iov wt k = (Done (r, vs), k') \<and> rc = int_cast r)
    | Crashed_locked e \<Rightarrow> writev_loop fd pre iov wt k = (Fault e, k')
    | _ \<Rightarrow> False"
  using assms writev_loop.simps [of fd pre iov wt k] unfolding writev_turn_def
  by (auto simp: sbind_def slift_def split: if_splits sum.splits prod.splits outcome.splits answer.splits)

text \<open>
  What a state owes to the calls made in the order of the mutex: the calls that gave it back have run
  one after the other, and the one that holds it is somewhere in its run.
\<close>

definition in_order :: "kernel \<Rightarrow> log_system \<Rightarrow> bool" where
  "in_order k0 s \<longleftrightarrow>
     (\<exists>k. seq_writes (map fst (ls_calls s)) k0 = (Done (map snd (ls_calls s)), k) \<and>
        (case ls_mutex s of
           None \<Rightarrow> ls_kernel s = k
         | Some i \<Rightarrow>
             (case ls_pc s i of
                Locked v \<Rightarrow> ls_kernel s = k
              | Writes fd v pre iov wt \<Rightarrow> writev_loop fd [] v 0 k = writev_loop fd pre iov wt (ls_kernel s)
              | Wrote fd v rc \<Rightarrow> \<exists>r vs. writev_loop fd [] v 0 k = (Done (r, vs), ls_kernel s) \<and> rc = int_cast r
              | _ \<Rightarrow> True)))"

text \<open>A step outside the section changes neither the mutex nor the kernel.\<close>

lemma in_order_outside:
  assumes "in_order k0 s" "lt.held s" "\<not> pc_inside (ls_pc s i)"
    and "ls_mutex s' = ls_mutex s" "ls_kernel s' = ls_kernel s"
    and "ls_calls s' = ls_calls s" "\<And>j. j \<noteq> i \<Longrightarrow> ls_pc s' j = ls_pc s j"
  shows "in_order k0 s'"
proof -
  have "ls_mutex s \<noteq> Some i" using lt.heldD [OF assms(2), of i] assms(3) by simp
  then show ?thesis
    using assms(1,7) unfolding in_order_def assms(4-6) by (cases "ls_mutex s") simp_all
qed

lemma in_order_turn:
  assumes "in_order k0 s" "lt.held s" "ls_pc s i = Writes fd v pre iov wt"
    and "writev_turn fd v pre iov wt (ls_kernel s) = Some (p, k)"
  shows "in_order k0 (set_pc i p s\<lparr>ls_kernel := k\<rparr>)"
proof -
  have "ls_mutex s = Some i" using lt.heldD [OF assms(2), of i] assms(3) by simp
  then show ?thesis
    using assms(1,3) writev_turn_run [OF assms(4)]
    by (auto simp: in_order_def split: log_pc.splits)
qed

lemma in_order_step:
  assumes o: "in_order k0 s" and h: "lt.held s" and st: "log_step s i s'"
  shows "in_order k0 s'"
  using st
proof cases
  case (lock v)
  then show ?thesis using o by (auto simp: in_order_def)
next
  case (enter v)
  then have "ls_mutex s = Some i" using lt.heldD [OF h, of i] by simp
  then show ?thesis using o enter by (auto simp: in_order_def)
next
  case (turn fd v pre iov wt p k)
  then show ?thesis using in_order_turn [OF o h] by simp
next
  case (unlock fd v rc)
  then have "ls_mutex s = Some i" using lt.heldD [OF h, of i] by simp
  with o unlock(2) obtain k r vs where "seq_writes (map fst (ls_calls s)) k0 = (Done (map snd (ls_calls s)), k)"
      "writev_loop fd [] v 0 k = (Done (r, vs), ls_kernel s)" "rc = int_cast r"
    by (auto simp: in_order_def)
  then show ?thesis using unlock(1) seq_writes_snoc by (simp add: in_order_def)
qed (auto intro!: in_order_outside [OF o h, of i])

lemma in_order_steps:
  assumes "log_steps (log_init ctx k) s" shows "in_order k s"
proof -
  have "(\<lambda>s s'. \<exists>i. log_step s i s')\<^sup>*\<^sup>* (log_init ctx k) s" using assms by (simp add: log_steps_def)
  then show ?thesis
  proof (induction rule: rtranclp_induct)
    case base
    then show ?case by (simp add: in_order_def log_init_def)
  next
    case (step s s')
    then obtain i where "log_step s i s'" by blast
    moreover have "lt.held s" using step.hyps(1) by (intro steps_held) (simp add: log_steps_def)
    ultimately show ?case using in_order_step step.IH by blast
  qed
qed

lemma in_order_free:
  assumes "log_steps (log_init ctx k) s" "ls_mutex s = None"
  shows "seq_writes (map fst (ls_calls s)) k = (Done (map snd (ls_calls s)), ls_kernel s)"
  using in_order_steps [OF assms(1)] assms(2) unfolding in_order_def by auto

subsection \<open>Whole lines\<close>

lemma appendf_ignore_wf: "buf_wf b \<Longrightarrow> \<exists>b'. appendf_ignore b t = Inr b' \<and> buf_wf b'"
  using appendv_fits [of b t False] appendv_refused [of b t]
  by (cases "length t < room b") (auto simp: appendf_ignore_def sancus_buffer__appendf_def)

lemma prelude_text_wf: "\<exists>b. prelude_text level stamp = Inr b \<and> buf_wf b"
proof -
  have f: "buf_wf (DECL_SANCUS_LBUFFER (replicate 64 0) 64)" using lbuffer_fresh [of 64 "replicate 64 0"] by simp
  have "\<exists>b'. (case stamp of
        Some (dt0, dt1) \<Rightarrow> appendf_ignore (DECL_SANCUS_LBUFFER (replicate 64 0) 64)
          ([91] @ fmt_ms dt0 @ [32, 43] @ fmt_ms dt1 @ [93, 32])
      | None \<Rightarrow> Inr (DECL_SANCUS_LBUFFER (replicate 64 0) 64)) = Inr b' \<and> buf_wf b'"
    using f appendf_ignore_wf by (auto split: option.split)
  then show ?thesis using appendf_ignore_wf by (fastforce simp: prelude_text_def)
qed

text \<open>The vectors of a line, and its text.\<close>

definition is_line :: "iovec list \<Rightarrow> bool" where
  "is_line v \<longleftrightarrow> (\<exists>us ds. v = us @ [log_iov [10]] \<and> iov_gather v = Inr ds)"

definition line_text :: "iovec list \<Rightarrow> byte list" where
  "line_text v = (case iov_gather v of Inr ds \<Rightarrow> concat ds | Inl _ \<Rightarrow> [])"

lemma args_line: "buf_wf b \<Longrightarrow> is_line (args_vectors a b)"
  using log_vectors_last log_vectors_gather [of b] unfolding is_line_def args_vectors_def by metis

fun pc_line :: "log_pc \<Rightarrow> bool" where
  "pc_line (Waits v) = is_line v"
| "pc_line (Locked v) = is_line v"
| "pc_line (Writes _ v _ _ _) = is_line v"
| "pc_line (Wrote _ v _) = is_line v"
| "pc_line _ = True"

definition all_lines :: "log_system \<Rightarrow> bool" where
  "all_lines s \<longleftrightarrow> (\<forall>i. pc_line (ls_pc s i)) \<and> (\<forall>c \<in> set (ls_calls s). is_line (snd (fst c)))"

lemma writev_turn_line:
  "writev_turn fd v pre iov wt k = Some (p, k') \<Longrightarrow> is_line v \<Longrightarrow> pc_line p"
  using writev_turn_run [of fd v pre iov wt k p k'] by (cases p) auto

lemma prelude_line: "prelude_text level stamp = Inr b \<Longrightarrow> is_line (args_vectors a b)"
  using prelude_text_wf [of level stamp] args_line by auto

lemma all_lines_step: "all_lines s \<Longrightarrow> log_step s i s' \<Longrightarrow> all_lines s'"
proof -
  assume a: "all_lines s" and st: "log_step s i s'"
  then have "pc_line (ls_pc s i)" by (simp add: all_lines_def)
  with st a show ?thesis
    by cases (auto simp: all_lines_def intro: prelude_line dest: writev_turn_line)
qed

lemma all_lines_steps: "log_steps (log_init ctx k) s \<Longrightarrow> all_lines s"
  unfolding log_steps_def
proof (induction rule: rtranclp_induct)
  case base
  then show ?case by (simp add: all_lines_def log_init_def)
next
  case (step s s')
  then show ?case using all_lines_step by blast
qed

text \<open>
  A descriptor that takes what it is given whole or fails, as a terminal or a file does for lines:
  each answer is an error number, or a count of at least \<open>n\<close>.
\<close>

fun takes_whole :: "nat \<Rightarrow> answer \<Rightarrow> bool" where
  "takes_whole n (Ret m _) = (n \<le> m)"
| "takes_whole n (Err e) = (0 < e \<and> e < 2 ^ 31)"

lemma writev_takes_whole:
  assumes "iov_gather (us @ [v]) = Inr ds" "0 < iov_len v" "length (concat ds) \<le> n"
    and "list_all (takes_whole n) s"
    and "writev_loop fd [] (us @ [v]) 0 (s, tr) = (Done (r, vs), (s', tr'))"
  shows "list_all (takes_whole n) s' \<and>
    (\<forall>d. written d tr' = written d tr @ (if d = fd \<and> 0 \<le> r then concat ds else [])) \<and>
    (- (2 ^ 31) < r \<and> r < 0 \<or> r = int (length (concat ds)))"
  using assms(4,5)
proof (induction s arbitrary: tr)
  case Nil
  then show ?case using writev_loop_turn(1) [OF _ assms(1), of fd "[]" 0 tr] by simp
next
  case (Cons a s)
  show ?case
  proof (cases a)
    case (Ret m x)
    then have "length (concat ds) \<le> m" using Cons.prems(1) assms(3) by simp
    from writev_whole [OF assms(1,2) this, of fd 0 x s tr] Cons.prems Ret show ?thesis by auto
  next
    case (Err e)
    note t = writev_loop_turn(3) [OF _ assms(1), of fd "[]" 0 e s tr]
    show ?thesis
    proof (cases "e = EINTR")
      case True
      then show ?thesis
        using Cons.IH [of "tr @ [(Writev fd ds, Err EINTR)]"] Cons.prems t Err by simp
    next
      case False
      then show ?thesis using Cons.prems t Err by auto
    qed
  qed
qed

text \<open>What a call with a result leaves on a descriptor.\<close>

definition line_on :: "int \<Rightarrow> (int \<times> iovec list) \<times> int \<Rightarrow> byte list" where
  "line_on d c = (if d = fst (fst c) \<and> 0 \<le> snd c then line_text (snd (fst c)) else [])"

lemma seq_writes_whole:
  assumes "seq_writes cs (s, tr) = (Done rcs, (s', tr'))" "list_all (takes_whole n) s" "n < 2 ^ 31"
    and "\<forall>c \<in> set cs. is_line (snd c) \<and> length (line_text (snd c)) \<le> n"
  shows "written d tr' = written d tr @ concat (map (line_on d) (zip cs rcs))"
  using assms(1,2,4)
proof (induction cs arbitrary: s tr rcs)
  case Nil
  then show ?case by simp
next
  case (Cons c cs)
  obtain fd v where c: "c = (fd, v)" by (cases c)
  from Cons.prems(1) c obtain r us s1 tr1 rcs1 where
    w: "sancus_writev fd v (int (length v)) (s, tr) = (Done (r, us), (s1, tr1))" and
    q: "seq_writes cs (s1, tr1) = (Done rcs1, (s', tr'))" "rcs = int_cast r # rcs1"
    by (auto simp: sbind_Done)
  from Cons.prems(3) c obtain ws ds where v: "v = ws @ [log_iov [10]]" "iov_gather v = Inr ds"
    by (auto simp: is_line_def)
  then have l: "line_text v = concat ds" "length (concat ds) \<le> n" using Cons.prems(3) c by (auto simp: line_text_def)
  have "writev_loop fd [] v 0 (s, tr) = (Done (r, us), (s1, tr1))"
    using w by (auto simp: sancus_writev_def sbind_Done)
  then have b: "list_all (takes_whole n) s1"
      "written d tr1 = written d tr @ (if d = fd \<and> 0 \<le> r then concat ds else [])"
      "- (2 ^ 31) < r \<and> r < 0 \<or> r = int (length (concat ds))"
    using writev_takes_whole [of ws "log_iov [10]" ds n s fd tr r us s1 tr1] v l(2) Cons.prems(2)
    by (auto simp: log_iov_def)
  then have "int_cast r = r" using l(2) assms(3) by auto
  then show ?case using Cons.IH [OF q(1) b(1)] Cons.prems(3) b(2) q(2) l(1) c by (simp add: line_on_def)
qed

subsection \<open>A thread alone\<close>

abbreviation alone :: "nat \<Rightarrow> log_system \<Rightarrow> log_system \<Rightarrow> bool" where
  "alone i \<equiv> (\<lambda>s s'. log_step s i s')\<^sup>*\<^sup>*"

lemma alone_step: "log_step s i t \<Longrightarrow> alone i t u \<Longrightarrow> alone i s u"
  by (rule converse_rtranclp_into_rtranclp)

lemma alone_refl: "alone i s s"
  by simp

lemma log_prelude_parts:
  "log_prelude now level ctx =
     (if bd_timestamp ctx then
        ebind (times_test now ctx) (\<lambda>w. ebind (times_diff w now ctx) (\<lambda>(dt0, dt1, ctx).
        ebind (prelude_text level (Some (dt0, dt1))) (\<lambda>b. Inr (b, ctx\<lparr>bd_prev := now\<rparr>))))
      else ebind (prelude_text level None) (\<lambda>b. Inr (b, ctx)))"
  by (auto simp: log_prelude_def log_times_def times_test_def times_diff_def prelude_text_def
      ebind_def Let_def split: sum.split)

lemma writev_turn_some:
  assumes "writev_loop fd pre iov wt k = (Done x, k')"
  shows "\<exists>p k1. writev_turn fd v pre iov wt k = Some (p, k1) \<and>
    (length (fst k1) < length (fst k) \<or> (\<exists>rc. p = Wrote fd v rc))"
  using assms writev_loop.simps [of fd pre iov wt k] unfolding writev_turn_def
  by (auto simp: sbind_Done slift_def syscall_Done split: sum.splits if_splits)

lemma writes_run:
  assumes "writev_loop fd pre iov wt (ls_kernel s) = (Done (r, vs), k')"
    and "ls_pc s i = Writes fd v pre iov wt"
  shows "\<exists>s'. alone i s s' \<and> ls_pc s' = (ls_pc s)(i := Wrote fd v (int_cast r)) \<and> ls_kernel s' = k' \<and>
    ls_ctx s' = ls_ctx s \<and> ls_mutex s' = ls_mutex s \<and> ls_calls s' = ls_calls s"
  using assms
proof (induction "length (fst (ls_kernel s))" arbitrary: s pre iov wt rule: less_induct)
  case less
  obtain p k1 where t: "writev_turn fd v pre iov wt (ls_kernel s) = Some (p, k1)"
      "length (fst k1) < length (fst (ls_kernel s)) \<or> (\<exists>rc. p = Wrote fd v rc)"
    using writev_turn_some [OF less.prems(1)] by blast
  let ?s = "set_pc i p s\<lparr>ls_kernel := k1\<rparr>"
  have st: "log_step s i ?s" using turn less.prems(2) t(1) by simp
  show ?case
  proof (cases "\<exists>rc. p = Wrote fd v rc")
    case True
    then show ?thesis
      using writev_turn_run [OF t(1)] less.prems(1) st by (intro exI [of _ ?s]) auto
  next
    case False
    then obtain pre' iov' wt' where p: "p = Writes fd v pre' iov' wt'"
        "writev_loop fd pre' iov' wt' k1 = (Done (r, vs), k')"
      using writev_turn_run [OF t(1)] less.prems(1) by (cases p) auto
    from less.hyps [of ?s pre' iov' wt'] t(2) False p obtain s' where
      "alone i ?s s'" "ls_pc s' = (ls_pc ?s)(i := Wrote fd v (int_cast r))" "ls_kernel s' = k'"
      "ls_ctx s' = ls_ctx ?s" "ls_mutex s' = ls_mutex ?s" "ls_calls s' = ls_calls ?s"
      by auto
    then show ?thesis using st by (intro exI [of _ s']) (auto intro: alone_step)
  qed
qed

lemma prelude_run:
  assumes "log_prelude now (la_level a) (ls_ctx s) = Inr (b, ctx)" "ls_pc s i = Entered a"
  shows "\<exists>s'. alone i s s' \<and> ls_pc s' = (ls_pc s)(i := Waits (args_vectors a b)) \<and> ls_ctx s' = ctx \<and>
    ls_kernel s' = ls_kernel s \<and> ls_mutex s' = ls_mutex s \<and> ls_calls s' = ls_calls s"
proof (cases "bd_timestamp (ls_ctx s)")
  case False
  then have "prelude_text (la_level a) None = Inr b" "ctx = ls_ctx s"
    using assms(1) by (auto simp: log_prelude_parts ebind_eq_Inr)
  then show ?thesis
    using plain [OF assms(2) False] by (intro exI [of _ "set_pc i (Waits (args_vectors a b)) s"]) auto
next
  case True
  then obtain w dt0 dt1 c where c: "times_test now (ls_ctx s) = Inr w"
      "times_diff w now (ls_ctx s) = Inr (dt0, dt1, c)"
      "prelude_text (la_level a) (Some (dt0, dt1)) = Inr b" "ctx = c\<lparr>bd_prev := now\<rparr>"
    using assms(1) by (auto simp: log_prelude_parts ebind_eq_Inr)
  let ?s1 = "set_pc i (Stamped a now) s" let ?s2 = "set_pc i (Tested a now w) ?s1"
  let ?s3 = "set_pc i (Timed a now dt0 dt1) ?s2\<lparr>ls_ctx := c\<rparr>"
  let ?s4 = "set_pc i (Waits (args_vectors a b)) ?s3\<lparr>ls_ctx := (ls_ctx ?s3)\<lparr>bd_prev := now\<rparr>\<rparr>"
  have a1: "log_step s i ?s1" using now [OF assms(2) True] .
  have a2: "log_step ?s1 i ?s2" using test [of ?s1 i a now w] c(1) by simp
  have a3: "log_step ?s2 i ?s3" using diff [of ?s2 i a now w dt0 dt1 c] c(2) by simp
  have a4: "log_step ?s3 i ?s4" using store [of ?s3 i a now dt0 dt1 b] c(3) by simp
  from alone_step [OF a1 alone_step [OF a2 alone_step [OF a3 alone_step [OF a4 alone_refl]]]]
  have "alone i s ?s4" .
  then show ?thesis using c(4) by (intro exI [of _ ?s4]) auto
qed

lemma write_run:
  assumes "writev_loop (bd_fd (ls_ctx s)) [] v 0 (ls_kernel s) = (Done (r, vs), k')"
    and "ls_pc s i = Waits v" "ls_mutex s = None"
  shows "\<exists>s'. alone i s s' \<and> ls_pc s' = (ls_pc s)(i := Leaves (int_cast r)) \<and> ls_kernel s' = k' \<and>
    ls_ctx s' = ls_ctx s \<and> ls_mutex s' = None \<and>
    ls_calls s' = ls_calls s @ [((bd_fd (ls_ctx s), v), int_cast r)]"
proof -
  let ?d = "bd_fd (ls_ctx s)"
  let ?s0 = "set_pc i (Locked v) s\<lparr>ls_mutex := Some i\<rparr>" let ?s1 = "set_pc i (Writes ?d v [] v 0) ?s0"
  have a0: "log_step s i ?s0" using lock assms(2,3) by simp
  have a1: "log_step ?s0 i ?s1" using enter [of ?s0 i v] by simp
  obtain s2 where s2: "alone i ?s1 s2" "ls_pc s2 = (ls_pc ?s1)(i := Wrote ?d v (int_cast r))" "ls_kernel s2 = k'"
      "ls_ctx s2 = ls_ctx ?s1" "ls_calls s2 = ls_calls ?s1"
    using writes_run [of ?d "[]" v 0 ?s1 r vs k' i v] assms(1) by auto
  let ?s3 = "set_pc i (Leaves (int_cast r)) s2\<lparr>ls_mutex := None, ls_calls := ls_calls s2 @ [((?d, v), int_cast r)]\<rparr>"
  have "log_step s2 i ?s3" using unlock [of s2 i ?d v "int_cast r"] s2(2) by simp
  then have "alone i s2 ?s3" by (rule alone_step [OF _ alone_refl])
  with alone_step [OF a0 alone_step [OF a1 s2(1)]] have "alone i s ?s3" by (rule rtranclp_trans)
  then show ?thesis using s2 by (intro exI [of _ ?s3]) auto
qed

subsection \<open>The first line of a thread\<close>

lemma log_steps_refl: "log_steps s s"
  by (simp add: log_steps_def)

lemma log_steps_into: "log_steps s t \<Longrightarrow> log_step t i u \<Longrightarrow> log_steps s u"
  unfolding log_steps_def by (erule rtranclp.rtrancl_into_rtrancl) blast

lemma alone_log_steps: "log_steps s t \<Longrightarrow> alone i t u \<Longrightarrow> log_steps s u"
  by (erule rtranclp_induct [of "\<lambda>s s'. log_step s i s'"]) (auto intro: log_steps_into)

lemma fresh_times:
  assumes "sancus_time_is_zero (bd_prev ctx)"
  shows "times_test ts ctx = Inr True"
    and "times_diff True ts ctx = Inr (TIMESPEC_INIT 0 0, TIMESPEC_INIT 0 0, ctx\<lparr>bd_first := ts\<rparr>)"
  using assms by (simp_all add: times_test_def times_diff_def)

text \<open>A thread that starts on fresh times comes to the store into \<open>prev\<close>.\<close>

lemma run_to_store:
  assumes "ls_pc s i = Outside" "bd_timestamp (ls_ctx s)" "sancus_time_is_zero (bd_prev (ls_ctx s))"
  shows "\<exists>s'. log_steps s s' \<and> ls_pc s' = (ls_pc s)(i := Timed a ts (TIMESPEC_INIT 0 0) (TIMESPEC_INIT 0 0)) \<and>
    ls_ctx s' = (ls_ctx s)\<lparr>bd_first := ts\<rparr> \<and> ls_mutex s' = ls_mutex s"
proof -
  let ?z = "TIMESPEC_INIT 0 0"
  let ?s1 = "set_pc i (Entered a) s" let ?s2 = "set_pc i (Stamped a ts) ?s1"
  let ?s3 = "set_pc i (Tested a ts True) ?s2"
  let ?s4 = "set_pc i (Timed a ts ?z ?z) ?s3\<lparr>ls_ctx := (ls_ctx s)\<lparr>bd_first := ts\<rparr>\<rparr>"
  have "log_step s i ?s1" using call assms(1) by blast
  moreover have "log_step ?s1 i ?s2" using now [of ?s1 i a ts] assms(2) by simp
  moreover have "log_step ?s2 i ?s3" using test [of ?s2 i a ts True] fresh_times(1) [OF assms(3)] by simp
  moreover have "log_step ?s3 i ?s4"
    using diff [of ?s3 i a ts True ?z ?z "(ls_ctx s)\<lparr>bd_first := ts\<rparr>"] fresh_times(2) [OF assms(3)] by simp
  ultimately have "log_steps s ?s4" by (meson log_steps_into log_steps_refl)
  then show ?thesis by (intro exI [of _ ?s4]) auto
qed

subsection \<open>A run\<close>

text \<open>One thread logs \<open>bc\<close> under the prefix \<open>a\<close>, interrupted once.\<close>

definition example_args :: log_args where
  "example_args = \<lparr>la_level = 2, la_prefix = [97], la_msg = [98, 99], la_data = []\<rparr>"

definition example_init :: log_system where
  "example_init = log_init \<lparr>bd_fd = 2, bd_timestamp = False, bd_first = TIMESPEC_INIT 0 0, bd_prev = TIMESPEC_INIT 0 0\<rparr>
     ([Err EINTR, Ret 100 []], [])"

lemma example_prelude:
  "\<exists>b. log_prelude now 2 (ls_ctx example_init) = Inr (b, ls_ctx example_init) \<and> buf_wf b \<and> contents b = [73, 47]"
  using prelude_plain [of "ls_ctx example_init" now 2] by (simp add: example_init_def log_init_def log_levels_def)

lemma example_writev:
  assumes "buf_wf b" "contents b = [73, 47]"
  shows "\<exists>vs k'. writev_loop 2 [] (args_vectors example_args b) 0 (ls_kernel example_init) = (Done (8, vs), k')"
    and "line_text (args_vectors example_args b) = [73, 47, 97, 58, 32, 98, 99, 10]"
proof -
  let ?v = "args_vectors example_args b"
  obtain ds where ds: "iov_gather ?v = Inr ds" "concat ds = [73, 47, 97, 58, 32, 98, 99, 10]"
    using log_vectors_gather [OF assms(1), of "[97]" "[98, 99]" "[]"] assms(2)
    by (auto simp: args_vectors_def example_args_def log_line_def)
  obtain us where us: "?v = us @ [log_iov [10]]" unfolding args_vectors_def using log_vectors_last by blast
  show "line_text ?v = [73, 47, 97, 58, 32, 98, 99, 10]" using ds by (simp add: line_text_def)
  show "\<exists>vs k'. writev_loop 2 [] ?v 0 (ls_kernel example_init) = (Done (8, vs), k')"
    using writev_whole [of us "log_iov [10]" ds 100 2 1 "[]" "[]" "[]"] ds us
    by (simp add: example_init_def log_init_def log_iov_def)
qed

lemma example_write:
  "\<exists>ctx k'. fd_logger_write (TIMESPEC_INIT 5 0) 2 [97] [98, 99] [] (Some (ls_ctx example_init))
    (ls_kernel example_init) = (Done (8, Some ctx), k')"
proof -
  obtain b where b: "log_prelude (TIMESPEC_INIT 5 0) 2 (ls_ctx example_init) = Inr (b, ls_ctx example_init)"
      "buf_wf b" "contents b = [73, 47]" using example_prelude by blast
  obtain vs k' where "writev_loop 2 [] (args_vectors example_args b) 0 (ls_kernel example_init) = (Done (8, vs), k')"
    using example_writev(1) [OF b(2,3)] by blast
  moreover have "bd_fd (ls_ctx example_init) = 2" by (simp add: example_init_def log_init_def)
  ultimately show ?thesis
    using b(1) by (simp add: fd_logger_write_def sbind_def Let_def sancus_writev_def args_vectors_def example_args_def)
qed

lemma example_waits:
  "\<exists>s b. log_steps example_init s \<and> buf_wf b \<and> contents b = [73, 47] \<and>
    ls_pc s 0 = Waits (args_vectors example_args b) \<and> ls_kernel s = ls_kernel example_init \<and>
    bd_fd (ls_ctx s) = 2 \<and> ls_mutex s = None \<and> ls_calls s = []"
proof -
  let ?s = "set_pc 0 (Entered example_args) example_init"
  have i: "ls_mutex ?s = None" "ls_calls ?s = []" "bd_fd (ls_ctx ?s) = 2" "la_level example_args = 2"
    by (simp_all add: example_init_def log_init_def example_args_def)
  obtain b where b: "log_prelude (TIMESPEC_INIT 5 0) 2 (ls_ctx example_init) = Inr (b, ls_ctx example_init)"
      "buf_wf b" "contents b = [73, 47]" using example_prelude by blast
  have "log_step example_init 0 ?s" by (rule call) (simp add: example_init_def log_init_def)
  then have s: "log_steps example_init ?s" by (rule log_steps_into [OF log_steps_refl])
  obtain s1 where s1: "alone 0 ?s s1" "ls_pc s1 = (ls_pc ?s)(0 := Waits (args_vectors example_args b))"
      "ls_ctx s1 = ls_ctx example_init" "ls_kernel s1 = ls_kernel ?s" "ls_mutex s1 = ls_mutex ?s"
      "ls_calls s1 = ls_calls ?s"
    using prelude_run [of "TIMESPEC_INIT 5 0" example_args ?s b "ls_ctx example_init" 0] b(1) i by auto
  then show ?thesis
    using alone_log_steps [OF s s1(1)] b(2,3) i by (intro exI [of _ s1] exI [of _ b]) auto
qed

lemma example_run:
  "\<exists>s v. log_steps example_init s \<and> ls_mutex s = None \<and> ls_calls s = [((2, v), 8)] \<and>
    line_text v = [73, 47, 97, 58, 32, 98, 99, 10]"
proof -
  obtain s1 b where s1: "log_steps example_init s1" "buf_wf b" "contents b = [73, 47]"
      "ls_pc s1 0 = Waits (args_vectors example_args b)" "ls_kernel s1 = ls_kernel example_init"
      "bd_fd (ls_ctx s1) = 2" "ls_mutex s1 = None" "ls_calls s1 = []"
    using example_waits by blast
  let ?v = "args_vectors example_args b"
  obtain vs k' where w: "writev_loop 2 [] ?v 0 (ls_kernel example_init) = (Done (8, vs), k')"
    using example_writev(1) [OF s1(2,3)] by blast
  obtain s2 where "alone 0 s1 s2" "ls_mutex s2 = None" "ls_calls s2 = ls_calls s1 @ [((2, ?v), int_cast 8)]"
    using write_run [of s1 ?v 8 vs k' 0] w s1 by auto
  then show ?thesis
    using alone_log_steps [OF s1(1)] s1(8) example_writev(2) [OF s1(2,3)]
    by (intro exI [of _ s2] exI [of _ ?v]) auto
qed

subsection \<open>Properties\<close>

text \<open>
  C24. In every state the threads reach, the thread between the lock and the unlock is
  the one that holds the mutex, so that there is at most one.
\<close>

theorem log_mutual_exclusion:
  assumes "log_steps (log_init ctx k) s"
  shows "pc_inside (ls_pc s i) \<longleftrightarrow> ls_mutex s = Some i"
  using lt.heldD [OF steps_held [OF assms]] .

theorem log_mutual_exclusion_witness:
  "\<exists>s. log_steps example_init s \<and> pc_inside (ls_pc s 0) \<and> ls_mutex s = Some 0 \<and> \<not> pc_inside (ls_pc s 1)"
proof -
  obtain s v where s: "log_steps example_init s" "ls_pc s 0 = Waits v" "ls_mutex s = None"
    using example_waits by blast
  let ?s = "set_pc 0 (Locked v) s\<lparr>ls_mutex := Some 0\<rparr>"
  have "log_steps example_init ?s" using log_steps_into [OF s(1) lock [OF s(2,3)]] .
  note r = this [unfolded example_init_def]
  show ?thesis
    using log_mutual_exclusion [OF r, of 0] log_mutual_exclusion [OF r, of 1] r
    by (intro exI [of _ ?s]) (simp add: example_init_def)
qed

text \<open>
  C9. Whatever the threads do, the descriptors and the results are those of the calls of \<open>sancus_writev\<close>
  made one after the other, in the order in which the threads released the mutex, each on the descriptor
  the backend had when the call was made: once the mutex is free, the kernel has seen exactly that sequence.
\<close>

theorem log_linear:
  assumes "log_steps (log_init ctx k) s" "ls_mutex s = None"
  shows "seq_writes (map fst (ls_calls s)) k = (Done (map snd (ls_calls s)), ls_kernel s)"
  using assms by (rule in_order_free)

theorem log_linear_witness:
  "\<exists>s v. log_steps example_init s \<and>
     seq_writes [(2, v)] ([Err EINTR, Ret 100 []], []) = (Done [8], ls_kernel s)"
proof -
  obtain s v where s: "log_steps example_init s" "ls_mutex s = None" "ls_calls s = [((2, v), 8)]"
    using example_run by blast
  have "seq_writes [(2, v)] ([Err EINTR, Ret 100 []], []) = (Done [8], ls_kernel s)"
    using log_linear [OF s(1,2) [unfolded example_init_def]] unfolding s(3) by (simp del: seq_writes.simps)
  with s(1) show ?thesis by blast
qed

text \<open>
  C3. The lines of the threads do not mix: when the descriptors take up to \<open>n\<close> bytes of a call whole or
  fail and no line is longer, what was written to each of them is the lines of the calls on it that
  succeeded, whole and one after the other in the order of the mutex.
\<close>

theorem log_lines_whole:
  assumes "log_steps (log_init ctx (answers, [])) s" "ls_mutex s = None"
    and "list_all (takes_whole n) answers" "n < 2 ^ 31"
    and "\<forall>c \<in> set (ls_calls s). length (line_text (snd (fst c))) \<le> n"
  shows "written d (snd (ls_kernel s)) = concat (map (line_on d) (ls_calls s))"
proof -
  obtain s' tr' where k: "ls_kernel s = (s', tr')" by fastforce
  have q: "seq_writes (map fst (ls_calls s)) (answers, []) = (Done (map snd (ls_calls s)), (s', tr'))"
    using in_order_free [OF assms(1,2)] k by simp
  have "\<forall>c \<in> set (map fst (ls_calls s)). is_line (snd c) \<and> length (line_text (snd c)) \<le> n"
    using all_lines_steps [OF assms(1)] assms(5) by (auto simp: all_lines_def)
  from seq_writes_whole [OF q assms(3,4) this, of d] show ?thesis using k by (simp add: zip_map_fst_snd)
qed

theorem log_lines_whole_witness:
  "\<exists>s. log_steps example_init s \<and> written 2 (snd (ls_kernel s)) = [73, 47, 97, 58, 32, 98, 99, 10]"
proof -
  obtain s v where s: "log_steps example_init s" "ls_mutex s = None" "ls_calls s = [((2, v), 8)]"
      "line_text v = [73, 47, 97, 58, 32, 98, 99, 10]"
    using example_run by blast
  from log_lines_whole [where n = 100 and d = 2, OF s(1,2) [unfolded example_init_def]] s show ?thesis
    by (auto simp: line_on_def)
qed

text \<open>
  A thread that runs alone can do what \<open>fd_logger_write\<close> does: the same result, the same calls of the
  kernel, and the same static times.
\<close>

theorem log_alone:
  assumes "fd_logger_write now level prefix msg data (Some (ls_ctx s)) (ls_kernel s) = (Done (rc, Some ctx'), k')"
    and "ls_pc s i = Entered \<lparr>la_level = level, la_prefix = prefix, la_msg = msg, la_data = data\<rparr>"
    and "ls_mutex s = None"
  shows "\<exists>s'. alone i s s' \<and> ls_pc s' = (ls_pc s)(i := Leaves rc) \<and> ls_ctx s' = ctx' \<and>
    ls_kernel s' = k' \<and> ls_mutex s' = None"
proof -
  let ?a = "\<lparr>la_level = level, la_prefix = prefix, la_msg = msg, la_data = data\<rparr>"
  from assms(1) obtain b r vs where p: "log_prelude now level (ls_ctx s) = Inr (b, ctx')"
    and w: "writev_loop (bd_fd ctx') [] (args_vectors ?a b) 0 (ls_kernel s) = (Done (r, vs), k')"
    and rc: "rc = int_cast r"
    by (auto simp: fd_logger_write_def sbind_Done slift_def Let_def sancus_writev_def args_vectors_def
        split: sum.splits)
  obtain s1 where s1: "alone i s s1" "ls_pc s1 = (ls_pc s)(i := Waits (args_vectors ?a b))" "ls_ctx s1 = ctx'"
      "ls_kernel s1 = ls_kernel s" "ls_mutex s1 = ls_mutex s"
    using prelude_run [of now ?a s b ctx' i] p assms(2) by auto
  obtain s2 where "alone i s1 s2" "ls_pc s2 = (ls_pc s1)(i := Leaves rc)" "ls_kernel s2 = k'"
      "ls_ctx s2 = ls_ctx s1" "ls_mutex s2 = None"
    using write_run [of s1 "args_vectors ?a b" r vs k' i] w s1 assms(3) rc by auto
  then show ?thesis using s1 by (intro exI [of _ s2]) auto
qed

theorem log_alone_witness:
  "\<exists>s'. alone 0 (set_pc 0 (Entered example_args) example_init) s' \<and> ls_pc s' 0 = Leaves 8 \<and> ls_mutex s' = None"
proof -
  obtain ctx k' where "fd_logger_write (TIMESPEC_INIT 5 0) 2 [97] [98, 99] [] (Some (ls_ctx example_init))
      (ls_kernel example_init) = (Done (8, Some ctx), k')"
    using example_write by blast
  from log_alone [of "TIMESPEC_INIT 5 0" 2 "[97]" "[98, 99]" "[]" "set_pc 0 (Entered example_args) example_init" 8 ctx k' 0]
    this show ?thesis by (auto simp: example_args_def example_init_def log_init_def)
qed

text \<open>
  C40. The static times are raced on. From the data the backend starts with, two threads that log for
  the first time reach a state in which nobody holds the mutex and each of them has a step that
  stores its own reading of the clock into \<open>prev\<close>; the steps can be taken in either order, and the
  one taken last decides what \<open>prev\<close> is from then on. This for any two readings, so that \<open>prev\<close> can
  go back in time, and both lines show that no time has passed.
\<close>

theorem log_times_race:
  "\<exists>s s0 s1 s01 s10. log_steps (log_init fd_backend_data k) s \<and> ls_mutex s = None \<and>
     bd_prev (ls_ctx s) = TIMESPEC_INIT 0 0 \<and>
     log_step s 0 s0 \<and> bd_prev (ls_ctx s0) = t0 \<and> ls_mutex s0 = None \<and>
     log_step s 1 s1 \<and> bd_prev (ls_ctx s1) = t1 \<and> ls_mutex s1 = None \<and>
     log_step s0 1 s01 \<and> bd_prev (ls_ctx s01) = t1 \<and> ls_mutex s01 = None \<and>
     log_step s1 0 s10 \<and> bd_prev (ls_ctx s10) = t0 \<and> ls_mutex s10 = None \<and>
     ls_pc s01 = ls_pc s10 \<and> ls_pc s01 0 = ls_pc s01 1"
proof -
  let ?s = "log_init fd_backend_data k" and ?z = "TIMESPEC_INIT 0 0"
  let ?a = "\<lparr>la_level = 0, la_prefix = [], la_msg = [], la_data = []\<rparr> :: log_args"
  have z: "sancus_time_is_zero ?z" by (simp add: sancus_time_is_zero_def TIMESPEC_INIT_def)
  obtain s1 where s1: "log_steps ?s s1"
      "ls_pc s1 = (ls_pc ?s)(0 := Timed ?a t0 ?z ?z)"
      "ls_ctx s1 = (ls_ctx ?s)\<lparr>bd_first := t0\<rparr>" "ls_mutex s1 = ls_mutex ?s"
    using run_to_store [of ?s 0 ?a t0] z by (auto simp: log_init_def fd_backend_data_def)
  obtain s2 where s2: "log_steps s1 s2"
      "ls_pc s2 = (ls_pc s1)(1 := Timed ?a t1 ?z ?z)"
      "ls_ctx s2 = (ls_ctx s1)\<lparr>bd_first := t1\<rparr>" "ls_mutex s2 = ls_mutex s1"
    using run_to_store [of s1 1 ?a t1] z s1(2,3) by (auto simp: log_init_def fd_backend_data_def)
  obtain b where b: "prelude_text 0 (Some (?z, ?z)) = Inr b" using prelude_text_wf by blast
  define put where "put i t s = (set_pc i (Waits (args_vectors ?a b)) s)\<lparr>ls_ctx := (ls_ctx s)\<lparr>bd_prev := t\<rparr>\<rparr>"
    for i t and s :: log_system
  have put: "log_step s i (put i t s)" if "ls_pc s i = Timed ?a t ?z ?z" for s i t
    using store [OF that] b by (simp add: put_def)
  have put_pc: "ls_pc (put i t s) = (ls_pc s)(i := Waits (args_vectors ?a b))" for i t s
    by (simp add: put_def)
  have pc: "ls_pc s2 0 = Timed ?a t0 ?z ?z" "ls_pc s2 1 = Timed ?a t1 ?z ?z"
    using s1(2) s2(2) by simp_all
  have "log_step s2 0 (put 0 t0 s2)" "log_step s2 1 (put 1 t1 s2)"
    "log_step (put 0 t0 s2) 1 (put 1 t1 (put 0 t0 s2))" "log_step (put 1 t1 s2) 0 (put 0 t0 (put 1 t1 s2))"
    using pc by (auto intro!: put simp: put_pc)
  moreover have "log_steps ?s s2" using s1(1) s2(1) unfolding log_steps_def by (rule rtranclp_trans)
  moreover have "ls_mutex s2 = None" "bd_prev (ls_ctx s2) = ?z"
    using s1(3,4) s2(3,4) by (simp_all add: log_init_def fd_backend_data_def)
  ultimately show ?thesis
    by (intro exI [of _ s2] exI [of _ "put 0 t0 s2"] exI [of _ "put 1 t1 s2"]
        exI [of _ "put 1 t1 (put 0 t0 s2)"] exI [of _ "put 0 t0 (put 1 t1 s2)"])
      (simp add: put_def fun_upd_twist)
qed

end
