(* ===== verification/Ev.thy ===== *)
theory Ev
  imports Fd Time
begin

text \<open>
  The event interface of \<^verbatim>\<open>include/sancus/ev.h\<close>. The header declares the watchers, the loop and the
  event flags, and gives operations that only fail with \<open>ENOSYS\<close>. The components that use it (streams,
  TCP connections and servers, netlink receivers) are modelled over a record of the interface, so that
  their lemmas hold for every event loop that keeps the contract below; \<open>sancus_ev\<close> is the interface as
  the header has it. A run that may not end is an option, with \<open>None\<close> for a run that never returns.
\<close>

subsection \<open>Watchers\<close>

text \<open>The functions a watcher can carry.\<close>

datatype ev_callback = Read_cb | Io_cb | Connect_cb | Recv_cb

record sancus_ev_fd =
  ev_fd :: int
  ev_cb :: ev_callback

record sancus_ev_loop =
  ev_loop_now :: timespec

definition SANCUS_EV_READ :: u32 where "SANCUS_EV_READ = 0"
definition SANCUS_EV_WRITE :: u32 where "SANCUS_EV_WRITE = 1"
definition SANCUS_EV_ERROR :: u32 where "SANCUS_EV_ERROR = 2"

definition sancus_ev_fd_init ::
  "'w sancus_ev_fd_scheme \<Rightarrow> ev_callback \<Rightarrow> int \<Rightarrow> u32 \<Rightarrow> int \<times> 'w sancus_ev_fd_scheme" where
  "sancus_ev_fd_init w cb fd mode = (- 38, w\<lparr>ev_fd := fd, ev_cb := cb\<rparr>)"

definition sancus_ev_fd_start ::
  "sancus_ev_loop \<Rightarrow> 'w sancus_ev_fd_scheme \<Rightarrow> int \<times> 'w sancus_ev_fd_scheme" where
  "sancus_ev_fd_start loop w = (- 38, w)"

definition sancus_ev_fd_stop ::
  "sancus_ev_loop \<Rightarrow> 'w sancus_ev_fd_scheme \<Rightarrow> int \<times> 'w sancus_ev_fd_scheme" where
  "sancus_ev_fd_stop loop w = (- 38, w)"

definition sancus_ev_is_active :: "'w sancus_ev_fd_scheme \<Rightarrow> bool" where
  "sancus_ev_is_active w = False"

definition sancus_ev_now :: "sancus_ev_loop \<Rightarrow> timespec" where
  "sancus_ev_now loop = ev_loop_now loop"

subsection \<open>The interface\<close>

record 'w ev_api =
  EV_READ :: u32
  EV_WRITE :: u32
  EV_ERROR :: u32
  ev_init :: "'w sancus_ev_fd_scheme \<Rightarrow> ev_callback \<Rightarrow> int \<Rightarrow> u32 \<Rightarrow> int \<times> 'w sancus_ev_fd_scheme"
  ev_start :: "sancus_ev_loop \<Rightarrow> 'w sancus_ev_fd_scheme \<Rightarrow> int \<times> 'w sancus_ev_fd_scheme"
  ev_stop :: "sancus_ev_loop \<Rightarrow> 'w sancus_ev_fd_scheme \<Rightarrow> int \<times> 'w sancus_ev_fd_scheme"
  ev_active :: "'w sancus_ev_fd_scheme \<Rightarrow> bool"

definition sancus_ev :: "'w ev_api" where
  "sancus_ev = \<lparr>EV_READ = SANCUS_EV_READ, EV_WRITE = SANCUS_EV_WRITE, EV_ERROR = SANCUS_EV_ERROR,
     ev_init = sancus_ev_fd_init, ev_start = sancus_ev_fd_start, ev_stop = sancus_ev_fd_stop,
     ev_active = sancus_ev_is_active\<rparr>"

text \<open>
  What the components rely on: a watcher keeps the descriptor it was initialised with, is not active
  before it is started, and is not active after it is stopped.
\<close>

locale event_loop =
  fixes ev :: "'w ev_api"
  assumes init_fd: "ev_fd (snd (ev_init ev w cb fd mode)) = fd"
    and init_inactive: "\<not> ev_active ev (snd (ev_init ev w cb fd mode))"
    and start_fd: "ev_fd (snd (ev_start ev loop w)) = ev_fd w"
    and stop_fd: "ev_fd (snd (ev_stop ev loop w)) = ev_fd w"
    and stop_inactive: "\<not> ev_active ev (snd (ev_stop ev loop w))"
begin

text \<open>Stopping a watcher that may be active, as every \<open>stop\<close> of the library does.\<close>

definition halt :: "sancus_ev_loop \<Rightarrow> 'w sancus_ev_fd_scheme \<Rightarrow> 'w sancus_ev_fd_scheme" where
  "halt loop w = (if ev_active ev w then snd (ev_stop ev loop w) else w)"

lemma halt_inactive: "\<not> ev_active ev (halt loop w)"
  by (simp add: halt_def stop_inactive)

lemma halt_fd: "ev_fd (halt loop w) = ev_fd w"
  by (simp add: halt_def stop_fd)

lemma halt_twice: "halt loop (halt loop' w) = halt loop' w"
  using halt_inactive [of loop' w] by (simp add: halt_def [of loop])

text \<open>Changing a watcher over to other events, as a connection does once it is established.\<close>

lemma rewatch_fd: "ev_fd (snd (ev_start ev l (snd (ev_init ev (snd (ev_stop ev l w)) cb (ev_fd w) m)))) = ev_fd w"
  by (simp add: start_fd init_fd)

end

interpretation hdr: event_loop sancus_ev
  by unfold_locales
    (simp_all add: sancus_ev_def sancus_ev_fd_init_def sancus_ev_fd_start_def sancus_ev_fd_stop_def
      sancus_ev_is_active_def)

text \<open>The contract does not depend on the values of the flags.\<close>

lemma event_loop_flags: "event_loop ev \<Longrightarrow> event_loop (ev\<lparr>EV_READ := r, EV_WRITE := w, EV_ERROR := e\<rparr>)"
  by (simp add: event_loop_def)

subsection \<open>Closing the descriptor of a watcher\<close>

text \<open>\<open>sancus_close2\<close> on the field \<open>fd\<close> of a watcher, its result dropped.\<close>

definition close_watcher :: "'w sancus_ev_fd_scheme \<Rightarrow> 'w sancus_ev_fd_scheme sys" where
  "close_watcher w =
     sbind (sancus_close2 (Some (ev_fd w))) (\<lambda>(_, fd).
       case fd of Some x \<Rightarrow> sret (w\<lparr>ev_fd := x\<rparr>) | None \<Rightarrow> sfault Null_Deref)"

lemma close_watcher_close: "close_watcher w = sbind (sancus_close (ev_fd w)) (\<lambda>_. sret (w\<lparr>ev_fd := -1\<rparr>))"
proof
  fix k
  show "close_watcher w k = sbind (sancus_close (ev_fd w)) (\<lambda>_. sret (w\<lparr>ev_fd := -1\<rparr>)) k"
    by (cases "sancus_close (ev_fd w) k") (simp add: close_watcher_def sancus_close2_def sbind_def split: outcome.split)
qed

lemma close_watcher_retries:
  "close_watcher w (replicate n (Err EINTR) @ Ret m y # t, tr) =
     (Done (w\<lparr>ev_fd := -1\<rparr>), (t, tr @ replicate n (Close (ev_fd w), Err EINTR) @ [(Close (ev_fd w), Ret 0 [])]))"
  using rclose.retries [of "ev_fd w" "Ret m y" n t tr] by (simp add: close_watcher_close sbind_def)

lemma post_close_watcher [post_rules]:
  assumes "kernel_ok k"
    and "\<And>n k'. kernel_ok k' \<Longrightarrow> opn k' = opn k \<Longrightarrow> cls k' = cls k @ replicate (Suc n) (ev_fd w) \<Longrightarrow>
      again k' = again k @ replicate n (ev_fd w) \<Longrightarrow> held k' = filter (\<lambda>x. x \<noteq> ev_fd w) (held k) \<Longrightarrow>
      Q (w\<lparr>ev_fd := -1\<rparr>) k'"
  shows "post (close_watcher w) Q k"
  using assms by (auto simp: close_watcher_close intro!: post_close)

subsection \<open>Runs that may not end\<close>

type_synonym 'a run = "('a outcome \<times> kernel) option"

definition rbind :: "'a run \<Rightarrow> ('a \<Rightarrow> kernel \<Rightarrow> 'b run) \<Rightarrow> 'b run" where
  "rbind m f =
     (case m of
        None \<Rightarrow> None
      | Some (Done x, k) \<Rightarrow> f x k
      | Some (Waiting, k) \<Rightarrow> Some (Waiting, k)
      | Some (Fault e, k) \<Rightarrow> Some (Fault e, k))"

lemma rbind_simps [simp, run_simps]:
  "rbind (Some (Done x, k)) f = f x k"
  "rbind (Some (Waiting, k)) f = Some (Waiting, k)"
  "rbind (Some (Fault e, k)) f = Some (Fault e, k)"
  "rbind None f = None"
  by (simp_all add: rbind_def)

lemma rbind_mono [partial_function_mono]:
  fixes B :: "('i \<Rightarrow> 'j option) \<Rightarrow> 'a run"
  assumes "mono_option B" and "\<And>x k. mono_option (\<lambda>g. C g x k)"
  shows "mono_option (\<lambda>g. rbind (B g) (C g))"
  unfolding monotone_def
proof (intro allI impI)
  fix f g :: "'i \<Rightarrow> 'j option"
  assume "option.le_fun f g"
  with assms have B: "option_ord (B f) (B g)" and C: "option_ord (C f x k) (C g x k)" for x k
    by (auto simp: monotone_def)
  show "option_ord (rbind (B f) (C f)) (rbind (B g) (C g))"
  proof (cases "B f")
    case None
    then show ?thesis by (simp add: flat_ord_def)
  next
    case (Some r)
    with B have g: "B g = Some r" by (simp add: flat_ord_def)
    obtain o' k where "r = (o', k)" by (cases r)
    then show ?thesis using C Some g by (cases o') (simp_all add: flat_ord_def)
  qed
qed

end
