(* ===== verification/Replay.thy ===== *)
theory Replay
  imports Ev
begin

text \<open>
  What code that calls the kernel can do and depend on. A judgement about an operation bounds the calls
  it makes, says what its result satisfies, and that it did all this on the answers to its own calls:
  given these again, in another state of the kernel and with other answers behind them, it makes the same
  calls and gives the same result. The rules in \<open>exact_rules\<close> take the judgement through everything that
  is composed of calls and computation, loops that may not end included.
\<close>

named_theorems exact_rules

subsection \<open>Doing again what was done\<close>

text \<open>
  \<open>reprised C R B k y\<close>: the outcome \<open>y\<close> of a run from \<open>k\<close>, when it returned, satisfies \<open>R\<close>, its calls
  satisfy \<open>C\<close>, and \<open>B\<close> gives it again on the answers to these calls. \<open>tracks C R A B\<close> says so of every run of \<open>A\<close>.
\<close>

definition reprised ::
  "(event \<Rightarrow> bool) \<Rightarrow> ('a \<Rightarrow> bool) \<Rightarrow> (kernel \<Rightarrow> 'a run) \<Rightarrow> kernel \<Rightarrow> 'a outcome \<times> kernel \<Rightarrow> bool" where
  "reprised C R B k y \<longleftrightarrow>
     (\<forall>x k'. y = (Done x, k') \<longrightarrow> R x \<and>
       (\<exists>d. snd k' = snd k @ d \<and> list_all C d \<and> (\<forall>s r. B (map snd d @ s, r) = Some (Done x, (s, r @ d)))))"

definition tracks :: "(event \<Rightarrow> bool) \<Rightarrow> ('a \<Rightarrow> bool) \<Rightarrow> (kernel \<Rightarrow> 'a run) \<Rightarrow> (kernel \<Rightarrow> 'a run) \<Rightarrow> bool" where
  "tracks C R A B \<longleftrightarrow> (\<forall>k y. A k = Some y \<longrightarrow> reprised C R B k y)"

definition exact :: "(event \<Rightarrow> bool) \<Rightarrow> ('a \<Rightarrow> bool) \<Rightarrow> 'a sys \<Rightarrow> bool" where
  "exact C R m \<longleftrightarrow> tracks C R (\<lambda>k. Some (m k)) (\<lambda>k. Some (m k))"

lemma tracksI: "(\<And>k y. A k = Some y \<Longrightarrow> reprised C R B k y) \<Longrightarrow> tracks C R A B"
  unfolding tracks_def by blast

lemma tracks_reprised: "tracks C R A B \<Longrightarrow> A k = Some y \<Longrightarrow> reprised C R B k y"
  unfolding tracks_def by blast

lemma tracksD:
  assumes "tracks C R A B" "A k = Some (Done x, k')"
  obtains d where "snd k' = snd k @ d" "list_all C d" "R x" "\<And>s r. B (map snd d @ s, r) = Some (Done x, (s, r @ d))"
  using assms unfolding tracks_def reprised_def by blast

lemma tracks_weaken: "tracks C R A B \<Longrightarrow> (\<And>x. R x \<Longrightarrow> S x) \<Longrightarrow> tracks C S A B"
  unfolding tracks_def reprised_def by blast

lemma exact_weaken: "exact C R m \<Longrightarrow> (\<And>x. R x \<Longrightarrow> S x) \<Longrightarrow> exact C S m"
  unfolding exact_def by (rule tracks_weaken)

lemma exact_mono:
  assumes "exact C R m" "\<And>e. C e \<Longrightarrow> D e"
  shows "exact D R m"
proof -
  have "list_all C d \<Longrightarrow> list_all D d" for d using assms(2) by (auto simp: list_all_iff)
  with assms(1) show ?thesis unfolding exact_def tracks_def reprised_def by blast
qed

lemma tracks_Done [exact_rules]: "R x \<Longrightarrow> tracks C R (\<lambda>k. Some (Done x, k)) (\<lambda>k. Some (Done x, k))"
  by (auto simp: tracks_def reprised_def intro: exI [of _ "[]"])

lemma tracks_Fault [exact_rules]: "tracks C R (\<lambda>k. Some (Fault e, k)) B"
  by (simp add: tracks_def reprised_def)

lemma tracks_sys [exact_rules]: "exact C R m \<Longrightarrow> tracks C R (\<lambda>k. Some (m k)) (\<lambda>k. Some (m k))"
  by (simp add: exact_def)

lemma tracks_if [exact_rules]:
  "(b \<Longrightarrow> tracks C R A B) \<Longrightarrow> (\<not> b \<Longrightarrow> tracks C R A' B') \<Longrightarrow>
   tracks C R (\<lambda>k. if b then A k else A' k) (\<lambda>k. if b then B k else B' k)"
  by (cases b) simp_all

lemma tracks_prod [exact_rules]:
  "(\<And>a b. p = (a, b) \<Longrightarrow> tracks C R (A a b) (B a b)) \<Longrightarrow>
   tracks C R (case p of (a, b) \<Rightarrow> A a b) (case p of (a, b) \<Rightarrow> B a b)"
  by (cases p) simp

lemma rbind_Done: "rbind m f = Some (Done x, k') \<longleftrightarrow> (\<exists>y l. m = Some (Done y, l) \<and> f y l = Some (Done x, k'))"
  by (auto simp: rbind_def split: option.splits prod.splits outcome.splits)

lemma tracks_rbind [exact_rules]:
  assumes "tracks C S A B" "\<And>y. S y \<Longrightarrow> tracks C R (F y) (G y)"
  shows "tracks C R (\<lambda>k. rbind (A k) (\<lambda>y k. F y k)) (\<lambda>k. rbind (B k) (\<lambda>y k. G y k))"
  unfolding tracks_def reprised_def
proof (intro allI impI)
  fix k o' x k' assume "rbind (A k) (\<lambda>y k. F y k) = Some o'" "o' = (Done x, k')"
  then obtain y l where y: "A k = Some (Done y, l)" "F y l = Some (Done x, k')" by (auto simp: rbind_Done)
  obtain d where d: "snd l = snd k @ d" "list_all C d" "S y" "\<And>s r. B (map snd d @ s, r) = Some (Done y, (s, r @ d))"
    using tracksD [OF assms(1) y(1)] by metis
  obtain e where e: "snd k' = snd l @ e" "list_all C e" "R x" "\<And>s r. G y (map snd e @ s, r) = Some (Done x, (s, r @ e))"
    using tracksD [OF assms(2) [OF d(3)] y(2)] by metis
  show "R x \<and> (\<exists>d. snd k' = snd k @ d \<and> list_all C d \<and>
      (\<forall>s r. rbind (B (map snd d @ s, r)) (\<lambda>y k. G y k) = Some (Done x, (s, r @ d))))"
    using d e by (intro conjI exI [of _ "d @ e"]) simp_all
qed

subsection \<open>Operations\<close>

lemma exact_sret [exact_rules]: "R x \<Longrightarrow> exact C R (sret x)"
  using tracks_Done by (simp add: exact_def)

lemma exact_sfault [exact_rules]: "exact C R (sfault e)"
  using tracks_Fault by (simp add: exact_def)

lemma exact_slift [exact_rules]: "exact C (\<lambda>x. m = Inr x) (slift m)"
  by (cases m) (simp_all add: exact_def tracks_Done tracks_Fault)

lemma clip_clip [simp]: "clip c (clip c a) = clip c a"
  by (cases "(c, a)" rule: clip.cases) auto

lemma exact_syscall [exact_rules]: "(\<And>a. C (c, a)) \<Longrightarrow> exact C (\<lambda>_. True) (syscall c)"
  by (auto simp: exact_def tracks_def reprised_def syscall_Done)

lemma some_sbind: "Some (sbind m f k) = rbind (Some (m k)) (\<lambda>y k. Some (f y k))"
  by (auto simp: sbind_def split: prod.split outcome.split)

lemma exact_sbind [exact_rules]: "exact C S m \<Longrightarrow> (\<And>x. S x \<Longrightarrow> exact C R (f x)) \<Longrightarrow> exact C R (sbind m f)"
  unfolding exact_def some_sbind by (rule tracks_rbind)

lemma exact_if [exact_rules]: "(b \<Longrightarrow> exact C R m) \<Longrightarrow> (\<not> b \<Longrightarrow> exact C R n) \<Longrightarrow> exact C R (if b then m else n)"
  by simp

lemma exact_prod [exact_rules]: "(\<And>a b. p = (a, b) \<Longrightarrow> exact C R (f a b)) \<Longrightarrow> exact C R (case p of (a, b) \<Rightarrow> f a b)"
  by (simp split: prod.split)

lemma exact_option [exact_rules]:
  "(p = None \<Longrightarrow> exact C R m) \<Longrightarrow> (\<And>x. p = Some x \<Longrightarrow> exact C R (f x)) \<Longrightarrow>
   exact C R (case p of None \<Rightarrow> m | Some x \<Rightarrow> f x)"
  by (simp split: option.split)

lemma exact_answer [exact_rules]:
  "(\<And>n x. exact C R (f n x)) \<Longrightarrow> (\<And>e. exact C R (g e)) \<Longrightarrow> exact C R (case a of Ret n x \<Rightarrow> f n x | Err e \<Rightarrow> g e)"
  by (simp split: answer.split)

text \<open>The same with a predicate on all the calls of a run, which can relate them to each other.\<close>

definition spans :: "(event list \<Rightarrow> bool) \<Rightarrow> ('a \<Rightarrow> bool) \<Rightarrow> (kernel \<Rightarrow> 'a run) \<Rightarrow> bool" where
  "spans P R A \<longleftrightarrow>
     (\<forall>k x k'. A k = Some (Done x, k') \<longrightarrow> R x \<and>
       (\<exists>d. snd k' = snd k @ d \<and> P d \<and> (\<forall>s r. A (map snd d @ s, r) = Some (Done x, (s, r @ d)))))"

lemma spansD:
  assumes "spans P R A" "A k = Some (Done x, k')"
  obtains d where "snd k' = snd k @ d" "P d" "R x" "\<And>s r. A (map snd d @ s, r) = Some (Done x, (s, r @ d))"
  using assms unfolding spans_def by blast

lemma tracks_spans: "tracks C R A A \<Longrightarrow> (\<And>d. list_all C d \<Longrightarrow> P d) \<Longrightarrow> spans P R A"
  unfolding spans_def tracks_def reprised_def by blast

lemma exact_run:
  assumes "exact C R m" "m k = (Done x, k')"
  obtains d where "snd k' = snd k @ d" "list_all C d" "R x" "\<And>s r. m (map snd d @ s, r) = (Done x, (s, r @ d))"
  using tracksD [OF assms(1) [unfolded exact_def], of k x k'] assms(2) by (metis option.inject)

lemma spans_map:
  "spans P R A \<Longrightarrow> (\<And>x. R x \<Longrightarrow> S (g x)) \<Longrightarrow> spans P S (\<lambda>k. rbind (A k) (\<lambda>x k. Some (Done (g x), k)))"
  unfolding spans_def rbind_Done by fastforce

subsection \<open>The wrappers\<close>

context retry
begin

lemma exact_op: "(\<And>a. C (c, a)) \<Longrightarrow> exact C (\<lambda>_. True) op"
  unfolding exact_def tracks_def reprised_def
proof (intro allI impI conjI TrueI)
  fix k o' x k' assume C: "\<And>a. C (c, a)" and "Some (op k) = Some o'" "o' = (Done x, k')"
  then have r: "op k = (Done x, k')" by simp
  obtain t tr where k: "k = (t, tr)" by (cases k)
  with r runs [of t tr] obtain n a as where a: "clip c a \<noteq> Err EINTR" "x = fin (clip c a)"
      "k' = (as, tr @ replicate n (c, Err EINTR) @ [(c, clip c a)])" by auto
  then show "\<exists>d. snd k' = snd k @ d \<and> list_all C d \<and> (\<forall>s r. Some (op (map snd d @ s, r)) = Some (Done x, (s, r @ d)))"
    using k C retries [of "clip c a" n] by (intro exI [of _ "replicate n (c, Err EINTR) @ [(c, clip c a)]"])
      (simp add: list_all_iff)
qed

end

lemmas exact_wrappers [exact_rules] =
  rclose.exact_op rread.exact_op raccept.exact_op ropen.exact_op

lemma exact_close2 [exact_rules]:
  "(\<And>a. C (Close fd, a)) \<Longrightarrow> exact C (\<lambda>_. True) (sancus_close2 (Some fd))"
  unfolding sancus_close2_def option.case by (rule exact_sbind, rule rclose.exact_op) (auto intro: exact_sret)

lemma exact_close_watcher [exact_rules]:
  "(\<And>a. C (Close (ev_fd w), a)) \<Longrightarrow> exact C (\<lambda>x. x = w\<lparr>ev_fd := -1\<rparr>) (close_watcher w)"
  unfolding close_watcher_close by (rule exact_sbind, rule rclose.exact_op) (auto intro: exact_sret)

subsection \<open>Loops over the answers\<close>

definition replays :: "(event \<Rightarrow> bool) \<Rightarrow> 'a sys \<Rightarrow> event list \<Rightarrow> event list \<Rightarrow> 'a \<Rightarrow> bool" where
  "replays C m tr tr' x \<longleftrightarrow> (\<exists>d. tr' = tr @ d \<and> list_all C d \<and> (\<forall>s r. m (map snd d @ s, r) = (Done x, (s, r @ d))))"

lemma exactI: "(\<And>t tr x t' tr'. m (t, tr) = (Done x, (t', tr')) \<Longrightarrow> replays C m tr tr' x) \<Longrightarrow> exact C (\<lambda>_. True) m"
  unfolding exact_def tracks_def reprised_def replays_def by (metis option.inject prod.collapse)

lemma replays_refl: "(\<And>k. m k = (Done x, k)) \<Longrightarrow> replays C m tr tr x"
  by (auto simp: replays_def intro: exI [of _ "[]"])

text \<open>A turn of a loop: one call, and the rest of the loop behind it.\<close>

lemma replays_turn:
  assumes "replays C m (tr @ [e]) tr' x" "C e" "\<And>s r. m' (snd e # s, r) = m (s, r @ [e])"
  shows "replays C m' tr tr' x"
proof -
  obtain d where "tr' = tr @ e # d" "list_all C d" "\<forall>s r. m (map snd d @ s, r) = (Done x, (s, r @ d))"
    using assms(1) by (auto simp: replays_def)
  then show ?thesis using assms(2,3) unfolding replays_def by (intro exI [of _ "e # d"]) simp
qed

lemma replays_last:
  assumes "C e" "\<And>s r. m (snd e # s, r) = (Done x, (s, r @ [e]))"
  shows "replays C m tr (tr @ [e]) x"
  using assms unfolding replays_def by (intro exI [of _ "[e]"]) simp

lemma replay_write_loop:
  "write_loop fd d wt (t, tr) = (Done x, (t', tr')) \<Longrightarrow> (\<And>d a. C (Write fd d, a)) \<Longrightarrow>
   replays C (write_loop fd d wt) tr tr' x"
proof (induction t arbitrary: d wt tr)
  case Nil
  then show ?case by (cases "d = []") (auto simp: write_loop_turn(1,2) intro: replays_refl)
next
  case (Cons a t)
  show ?case
  proof (cases "d = []")
    case True
    then show ?thesis using Cons.prems by (auto simp: write_loop_turn(1) intro: replays_refl)
  next
    case False
    note w = write_loop_turn(3,4) [OF False]
    show ?thesis
    proof (cases a)
      case (Ret n y)
      let ?n = "min n (length d)"
      have "replays C (write_loop fd (drop ?n d) (wt + int ?n)) (tr @ [(Write fd d, Ret ?n [])]) tr' x"
        using Cons.prems by (intro Cons.IH) (simp_all add: Ret w)
      then show ?thesis by (rule replays_turn) (use Cons.prems(2) in \<open>simp_all add: w\<close>)
    next
      case (Err e)
      show ?thesis
      proof (cases "e = EINTR")
        case True
        then have "replays C (write_loop fd d wt) (tr @ [(Write fd d, Err e)]) tr' x"
          using Cons.prems by (intro Cons.IH) (simp_all add: Err w)
        then show ?thesis by (rule replays_turn) (use Cons.prems(2) in \<open>simp_all add: w True\<close>)
      qed (use Cons.prems in \<open>auto simp: Err w intro!: replays_last\<close>)
    qed
  qed
qed

lemma exact_write [exact_rules]: "(\<And>d a. C (Write fd d, a)) \<Longrightarrow> exact C (\<lambda>_. True) (sancus_write fd data)"
  unfolding sancus_write_def by (rule exactI) (rule replay_write_loop)

lemma replay_writev_loop:
  "writev_loop fd pre iov wt (t, tr) = (Done x, (t', tr')) \<Longrightarrow> (\<And>ds a. C (Writev fd ds, a)) \<Longrightarrow>
   replays C (writev_loop fd pre iov wt) tr tr' x"
proof (induction t arbitrary: pre iov wt tr)
  case Nil
  show ?case
  proof (cases "iov = []")
    case False
    then show ?thesis
      using Nil writev_loop_turn(1) [of iov _ fd pre wt tr] writev_loop.simps [of fd pre iov wt "([], tr)"]
      by (cases "iov_gather iov") (simp_all add: sbind_def)
  qed (use Nil in \<open>auto simp: writev_loop.simps intro: replays_refl\<close>)
next
  case (Cons a t)
  show ?case
  proof (cases "iov = [] \<or> (\<exists>e. iov_gather iov = Inl e)")
    case True
    show ?thesis
    proof (cases "iov = []")
      case False
      then show ?thesis using True Cons.prems writev_loop.simps [of fd pre iov wt "(a # t, tr)"] by (auto simp: sbind_def)
    qed (use Cons.prems in \<open>auto simp: writev_loop.simps intro: replays_refl\<close>)
  next
    case False
    then obtain ds where ds: "iov \<noteq> []" "iov_gather iov = Inr ds" by (cases "iov_gather iov") auto
    note w = writev_loop_turn(2,3) [OF ds]
    show ?thesis
    proof (cases a)
      case (Ret n y)
      let ?wc = "min n (length (concat ds))"
      note w1 = w(1) [OF refl, of fd pre wt n] and w2 = w(1) [of ?wc ?wc fd pre wt]
      show ?thesis
      proof (cases "?wc = 0")
        case True
        then have "replays C (writev_loop fd pre iov wt) (tr @ [(Writev fd ds, Ret ?wc [])]) tr' x"
          using Cons.prems w1 Ret by (intro Cons.IH) (simp_all add: Let_def)
        then show ?thesis by (rule replays_turn) (use w2 True Cons.prems(2) in \<open>simp_all add: Let_def\<close>)
      next
        case False
        then obtain p v where p: "iov_consume ?wc ?wc pre iov = Inr (p, v)"
          using Cons.prems Ret w1 by (cases "iov_consume ?wc ?wc pre iov") (auto simp: Let_def)
        then have "replays C (writev_loop fd p v (wt + int ?wc)) (tr @ [(Writev fd ds, Ret ?wc [])]) tr' x"
          using False Cons.prems w1 Ret by (intro Cons.IH) (simp_all add: Let_def)
        then show ?thesis by (rule replays_turn) (use w2 False p Cons.prems(2) in \<open>simp_all add: Let_def\<close>)
      qed
    next
      case (Err e)
      show ?thesis
      proof (cases "e = EINTR")
        case True
        then have "replays C (writev_loop fd pre iov wt) (tr @ [(Writev fd ds, Err e)]) tr' x"
          using Cons.prems by (intro Cons.IH) (simp_all add: Err w(2))
        then show ?thesis by (rule replays_turn) (use Cons.prems(2) in \<open>simp_all add: w(2) True\<close>)
      qed (use Cons.prems in \<open>auto simp: Err w(2) intro!: replays_last\<close>)
    qed
  qed
qed

lemma exact_writev [exact_rules]: "(\<And>ds a. C (Writev fd ds, a)) \<Longrightarrow> exact C (\<lambda>_. True) (sancus_writev fd iov n)"
proof -
  assume "\<And>ds a. C (Writev fd ds, a)"
  then have "exact C (\<lambda>_. True) (writev_loop fd [] v 0)" for v by (intro exactI replay_writev_loop)
  then show ?thesis unfolding sancus_writev_def by (intro exact_rules) simp_all
qed

end
