(* ===== verification/Streams.thy ===== *)
theory Streams
  imports Ev Buffer_Legacy
begin

text \<open>
  The buffered reader of \<^verbatim>\<open>include/sancus/stream.h\<close> and \<^verbatim>\<open>src/sancus/stream.c\<close>: a watcher, an input buffer
  and callbacks of the application. The callbacks are an argument; they get the stream and the
  application's own state, may change both and may call the kernel. The pointer to the settings never
  changes after \<open>sancus_stream_init\<close> and is passed along instead of being stored.
\<close>

subsection \<open>Streams and their settings\<close>

datatype sancus_stream_error = SANCUS_STREAM_READ_ERROR | SANCUS_STREAM_READ_EOF | SANCUS_STREAM_READ_FULL

record 'w sancus_stream =
  read_watcher :: "'w sancus_ev_fd_scheme"
  read_buffer :: sancus_buffer

record ('w, 'u) sancus_stream_settings =
  on_error :: "sancus_stream_error \<Rightarrow> 'w sancus_stream \<Rightarrow> 'u \<Rightarrow> (bool \<times> 'w sancus_stream \<times> 'u) sys"
  on_close :: "'w sancus_stream \<Rightarrow> 'u \<Rightarrow> ('w sancus_stream \<times> 'u) sys"
  on_read :: "nat \<Rightarrow> nat \<Rightarrow> 'w sancus_stream \<Rightarrow> 'u \<Rightarrow> (int \<times> 'w sancus_stream \<times> 'u) sys"

definition sancus_stream_fd :: "'w sancus_stream \<Rightarrow> int" where
  "sancus_stream_fd s = ev_fd (read_watcher s)"

definition sancus_stream_reset_readbuffer :: "'w sancus_stream \<Rightarrow> 'w sancus_stream" where
  "sancus_stream_reset_readbuffer s = s\<lparr>read_buffer := sancus_buffer_reset_legacy (read_buffer s)\<rparr>"

subsection \<open>Exported functions\<close>

definition sancus_stream_process ::
  "('w, 'u) sancus_stream_settings \<Rightarrow> 'w sancus_stream \<Rightarrow> 'u \<Rightarrow> (int \<times> 'w sancus_stream \<times> 'u) sys" where
  "sancus_stream_process st s u =
     (let b = read_buffer s; l = long_cast (uint (sancus_buffer_len_legacy b)) in
      if l > 0 then
        sbind (on_read st (sancus_buffer_data b) (nat l) s u) (\<lambda>(l, s, u).
          if l > 0 then
            sbind (slift (sancus_buffer_skip (read_buffer s) (word_of_int l))) (\<lambda>(_, b).
              sret (l, s\<lparr>read_buffer := b\<rparr>, u))
          else sret (l, s, u))
      else sret (l, s, u))"

definition sancus_stream_start :: "'w ev_api \<Rightarrow> sancus_ev_loop \<Rightarrow> 'w sancus_stream \<Rightarrow> 'w sancus_stream exec" where
  "sancus_stream_start ev loop s =
     chk Assert_Fail (\<not> ev_active ev (read_watcher s))
       (Inr (s\<lparr>read_watcher := snd (ev_start ev loop (read_watcher s))\<rparr>))"

definition sancus_stream_stop :: "'w ev_api \<Rightarrow> sancus_ev_loop \<Rightarrow> 'w sancus_stream \<Rightarrow> 'w sancus_stream" where
  "sancus_stream_stop ev loop s =
     (if ev_active ev (read_watcher s) then s\<lparr>read_watcher := snd (ev_stop ev loop (read_watcher s))\<rparr> else s)"

definition sancus_stream_close ::
  "'w ev_api \<Rightarrow> ('w, 'u) sancus_stream_settings \<Rightarrow> 'w sancus_stream \<Rightarrow> 'u \<Rightarrow> ('w sancus_stream \<times> 'u) sys" where
  "sancus_stream_close ev st s u =
     (if ev_fd (read_watcher s) \<ge> 0 \<and> \<not> ev_active ev (read_watcher s) then
        sbind (close_watcher (read_watcher s)) (\<lambda>w. on_close st (s\<lparr>read_watcher := w\<rparr>) u)
      else sret (s, u))"

text \<open>The pointers \<open>self\<close>, \<open>settings\<close> and the callbacks in it are not \<open>NULL\<close> by their types.\<close>

definition sancus_stream_init ::
  "'w ev_api \<Rightarrow> 'w sancus_stream \<Rightarrow> int \<Rightarrow> byte list option \<Rightarrow> u64 \<Rightarrow> (int \<times> 'w sancus_stream) exec" where
  "sancus_stream_init ev s fd buf sz =
     chk Assert_Fail (fd \<ge> 0) (chk Assert_Fail (buf = None \<or> sz > 0)
       (ebind (sancus_buffer_bind buf sz) (\<lambda>b.
          Inr (1, s\<lparr>read_watcher := snd (ev_init ev (read_watcher s) Read_cb fd (EV_READ ev)), read_buffer := b\<rparr>))))"

subsection \<open>The event callback\<close>

text \<open>The label \<open>read_buffer_available\<close>; the result says whether to close the stream.\<close>

partial_function (option) read_buffer_available ::
  "('w, 'u) sancus_stream_settings \<Rightarrow> 'w sancus_stream \<Rightarrow> 'u \<Rightarrow> kernel \<Rightarrow> (bool \<times> 'w sancus_stream \<times> 'u) run" where
  "read_buffer_available st s u k =
     (if sancus_buffer_available (read_buffer s) = 0 then
        rbind (Some (on_error st SANCUS_STREAM_READ_FULL s u k)) (\<lambda>r k.
          if fst r then Some (Done r, k)
          else read_buffer_available st (fst (snd r)) (snd (snd r)) k)
      else Some (Done (False, s, u), k))"

text \<open>The loop over the data read.\<close>

partial_function (option) read_loop ::
  "'w ev_api \<Rightarrow> ('w, 'u) sancus_stream_settings \<Rightarrow> 'w sancus_stream \<Rightarrow> 'u \<Rightarrow> kernel \<Rightarrow>
   (bool \<times> 'w sancus_stream \<times> 'u) run" where
  "read_loop ev st s u k =
     (let b = read_buffer s; l = long_cast (uint (sancus_buffer_len_legacy b)) in
      if l = 0 then Some (Done (False, s, u), k)
      else rbind (Some (on_read st (sancus_buffer_data b) (unat (word_of_int l :: u64)) s u k)) (\<lambda>r k.
        if fst r > 0 then
          rbind (Some (slift (sancus_buffer_skip (read_buffer (fst (snd r))) (word_of_int (fst r))) k)) (\<lambda>x k.
            if \<not> ev_active ev (read_watcher (fst (snd r)))
            then Some (Done (False, (fst (snd r))\<lparr>read_buffer := snd x\<rparr>, snd (snd r)), k)
            else read_loop ev st ((fst (snd r))\<lparr>read_buffer := snd x\<rparr>) (snd (snd r)) k)
        else Some (Done (fst r \<noteq> 0, snd r), k)))"

text \<open>The label \<open>try_read\<close>; \<open>errno\<close> is what the read just returned, negated.\<close>

partial_function (option) try_read ::
  "'w ev_api \<Rightarrow> ('w, 'u) sancus_stream_settings \<Rightarrow> 'w sancus_stream \<Rightarrow> 'u \<Rightarrow> kernel \<Rightarrow>
   (bool \<times> 'w sancus_stream \<times> 'u) run" where
  "try_read ev st s u k =
     rbind (Some (sancus_buffer_read (read_buffer s) (ev_fd (read_watcher s)) k)) (\<lambda>r k.
       if fst r > 0 then read_loop ev st (s\<lparr>read_buffer := snd r\<rparr>) u k
       else if fst r = 0 then Some (on_error st SANCUS_STREAM_READ_EOF (s\<lparr>read_buffer := snd r\<rparr>) u k)
       else if - fst r = EINTR then try_read ev st (s\<lparr>read_buffer := snd r\<rparr>) u k
       else if - fst r = EAGAIN then Some (Done (False, s\<lparr>read_buffer := snd r\<rparr>, u), k)
       else Some (on_error st SANCUS_STREAM_READ_ERROR (s\<lparr>read_buffer := snd r\<rparr>) u k))"

text \<open>The label \<open>close_stream\<close>.\<close>

definition close_stream ::
  "'w ev_api \<Rightarrow> ('w, 'u) sancus_stream_settings \<Rightarrow> sancus_ev_loop \<Rightarrow> 'w sancus_stream \<Rightarrow> 'u \<Rightarrow>
   ('w sancus_stream \<times> 'u) sys" where
  "close_stream ev st loop s u = sancus_stream_close ev st (sancus_stream_stop ev loop s) u"

definition read_cb ::
  "'w ev_api \<Rightarrow> ('w, 'u) sancus_stream_settings \<Rightarrow> sancus_ev_loop \<Rightarrow> u32 \<Rightarrow> 'w sancus_stream \<Rightarrow> 'u \<Rightarrow> kernel \<Rightarrow>
   ('w sancus_stream \<times> 'u) run" where
  "read_cb ev st loop revents s u k =
     (if revents AND EV_ERROR ev \<noteq> 0 then Some (Fault Assert_Fail, k)
      else if revents AND EV_READ ev \<noteq> 0 then
        rbind (read_buffer_available st s u k) (\<lambda>(full, s, u) k.
          if full then Some (close_stream ev st loop s u k)
          else rbind (try_read ev st s u k) (\<lambda>(fail, s, u) k.
            if fail then Some (close_stream ev st loop s u k) else Some (Done (s, u), k)))
      else Some (Done (s, u), k))"

subsection \<open>The reader as a queue and a consumer\<close>

text \<open>
  An application that only looks at the data: \<open>c\<close> tells from its state and the bytes waiting how many of
  them it took (at most \<open>LONG_MAX\<close>, a \<open>ssize_t\<close>), that it needs more (zero) or that the stream is broken
  (negative), and its next state.
\<close>

definition consumer :: "('w, 'u) sancus_stream_settings \<Rightarrow> ('u \<Rightarrow> byte list \<Rightarrow> int \<times> 'u) \<Rightarrow> bool" where
  "consumer st c \<longleftrightarrow>
     (\<forall>s u k. buf_wf (read_buffer s) \<longrightarrow>
        on_read st (sancus_buffer_data (read_buffer s)) (length (contents (read_buffer s))) s u k =
          (Done (fst (c u (contents (read_buffer s))), s, snd (c u (contents (read_buffer s)))), k) \<and>
        fst (c u (contents (read_buffer s))) \<le> LONG_MAX)"

text \<open>
  The loop on the queue alone: offer the bytes, take off what was consumed, go on while the watcher is
  active. The result says whether to close, what is left and the state of the application.
\<close>

function feed :: "('u \<Rightarrow> byte list \<Rightarrow> int \<times> 'u) \<Rightarrow> bool \<Rightarrow> 'u \<Rightarrow> byte list \<Rightarrow> bool \<times> byte list \<times> 'u" where
  "feed c active u q =
     (if q = [] then (False, q, u)
      else if fst (c u q) > 0 then
        (if active then feed c active (snd (c u q)) (drop (nat (fst (c u q))) q)
         else (False, drop (nat (fst (c u q))) q, snd (c u q)))
      else (fst (c u q) \<noteq> 0, q, snd (c u q)))"
  by pat_completeness auto
termination by (relation "measure (\<lambda>(c, a, u, q). length q)") auto

declare feed.simps [simp del]

lemma feed_turn:
  "feed c a u [] = (False, [], u)"
  "q \<noteq> [] \<Longrightarrow> fst (c u q) \<le> 0 \<Longrightarrow> feed c a u q = (fst (c u q) \<noteq> 0, q, snd (c u q))"
  "q \<noteq> [] \<Longrightarrow> 0 < fst (c u q) \<Longrightarrow> feed c False u q = (False, drop (nat (fst (c u q))) q, snd (c u q))"
  "q \<noteq> [] \<Longrightarrow> 0 < fst (c u q) \<Longrightarrow> feed c True u q = feed c True (snd (c u q)) (drop (nat (fst (c u q))) q)"
  by (simp_all add: feed.simps [of c _ u q] feed.simps [of c _ u "[]"])

lemma feed_suffix: "\<exists>n \<le> length q. fst (snd (feed c a u q)) = drop n q"
proof (induction c a u q rule: feed.induct)
  case (1 c a u q)
  let ?n = "nat (fst (c u q))"
  consider "q = [] \<or> fst (c u q) \<le> 0" | "q \<noteq> []" "fst (c u q) > 0" "\<not> a" | "q \<noteq> []" "fst (c u q) > 0" "a"
    by linarith
  then show ?case
  proof cases
    case 1
    then show ?thesis by (subst feed.simps) (auto intro: exI [of _ 0])
  next
    case 2
    then show ?thesis by (subst feed.simps) (auto intro!: exI [of _ "min ?n (length q)"] simp: min_def)
  next
    case 3
    then obtain m where m: "m \<le> length (drop ?n q)" "fst (snd (feed c a (snd (c u q)) (drop ?n q))) = drop m (drop ?n q)"
      using 1 by blast
    then have "fst (snd (feed c a u q)) = drop (min (m + ?n) (length q)) q"
      using 3 by (subst feed.simps) (auto simp: min_def)
    then show ?thesis by (intro exI [of _ "min (m + ?n) (length q)"]) simp
  qed
qed

lemma len_legacy:
  assumes "buf_wf b"
  shows "long_cast (uint (sancus_buffer_len_legacy b)) = int (length (contents b))"
    and "unat (word_of_nat (length (contents b)) :: u64) = length (contents b)"
  using assms len_int [OF assms] length_contents [OF assms] unat_bound [of "b_len b"]
  by (simp_all add: sancus_buffer_len_legacy_def)

lemma skip_count:
  assumes "buf_wf b" and "0 < r" and "r \<le> LONG_MAX"
  shows "\<exists>v b'. sancus_buffer_skip b (word_of_int r) = Inr (v, b') \<and> buf_wf b' \<and> b_size b' = b_size b \<and>
    contents b' = drop (nat r) (contents b) \<and> (contents b' = [] \<longrightarrow> b_base b' = 0)"
proof -
  obtain n where n: "r = int n" using assms(2) by (metis zero_less_imp_eq_int)
  then have r: "unat (word_of_int r :: u64) = nat r"
    using assms(3) by (simp add: unat_of_nat_small)
  then obtain v b' where b': "sancus_buffer_skip b (word_of_int r) = Inr (v, b')" "buf_wf b'" "b_size b' = b_size b"
      "contents b' = drop (nat r) (contents b)"
    using skip_spec [OF assms(1), of "word_of_int r"] by metis
  have "b_base b' = 0" if "contents b' = []"
  proof -
    have "b_len b \<le> (word_of_int r :: u64)"
      using that b'(4) length_contents [OF assms(1)] r by (simp add: word_le_nat_alt)
    then show ?thesis using b'(1) by (auto simp: sancus_buffer_skip_def sancus_buffer_reset_legacy_def)
  qed
  with b' show ?thesis by blast
qed

text \<open>One turn of the loop over a consumer.\<close>

lemma read_loop_turn:
  assumes "consumer st c" and "buf_wf (read_buffer s)"
  defines "q \<equiv> contents (read_buffer s)"
  shows "read_loop ev st s u k =
      (if q = [] then Some (Done (False, s, u), k)
       else if fst (c u q) > 0 then
         rbind (Some (slift (sancus_buffer_skip (read_buffer s) (word_of_int (fst (c u q)))) k)) (\<lambda>x k.
           if \<not> ev_active ev (read_watcher s) then Some (Done (False, s\<lparr>read_buffer := snd x\<rparr>, snd (c u q)), k)
           else read_loop ev st (s\<lparr>read_buffer := snd x\<rparr>) (snd (c u q)) k)
       else Some (Done (fst (c u q) \<noteq> 0, s, snd (c u q)), k))"
    and "fst (c u q) \<le> LONG_MAX"
proof -
  have rd: "on_read st (sancus_buffer_data (read_buffer s)) (length q) s u k = (Done (fst (c u q), s, snd (c u q)), k)"
    "fst (c u q) \<le> LONG_MAX"
    using assms(1,2) unfolding consumer_def q_def by blast+
  then show "fst (c u q) \<le> LONG_MAX" by blast
  show "read_loop ev st s u k =
      (if q = [] then Some (Done (False, s, u), k)
       else if fst (c u q) > 0 then
         rbind (Some (slift (sancus_buffer_skip (read_buffer s) (word_of_int (fst (c u q)))) k)) (\<lambda>x k.
           if \<not> ev_active ev (read_watcher s) then Some (Done (False, s\<lparr>read_buffer := snd x\<rparr>, snd (c u q)), k)
           else read_loop ev st (s\<lparr>read_buffer := snd x\<rparr>) (snd (c u q)) k)
       else Some (Done (fst (c u q) \<noteq> 0, s, snd (c u q)), k))"
    using rd(1) unfolding q_def
    by (subst read_loop.simps) (simp add: Let_def len_legacy [OF assms(2)] cong: if_cong)
qed

lemma read_loop_feeds:
  assumes "consumer st c" and "buf_wf (read_buffer s)"
  shows "\<exists>b. read_loop ev st s u k =
      Some (Done (fst (feed c (ev_active ev (read_watcher s)) u (contents (read_buffer s))), s\<lparr>read_buffer := b\<rparr>,
        snd (snd (feed c (ev_active ev (read_watcher s)) u (contents (read_buffer s))))), k) \<and>
    buf_wf b \<and> b_size b = b_size (read_buffer s) \<and>
    contents b = fst (snd (feed c (ev_active ev (read_watcher s)) u (contents (read_buffer s)))) \<and>
    (contents b = [] \<longrightarrow> b = read_buffer s \<or> b_base b = 0)"
  using assms(2)
proof (induction "length (contents (read_buffer s))" arbitrary: s u rule: less_induct)
  case less
  let ?b = "read_buffer s" and ?q = "contents (read_buffer s)" and ?a = "ev_active ev (read_watcher s)"
  note unfold = read_loop_turn(1) [OF assms(1) less.prems, of ev u k]
    and bound = read_loop_turn(2) [OF assms(1) less.prems, of u]
  show ?case
  proof (cases "?q \<noteq> [] \<and> fst (c u ?q) > 0")
    case False
    then consider "?q = []" | "?q \<noteq> []" "fst (c u ?q) \<le> 0" by linarith
    then show ?thesis
      by cases (use less.prems in \<open>auto simp: unfold feed_turn intro!: exI [of _ ?b]\<close>)
  next
    case True
    obtain v b' where b': "sancus_buffer_skip ?b (word_of_int (fst (c u ?q))) = Inr (v, b')" "buf_wf b'"
        "b_size b' = b_size ?b" "contents b' = drop (nat (fst (c u ?q))) ?q" "contents b' = [] \<Longrightarrow> b_base b' = 0"
      using skip_count [OF less.prems, of "fst (c u ?q)"] True bound by blast
    have step: "read_loop ev st s u k =
        (if \<not> ?a then Some (Done (False, s\<lparr>read_buffer := b'\<rparr>, snd (c u ?q)), k)
         else read_loop ev st (s\<lparr>read_buffer := b'\<rparr>) (snd (c u ?q)) k)"
      using True by (simp add: unfold b'(1))
    show ?thesis
    proof (cases ?a)
      case active: False
      then show ?thesis using True b'(2-) by (auto simp: step feed_turn(3) intro!: exI [of _ b'])
    next
      case active: True
      let ?s = "s\<lparr>read_buffer := b'\<rparr>"
      have "length (contents (read_buffer ?s)) < length ?q" using True b'(4) by simp
      from less.hyps [OF this, of "snd (c u ?q)"] b'(2) active obtain b where
        "read_loop ev st ?s (snd (c u ?q)) k = Some (Done (fst (feed c True (snd (c u ?q)) (contents b')), s\<lparr>read_buffer := b\<rparr>,
          snd (snd (feed c True (snd (c u ?q)) (contents b')))), k)" "buf_wf b" "b_size b = b_size b'"
        "contents b = fst (snd (feed c True (snd (c u ?q)) (contents b')))" "contents b = [] \<longrightarrow> b = b' \<or> b_base b = 0"
        by auto
      with active True b'(3-) show ?thesis by (intro exI [of _ b]) (auto simp: step feed_turn(4))
    qed
  qed
qed

text \<open>One turn of the loop outside an event: \<open>sancus_stream_process\<close>.\<close>

lemma process_feeds:
  assumes "consumer st c" and "buf_wf (read_buffer s)" and "contents (read_buffer s) \<noteq> []"
  shows "\<exists>b. sancus_stream_process st s u k =
      (Done (fst (c u (contents (read_buffer s))), s\<lparr>read_buffer := b\<rparr>, snd (c u (contents (read_buffer s)))), k) \<and>
    buf_wf b \<and> contents b = fst (snd (feed c False u (contents (read_buffer s))))"
proof -
  let ?q = "contents (read_buffer s)"
  have rd: "on_read st (sancus_buffer_data (read_buffer s)) (length ?q) s u k = (Done (fst (c u ?q), s, snd (c u ?q)), k)"
    "fst (c u ?q) \<le> LONG_MAX"
    using assms(1,2) unfolding consumer_def by blast+
  show ?thesis
  proof (cases "fst (c u ?q) > 0")
    case True
    obtain v b where "sancus_buffer_skip (read_buffer s) (word_of_int (fst (c u ?q))) = Inr (v, b)" "buf_wf b"
        "contents b = drop (nat (fst (c u ?q))) ?q"
      using skip_count [OF assms(2) True rd(2)] by blast
    with True assms(3) rd(1) show ?thesis
      by (auto simp: sancus_stream_process_def Let_def len_legacy [OF assms(2)] sbind_def feed_turn(3) intro!: exI [of _ b])
  next
    case False
    with assms(2,3) rd(1) show ?thesis
      by (auto simp: sancus_stream_process_def Let_def len_legacy [OF assms(2)] sbind_def feed_turn(2)
          intro!: exI [of _ "read_buffer s"])
  qed
qed

text \<open>One read event, as the theorem below states it, and that an emptied buffer starts at its front.\<close>

lemma read_event:
  assumes "consumer st c" and "buf_wf (read_buffer s)" and "0 < room (read_buffer s)" and "room (read_buffer s) < 2 ^ 32"
    and "revents AND EV_ERROR ev = 0" and "revents AND EV_READ ev \<noteq> 0" and "x \<noteq> []"
  defines "q \<equiv> contents (read_buffer s) @ take (room (read_buffer s)) x"
  shows "\<exists>b k'. buf_wf b \<and> b_size b = b_size (read_buffer s) \<and>
    contents b = fst (snd (feed c (ev_active ev (read_watcher s)) u q)) \<and>
    read_cb ev st loop revents s u (replicate n (Err EINTR) @ Ret m x # t, tr) =
      (if fst (feed c (ev_active ev (read_watcher s)) u q)
       then Some (close_stream ev st loop (s\<lparr>read_buffer := b\<rparr>) (snd (snd (feed c (ev_active ev (read_watcher s)) u q))) k')
       else Some (Done (s\<lparr>read_buffer := b\<rparr>, snd (snd (feed c (ev_active ev (read_watcher s)) u q))), k')) \<and>
    fst k' = t \<and> (contents b = [] \<longrightarrow> b_base b = 0)"
proof -
  have "unat (sancus_buffer_available (read_buffer s)) \<noteq> 0"
    using available_room [OF assms(2)] assms(3) by simp
  then have avail: "sancus_buffer_available (read_buffer s) \<noteq> 0" by auto
  obtain b1 k1 where b1: "sancus_buffer_read (read_buffer s) (ev_fd (read_watcher s)) (replicate n (Err EINTR) @ Ret m x # t, tr) =
      (Done (int (length (take (room (read_buffer s)) x)), b1), (t, k1))" "buf_wf b1" "contents b1 = q"
      "b_size b1 = b_size (read_buffer s)"
    using read_spec [OF assms(2,4)] unfolding q_def by blast
  have pos: "0 < int (length (take (room (read_buffer s)) x))" using assms(3,7) by simp
  obtain b where b: "read_loop ev st (s\<lparr>read_buffer := b1\<rparr>) u (t, k1) =
      Some (Done (fst (feed c (ev_active ev (read_watcher s)) u q), s\<lparr>read_buffer := b\<rparr>,
        snd (snd (feed c (ev_active ev (read_watcher s)) u q))), (t, k1))"
      "buf_wf b" "b_size b = b_size b1" "contents b = fst (snd (feed c (ev_active ev (read_watcher s)) u q))"
      "contents b = [] \<longrightarrow> b = b1 \<or> b_base b = 0"
    using read_loop_feeds [OF assms(1), of "s\<lparr>read_buffer := b1\<rparr>" ev u "(t, k1)"] b1(2,3) by auto
  have "try_read ev st s u (replicate n (Err EINTR) @ Ret m x # t, tr) =
      read_loop ev st (s\<lparr>read_buffer := b1\<rparr>) u (t, k1)"
    using pos by (subst try_read.simps) (simp add: b1(1))
  then have "read_cb ev st loop revents s u (replicate n (Err EINTR) @ Ret m x # t, tr) =
      (if fst (feed c (ev_active ev (read_watcher s)) u q)
       then Some (close_stream ev st loop (s\<lparr>read_buffer := b\<rparr>) (snd (snd (feed c (ev_active ev (read_watcher s)) u q))) (t, k1))
       else Some (Done (s\<lparr>read_buffer := b\<rparr>, snd (snd (feed c (ev_active ev (read_watcher s)) u q))), (t, k1)))"
    using assms(5,6) avail by (simp add: read_cb_def read_buffer_available.simps b(1))
  moreover have "q \<noteq> []" using pos by (simp add: q_def)
  ultimately show ?thesis using b b1(3,4) by (intro exI [of _ b] exI [of _ "(t, k1)"]) auto
qed

text \<open>
  C5. One read event of a stream: the bytes the kernel delivers, interrupted or not and never more than
  the buffer has room for, go behind those left over before, and the whole is offered to the application
  as a queue: the callback ends, what the application took is gone, the rest is kept in order for the
  next event, and when the application refuses the data the stream is stopped and closed.
\<close>

theorem stream_delivers:
  assumes "consumer st c" and "buf_wf (read_buffer s)" and "0 < room (read_buffer s)" and "room (read_buffer s) < 2 ^ 32"
    and "revents AND EV_ERROR ev = 0" and "revents AND EV_READ ev \<noteq> 0" and "x \<noteq> []"
  defines "q \<equiv> contents (read_buffer s) @ take (room (read_buffer s)) x"
  shows "\<exists>b k'. buf_wf b \<and> b_size b = b_size (read_buffer s) \<and>
    contents b = fst (snd (feed c (ev_active ev (read_watcher s)) u q)) \<and>
    read_cb ev st loop revents s u (replicate n (Err EINTR) @ Ret m x # t, tr) =
      (if fst (feed c (ev_active ev (read_watcher s)) u q)
       then Some (close_stream ev st loop (s\<lparr>read_buffer := b\<rparr>) (snd (snd (feed c (ev_active ev (read_watcher s)) u q))) k')
       else Some (Done (s\<lparr>read_buffer := b\<rparr>, snd (snd (feed c (ev_active ev (read_watcher s)) u q))), k')) \<and>
    fst k' = t"
  using read_event [OF assms(1-7), of u loop n m t tr] unfolding q_def by blast

text \<open>A reader that takes one byte at a time and counts them.\<close>

definition counting :: "('w, nat) sancus_stream_settings" where
  "counting = \<lparr>on_error = \<lambda>e s u. sret (True, s, u), on_close = \<lambda>s u. sret (s, u), on_read = \<lambda>p n s u. sret (1, s, Suc u)\<rparr>"

lemma counting_consumer: "consumer counting (\<lambda>u q. (1, Suc u))"
  by (simp add: consumer_def counting_def)

theorem stream_delivers_witness:
  "\<exists>b k. read_cb (sancus_ev\<lparr>EV_READ := 1, EV_ERROR := 4\<rparr>) counting \<lparr>ev_loop_now = TIMESPEC_INIT 0 0\<rparr> 1
      \<lparr>read_watcher = \<lparr>ev_fd = 3, ev_cb = Read_cb\<rparr>,
       read_buffer = \<lparr>b_buf = [7, 0, 0, 0], b_base = 0, b_len = 1, b_size = 4\<rparr>\<rparr> 0 ([Err EINTR, Ret 2 [8, 9]], []) =
    Some (Done (\<lparr>read_watcher = \<lparr>ev_fd = 3, ev_cb = Read_cb\<rparr>, read_buffer = b\<rparr>, 1), k) \<and>
   contents b = [8, 9]"
proof -
  let ?b = "\<lparr>b_buf = [7, 0, 0, 0], b_base = 0, b_len = 1, b_size = 4\<rparr>"
  let ?s = "\<lparr>read_watcher = \<lparr>ev_fd = 3, ev_cb = Read_cb\<rparr>, read_buffer = ?b\<rparr>"
  let ?ev = "sancus_ev\<lparr>EV_READ := 1, EV_ERROR := 4\<rparr>"
  have f: "buf_wf ?b" "room ?b = 3" "contents ?b = [7]" by (simp_all add: buf_wf_def room_def contents_def)
  have a: "\<not> ev_active ?ev (read_watcher ?s)" by (simp add: sancus_ev_def sancus_ev_is_active_def)
  have d: "feed (\<lambda>u q. (1, Suc u)) False 0 [7, 8, 9] = (False, [8, 9], 1)" by (simp add: feed_turn(3))
  from stream_delivers [OF counting_consumer, of ?s 1 ?ev "[8, 9]" 0 "\<lparr>ev_loop_now = TIMESPEC_INIT 0 0\<rparr>" 1 2 "[]" "[]"] f a d
  show ?thesis by auto
qed

subsection \<open>Closing\<close>

text \<open>The label \<open>close_stream\<close>: the watcher is stopped, the descriptor closed, and then \<open>on_close\<close> is called.\<close>

lemma close_stream_run:
  assumes "event_loop ev" and "0 \<le> sancus_stream_fd s" and "a \<noteq> Err EINTR"
  shows "close_stream ev st loop s u (replicate n (Err EINTR) @ a # t, tr) =
    on_close st (s\<lparr>read_watcher := (event_loop.halt ev loop (read_watcher s))\<lparr>ev_fd := -1\<rparr>\<rparr>) u
      (t, tr @ closing (sancus_stream_fd s) n a)"
proof -
  let ?w = "event_loop.halt ev loop (read_watcher s)"
  have w: "sancus_stream_stop ev loop s = s\<lparr>read_watcher := ?w\<rparr>"
    by (simp add: sancus_stream_stop_def event_loop.halt_def [OF assms(1)])
  have "ev_fd ?w = sancus_stream_fd s" "\<not> ev_active ev ?w"
    using event_loop.halt_fd [OF assms(1)] event_loop.halt_inactive [OF assms(1)] by (simp_all add: sancus_stream_fd_def)
  then show ?thesis
    using assms(2) by (simp add: close_stream_def sancus_stream_close_def w close_watcher_close sbind_def close_closing [OF assms(3)])
qed



subsection \<open>A full buffer and the flags of the header\<close>

lemma full_spins:
  assumes "sancus_buffer_available (read_buffer s) = 0"
    and "\<And>k. on_error st SANCUS_STREAM_READ_FULL s u k = (Done (False, s, u), k)"
  shows "read_buffer_available st s u k = None"
proof (rule ccontr)
  assume "read_buffer_available st s u k \<noteq> None"
  then obtain r where r: "read_buffer_available st s u k = Some r" by blast
  have "(st, s, u) \<noteq> (st, s, u)"
    by (rule read_buffer_available.raw_induct [of "\<lambda>st' s' u' k' r. (st', s', u') \<noteq> (st, s, u)", OF _ r])
      (use assms in \<open>auto, blast\<close>)
  then show False by simp
qed

text \<open>
  A stream whose buffer is full asks the application. When the application answers that it can go on
  but has freed nothing, the callback never returns; when it answers that it cannot, the stream is closed.
\<close>

theorem stream_full_buffer:
  assumes "sancus_buffer_available (read_buffer s) = 0" and "revents AND EV_ERROR ev = 0" and "revents AND EV_READ ev \<noteq> 0"
    and "\<And>k. on_error st SANCUS_STREAM_READ_FULL s u k = (Done (fail, s, u), k)"
  shows "read_cb ev st loop revents s u k = (if fail then Some (close_stream ev st loop s u k) else None)"
proof (cases fail)
  case True
  then have "read_buffer_available st s u k = Some (Done (True, s, u), k)"
    using assms(1,4) by (subst read_buffer_available.simps) simp
  with True assms(2,3) show ?thesis by (simp add: read_cb_def)
next
  case False
  then have "read_buffer_available st s u k = None" using assms(1,4) by (intro full_spins) simp_all
  with False assms(2,3) show ?thesis by (simp add: read_cb_def)
qed

theorem stream_full_buffer_witness:
  "read_cb (sancus_ev\<lparr>EV_READ := 1, EV_ERROR := 4\<rparr>) (counting\<lparr>on_error := \<lambda>e s u. sret (False, s, u)\<rparr>)
     \<lparr>ev_loop_now = TIMESPEC_INIT 0 0\<rparr> 1
     \<lparr>read_watcher = \<lparr>ev_fd = 3, ev_cb = Read_cb\<rparr>, read_buffer = \<lparr>b_buf = [7], b_base = 0, b_len = 1, b_size = 1\<rparr>\<rparr> 0 ([], []) = None"
  using stream_full_buffer [of "\<lparr>read_watcher = \<lparr>ev_fd = 3, ev_cb = Read_cb\<rparr>, read_buffer = \<lparr>b_buf = [7], b_base = 0, b_len = 1, b_size = 1\<rparr>\<rparr>"
      1 "sancus_ev\<lparr>EV_READ := 1, EV_ERROR := 4\<rparr>" "counting\<lparr>on_error := \<lambda>e s u. sret (False, s, u)\<rparr>" 0 False]
  by (simp add: sancus_buffer_available_def)

text \<open>
  With the flags of the header, where the read flag is zero, no set of events has it: the callback
  fails its assertion on the error flag and otherwise does nothing; it never reads.
\<close>

theorem stream_never_reads:
  "read_cb sancus_ev st loop revents s u k =
     (if bit revents 1 then Some (Fault Assert_Fail, k) else Some (Done (s, u), k))"
proof -
  have "revents AND 2 \<noteq> 0 \<longleftrightarrow> bit revents 1"
    using bit_iff_and_push_bit_not_eq_0 [of revents 1] by simp
  then show ?thesis
    by (simp add: read_cb_def sancus_ev_def SANCUS_EV_READ_def SANCUS_EV_ERROR_def)
qed

end
