(* ===== verification/Sockaddr.thy ===== *)
theory Sockaddr
  imports Ev
begin

text \<open>
  Socket addresses as the structures of Linux lay them out, and what the components that open a socket
  (TCP connections and servers, netlink receivers) share: the contract of an operation that opens an
  endpoint. \<open>inet_pton\<close> belongs to the C library and is an argument of the operations that call it: from
  the family and a string it gives its result and, with the result 1, the bytes it stores.
\<close>

abbreviation (input) AF_LOCAL :: int where "AF_LOCAL \<equiv> 1"
abbreviation (input) AF_INET :: int where "AF_INET \<equiv> 2"
abbreviation (input) AF_INET6 :: int where "AF_INET6 \<equiv> 10"
abbreviation (input) AF_NETLINK :: int where "AF_NETLINK \<equiv> 16"
abbreviation (input) SOCK_STREAM :: int where "SOCK_STREAM \<equiv> 1"
abbreviation (input) SOCK_RAW :: int where "SOCK_RAW \<equiv> 3"

type_synonym pton = "int \<Rightarrow> byte list \<Rightarrow> int \<times> byte list"

definition le16 :: "u16 \<Rightarrow> byte list" where
  "le16 w = [ucast w, ucast (drop_bit 8 w)]"

definition htons :: "u16 \<Rightarrow> u16" where
  "htons w = push_bit 8 w OR drop_bit 8 w"

record sockaddr_in =
  sin_family :: u16
  sin_port :: u16
  sin_addr :: "byte list"

record sockaddr_in6 =
  sin6_family :: u16
  sin6_port :: u16
  sin6_addr :: "byte list"

record sockaddr_un =
  sun_family :: u16
  sun_path :: "byte list"

text \<open>The bytes of the structures; the fields the sources leave out are zero.\<close>

definition in_bytes :: "sockaddr_in \<Rightarrow> byte list" where
  "in_bytes sa = le16 (sin_family sa) @ le16 (sin_port sa) @ sin_addr sa @ replicate 8 0"

definition in6_bytes :: "sockaddr_in6 \<Rightarrow> byte list" where
  "in6_bytes sa = le16 (sin6_family sa) @ le16 (sin6_port sa) @ replicate 4 0 @ sin6_addr sa @ replicate 4 0"

definition un_bytes :: "sockaddr_un \<Rightarrow> byte list" where
  "un_bytes sa = le16 (sun_family sa) @ sun_path sa"

definition sa_family :: "byte list \<Rightarrow> int" where
  "sa_family sa = int (unat (sa ! 0) + 256 * unat (sa ! 1))"

lemma le16_bytes: "unat (le16 w ! 0) + 256 * unat (le16 w ! 1) = unat w"
proof -
  have "unat w < 65536" using unat_bound [of w] by simp
  then have "unat w div 256 < 256" by simp
  then show ?thesis
    by (simp add: le16_def unsigned_ucast_eq unsigned_drop_bit_eq take_bit_eq_mod drop_bit_eq_div unat_div)
qed

lemma sa_family_bytes:
  "sa_family (le16 w @ r) = int (unat w)"
  using le16_bytes [of w] by (simp add: sa_family_def le16_def)

lemma htons_bytes: "le16 (htons w) = [ucast (drop_bit 8 w), ucast w]"
  by (auto simp: le16_def htons_def bit_eq_iff bit_simps)

subsection \<open>Operations that open an endpoint\<close>

text \<open>
  The contract of an operation that opens a socket for a structure: the result 1 means that the watcher
  has the one descriptor that is open, anything else that none is left open; and nothing was given to
  \<open>close\<close> but what the operation opened.
\<close>

definition endpoint_left :: "int \<Rightarrow> int \<Rightarrow> kernel \<Rightarrow> bool" where
  "endpoint_left r fd k \<longleftrightarrow>
     set (cls k) \<subseteq> set (opn k) \<and> (if r = 1 then 0 \<le> fd \<and> held k = [fd] else held k = [])"

lemma endpoint_left_owned:
  "0 \<le> fd \<Longrightarrow> owned fd k \<Longrightarrow> endpoint_left 1 fd k" "r \<noteq> 1 \<Longrightarrow> owned (-1) k \<Longrightarrow> endpoint_left r fd k"
  by (simp_all add: endpoint_left_def owned_def)

locale endpoint =
  fixes op :: "(int \<times> 's) sys" and fd_of :: "'s \<Rightarrow> int"
  assumes opens: "owned (-1) k \<Longrightarrow> post op (\<lambda>(r, s). \<lambda>l. kernel_ok l \<and> endpoint_left r (fd_of s) l) k"
begin

text \<open>Closing what was opened leaves nothing.\<close>

lemma open_close:
  assumes "owned (-1) k"
  shows "post (sbind op (\<lambda>(r, s). if r = 1 then sancus_close (fd_of s) else sret 0)) (\<lambda>_. owned (-1)) k"
  unfolding post_sbind
proof (rule post_mono [OF opens [OF assms]])
  fix x l
  assume "(case x of (r, s) \<Rightarrow> \<lambda>l. kernel_ok l \<and> endpoint_left r (fd_of s) l) l"
  then show "post (case x of (r, s) \<Rightarrow> if r = 1 then sancus_close (fd_of s) else sret 0) (\<lambda>_. owned (-1)) l"
    by (cases x) (auto simp: endpoint_left_def owned_def split: if_splits intro!: post_close_owned)
qed

text \<open>A result from the start of a run.\<close>

lemma opened_run:
  assumes "list_all errno_ok s" and "op (s, []) = (Done (r, x), k')"
  shows "endpoint_left r (fd_of x) k'"
  using post_Done [OF opens [OF owned_start [OF assms(1)]] assms(2)] by simp

end

text \<open>An error path after the socket exists: it is closed and the result is \<open>-1\<close>.\<close>

lemma post_close_watcher_owned:
  assumes "owned fd k" "0 \<le> fd" "ev_fd w = fd" and "\<And>l. owned (-1) l \<Longrightarrow> Q (w\<lparr>ev_fd := -1\<rparr>) l"
  shows "post (close_watcher w) Q k"
  unfolding close_watcher_close post_sbind assms(3) by (rule post_close_owned [OF assms(1,2)]) (simp add: assms(4))

text \<open>The common beginning: a non-blocking socket, or the end.\<close>

lemma post_endpoint:
  assumes "owned (-1) k"
    and "\<And>fd l. 0 \<le> fd \<Longrightarrow> owned fd l \<Longrightarrow> post (f fd) Q l"
    and "\<And>fd l. fd < 0 \<Longrightarrow> owned (-1) l \<Longrightarrow> post (f fd) Q l"
  shows "post (sbind (sancus_socket family type protocol c True) f) Q k"
  unfolding post_sbind
proof (rule post_mono [OF socket_owned [OF assms(1)]])
  fix fd l
  assume "socket_left (c \<or> True) fd l"
  then show "post (f fd) Q l"
    using assms(2) [of fd l] assms(3) [of fd l] by (cases "0 \<le> fd") (auto simp: socket_left_def)
qed

text \<open>An address is set up first; without one no socket is opened.\<close>

lemma endpoint_lift:
  assumes "\<And>x. m = Inr x \<Longrightarrow> endpoint (f x) fd_of"
  shows "endpoint (sbind (slift m) f) fd_of"
  using assms by (cases m) (auto simp: endpoint_def post_def sbind_def)

lemma endpoint_ret: "r \<noteq> 1 \<Longrightarrow> endpoint (sret (r, c)) fd_of"
  by (auto simp: endpoint_def intro!: endpoint_left_owned(2)) (simp add: owned_def)

end
