(* ===== verification/Tcp_Conn.thy ===== *)
theory Tcp_Conn
  imports Sockaddr
begin

text \<open>
  The TCP and local client connection of \<^verbatim>\<open>include/sancus/tcp_conn.h\<close> and \<^verbatim>\<open>src/sancus/tcp_conn.c\<close>: opening
  a non-blocking socket, the state machine driven by the events of the loop, and the callbacks of the
  application. The callbacks are an argument; they get the connection and the application's state, may
  change both and may call the kernel. The error callback is also given the \<open>errno\<close> this code has just
  set, when it has. The pointer to the settings is passed along instead of being stored.
\<close>

subsection \<open>Connections\<close>

datatype sancus_tcp_conn_error = SANCUS_TCP_CONN_WATCHER_ERROR | SANCUS_TCP_CONN_CONNECT_ERROR

datatype sancus_tcp_conn_state =
  SANCUS_TCP_CONN_INPROGRESS | SANCUS_TCP_CONN_CONNECTED | SANCUS_TCP_CONN_RUNNING | SANCUS_TCP_CONN_FAILED

record 'w sancus_tcp_conn =
  io :: "'w sancus_ev_fd_scheme"
  state :: sancus_tcp_conn_state
  last_activity :: timespec

record ('w, 'u) sancus_tcp_conn_settings =
  conn_on_read :: "'w sancus_tcp_conn \<Rightarrow> 'u \<Rightarrow> ('w sancus_tcp_conn \<times> 'u) sys"
  conn_on_connect :: "'w sancus_tcp_conn \<Rightarrow> 'u \<Rightarrow> ('w sancus_tcp_conn \<times> 'u) sys"
  conn_on_error :: "sancus_tcp_conn_error \<Rightarrow> int option \<Rightarrow> 'w sancus_tcp_conn \<Rightarrow> 'u \<Rightarrow> ('w sancus_tcp_conn \<times> 'u) sys"

definition sancus_tcp_conn_fd :: "'w sancus_tcp_conn \<Rightarrow> int" where
  "sancus_tcp_conn_fd c = ev_fd (io c)"

definition sancus_tcp_conn_touch :: "'w sancus_tcp_conn \<Rightarrow> sancus_ev_loop \<Rightarrow> 'w sancus_tcp_conn" where
  "sancus_tcp_conn_touch c loop = c\<lparr>last_activity := sancus_ev_now loop\<rparr>"

text \<open>The macro takes the addresses of its operands; its first argument is the one \<open>sancus_time_elapsed\<close> takes for now.\<close>

definition sancus_tcp_conn_elapsed :: "'w sancus_tcp_conn \<Rightarrow> sancus_ev_loop \<Rightarrow> timespec exec" where
  "sancus_tcp_conn_elapsed c loop = sancus_time_elapsed (last_activity c) (sancus_ev_now loop)"

subsection \<open>The event callback\<close>

text \<open>The label \<open>connect_done\<close>, to the end of its case.\<close>

definition connect_done ::
  "'w ev_api \<Rightarrow> ('w, 'u) sancus_tcp_conn_settings \<Rightarrow> sancus_ev_loop \<Rightarrow> 'w sancus_tcp_conn \<Rightarrow> 'u \<Rightarrow>
   ('w sancus_tcp_conn \<times> 'u) sys" where
  "connect_done ev st loop c u =
     (let fd = ev_fd (io c);
          w = snd (ev_stop ev loop (io c));
          w = snd (ev_init ev w Io_cb fd (EV_READ ev));
          w = snd (ev_start ev loop w)
      in sbind (conn_on_connect st (c\<lparr>io := w\<rparr>) u) (\<lambda>(c, u).
           sret (sancus_tcp_conn_touch (c\<lparr>state := SANCUS_TCP_CONN_RUNNING\<rparr>) loop, u)))"

text \<open>The connection failed, with the \<open>errno\<close> of the call or of the socket.\<close>

definition connect_failed ::
  "('w, 'u) sancus_tcp_conn_settings \<Rightarrow> int \<Rightarrow> 'w sancus_tcp_conn \<Rightarrow> 'u \<Rightarrow> ('w sancus_tcp_conn \<times> 'u) sys" where
  "connect_failed st e c u =
     conn_on_error st SANCUS_TCP_CONN_CONNECT_ERROR (Some e) (c\<lparr>state := SANCUS_TCP_CONN_FAILED\<rparr>) u"

definition io_cb ::
  "'w ev_api \<Rightarrow> ('w, 'u) sancus_tcp_conn_settings \<Rightarrow> sancus_ev_loop \<Rightarrow> u32 \<Rightarrow> 'w sancus_tcp_conn \<Rightarrow> 'u \<Rightarrow>
   ('w sancus_tcp_conn \<times> 'u) sys" where
  "io_cb ev st loop revents c u =
     (if revents AND EV_ERROR ev \<noteq> 0 then conn_on_error st SANCUS_TCP_CONN_WATCHER_ERROR None c u
      else case state c of
        SANCUS_TCP_CONN_INPROGRESS \<Rightarrow>
          if revents AND EV_WRITE ev = 0 then sfault Assert_Fail
          else if revents AND EV_READ ev \<noteq> 0 then
            sbind (syscall (Getsockopt_error (sancus_tcp_conn_fd c))) (\<lambda>a.
              case a of
                Err e \<Rightarrow> connect_failed st e c u
              | Ret e _ \<Rightarrow> if e = 0 then connect_done ev st loop c u else connect_failed st (int e) c u)
          else connect_done ev st loop c u
      | SANCUS_TCP_CONN_CONNECTED \<Rightarrow>
          if revents AND EV_WRITE ev = 0 then sfault Assert_Fail else connect_done ev st loop c u
      | SANCUS_TCP_CONN_RUNNING \<Rightarrow>
          if revents AND EV_READ ev \<noteq> 0 then
            sbind (conn_on_read st c u) (\<lambda>(c, u). sret (sancus_tcp_conn_touch c loop, u))
          else sret (c, u)
      | SANCUS_TCP_CONN_FAILED \<Rightarrow> sfault Assert_Fail)"

subsection \<open>Opening\<close>

definition init_ipv4_conn :: "pton \<Rightarrow> sockaddr_in \<Rightarrow> byte list option \<Rightarrow> u16 \<Rightarrow> (int \<times> sockaddr_in) exec" where
  "init_ipv4_conn inet_pton sin addr port =
     (let sin = sin\<lparr>sin_port := htons port\<rparr> in
      case addr of
        None \<Rightarrow> Inl Null_Deref
      | Some a \<Rightarrow> (case inet_pton (int (unat (sin_family sin))) a of
            (r, x) \<Rightarrow> Inr (r, if r = 1 then sin\<lparr>sin_addr := x\<rparr> else sin)))"

definition init_ipv6_conn :: "pton \<Rightarrow> sockaddr_in6 \<Rightarrow> byte list option \<Rightarrow> u16 \<Rightarrow> (int \<times> sockaddr_in6) exec" where
  "init_ipv6_conn inet_pton sin6 addr port =
     (let sin6 = sin6\<lparr>sin6_port := htons port\<rparr> in
      case addr of
        None \<Rightarrow> Inl Null_Deref
      | Some a \<Rightarrow> (case inet_pton (int (unat (sin6_family sin6))) a of
            (r, x) \<Rightarrow> Inr (r, if r = 1 then sin6\<lparr>sin6_addr := x\<rparr> else sin6)))"

definition init_local_conn :: "sockaddr_un \<Rightarrow> byte list option \<Rightarrow> (int \<times> sockaddr_un) exec" where
  "init_local_conn sun path =
     (let store = (\<lambda>blk l.
        ebind (mem_get 0 (l + 1) blk) (\<lambda>x.
        ebind (mem_put 0 x (sun_path sun)) (\<lambda>m. Inr (1, sun\<lparr>sun_path := m\<rparr>)))) in
      case path of
        None \<Rightarrow> store [0] 0
      | Some p \<Rightarrow> ebind (strlen p) (\<lambda>l. if l > 108 - 1 then Inr (0, sun) else store p l))"

definition init_tcp_conn ::
  "'w ev_api \<Rightarrow> 'w sancus_tcp_conn \<Rightarrow> byte list \<Rightarrow> bool \<Rightarrow> (int \<times> 'w sancus_tcp_conn) sys" where
  "init_tcp_conn ev c sa cloexec =
     sbind (sancus_socket (sa_family sa) SOCK_STREAM 0 cloexec True) (\<lambda>fd.
       if fd < 0 then sret (-1, c)
       else
         let c = c\<lparr>io := snd (ev_init ev (io c) Io_cb fd (EV_READ ev OR EV_WRITE ev))\<rparr> in
         sbind (syscall (Connect fd sa)) (\<lambda>a.
           case a of
             Err e \<Rightarrow>
               if e = EINPROGRESS then sret (1, c\<lparr>state := SANCUS_TCP_CONN_INPROGRESS\<rparr>)
               else sbind (close_watcher (io c)) (\<lambda>w. sret (-1, c\<lparr>io := w\<rparr>))
           | Ret _ _ \<Rightarrow> sret (1, c\<lparr>state := SANCUS_TCP_CONN_CONNECTED\<rparr>)))"

definition sancus_tcp_ipv4_connect ::
  "'w ev_api \<Rightarrow> pton \<Rightarrow> 'w sancus_tcp_conn \<Rightarrow> byte list option \<Rightarrow> u16 \<Rightarrow> bool \<Rightarrow> (int \<times> 'w sancus_tcp_conn) sys" where
  "sancus_tcp_ipv4_connect ev inet_pton c addr port cloexec =
     sbind (slift (init_ipv4_conn inet_pton \<lparr>sin_family = 2, sin_port = 0, sin_addr = replicate 4 0\<rparr> addr port)) (\<lambda>(e, sin).
       if e \<noteq> 1 then sret (e, c) else init_tcp_conn ev c (in_bytes sin) cloexec)"

definition sancus_tcp_ipv6_connect ::
  "'w ev_api \<Rightarrow> pton \<Rightarrow> 'w sancus_tcp_conn \<Rightarrow> byte list option \<Rightarrow> u16 \<Rightarrow> bool \<Rightarrow> (int \<times> 'w sancus_tcp_conn) sys" where
  "sancus_tcp_ipv6_connect ev inet_pton c addr port cloexec =
     sbind (slift (init_ipv6_conn inet_pton \<lparr>sin6_family = 10, sin6_port = 0, sin6_addr = replicate 16 0\<rparr> addr port)) (\<lambda>(e, sin6).
       if e \<noteq> 1 then sret (e, c) else init_tcp_conn ev c (in6_bytes sin6) cloexec)"

definition sancus_tcp_local_connect ::
  "'w ev_api \<Rightarrow> 'w sancus_tcp_conn \<Rightarrow> byte list option \<Rightarrow> bool \<Rightarrow> (int \<times> 'w sancus_tcp_conn) sys" where
  "sancus_tcp_local_connect ev c path cloexec =
     sbind (slift (init_local_conn \<lparr>sun_family = 1, sun_path = replicate 108 0\<rparr> path)) (\<lambda>(e, sun).
       if e \<noteq> 1 then sret (e, c) else init_tcp_conn ev c (un_bytes sun) cloexec)"

subsection \<open>Starting, stopping and closing\<close>

definition sancus_tcp_conn_start :: "'w ev_api \<Rightarrow> sancus_ev_loop \<Rightarrow> 'w sancus_tcp_conn \<Rightarrow> 'w sancus_tcp_conn" where
  "sancus_tcp_conn_start ev loop c =
     (if \<not> ev_active ev (io c) then
        let c = c\<lparr>io := snd (ev_start ev loop (io c))\<rparr> in
        if sancus_time_is_zero (last_activity c) then sancus_tcp_conn_touch c loop else c
      else c)"

definition sancus_tcp_conn_stop :: "'w ev_api \<Rightarrow> sancus_ev_loop \<Rightarrow> 'w sancus_tcp_conn \<Rightarrow> 'w sancus_tcp_conn" where
  "sancus_tcp_conn_stop ev loop c =
     (if ev_active ev (io c) then c\<lparr>io := snd (ev_stop ev loop (io c))\<rparr> else c)"

definition sancus_tcp_conn_close :: "'w ev_api \<Rightarrow> 'w sancus_tcp_conn \<Rightarrow> 'w sancus_tcp_conn sys" where
  "sancus_tcp_conn_close ev c =
     (if \<not> ev_fd (io c) \<ge> 0 \<or> ev_active ev (io c) then sfault Assert_Fail
      else sbind (close_watcher (io c)) (\<lambda>w. sret (c\<lparr>io := w\<rparr>)))"

subsection \<open>Connections own their descriptor\<close>

lemma conn_endpoint:
  assumes "event_loop ev"
  shows "endpoint (init_tcp_conn ev c sa cloexec) sancus_tcp_conn_fd"
proof
  fix k
  assume k: "owned (-1) k"
  show "post (init_tcp_conn ev c sa cloexec) (\<lambda>(r, c). \<lambda>l. kernel_ok l \<and> endpoint_left r (sancus_tcp_conn_fd c) l) k"
    unfolding init_tcp_conn_def
  proof (rule post_endpoint [OF k])
    fix fd l
    let ?c = "c\<lparr>io := snd (ev_init ev (io c) Io_cb fd (EV_READ ev OR EV_WRITE ev))\<rparr>"
    assume fd: "0 \<le> fd" "owned fd l"
    have w: "ev_fd (io ?c) = fd" "sancus_tcp_conn_fd (?c\<lparr>state := q\<rparr>) = fd" for q
      by (simp_all add: sancus_tcp_conn_fd_def event_loop.init_fd [OF assms])
    have "post (syscall (Connect fd sa)) (\<lambda>a. post (case a of
          Err e \<Rightarrow>
            if e = EINPROGRESS then sret (1, ?c\<lparr>state := SANCUS_TCP_CONN_INPROGRESS\<rparr>)
            else sbind (close_watcher (io ?c)) (\<lambda>w. sret (-1, ?c\<lparr>io := w\<rparr>))
        | Ret _ _ \<Rightarrow> sret (1, ?c\<lparr>state := SANCUS_TCP_CONN_CONNECTED\<rparr>))
        (\<lambda>(r, c). \<lambda>l. kernel_ok l \<and> endpoint_left r (sancus_tcp_conn_fd c) l)) l"
    proof (rule post_owned [OF _ fd(2)])
      fix a l'
      assume l': "owned fd l'"
      show "post (case a of
          Err e \<Rightarrow>
            if e = EINPROGRESS then sret (1, ?c\<lparr>state := SANCUS_TCP_CONN_INPROGRESS\<rparr>)
            else sbind (close_watcher (io ?c)) (\<lambda>w. sret (-1, ?c\<lparr>io := w\<rparr>))
        | Ret _ _ \<Rightarrow> sret (1, ?c\<lparr>state := SANCUS_TCP_CONN_CONNECTED\<rparr>))
        (\<lambda>(r, c). \<lambda>l. kernel_ok l \<and> endpoint_left r (sancus_tcp_conn_fd c) l) l'"
        using l' fd(1) w
        by (auto split: answer.split simp: endpoint_left_owned owned_def [of fd l'] owned_def [of "-1"]
            intro!: post_close_watcher_owned [OF l' fd(1)])
    qed simp
    then show "post (if fd < 0 then sret (-1, c) else
        let c = ?c in
        sbind (syscall (Connect fd sa)) (\<lambda>a.
          case a of
            Err e \<Rightarrow>
              if e = EINPROGRESS then sret (1, c\<lparr>state := SANCUS_TCP_CONN_INPROGRESS\<rparr>)
              else sbind (close_watcher (io c)) (\<lambda>w. sret (-1, c\<lparr>io := w\<rparr>))
          | Ret _ _ \<Rightarrow> sret (1, c\<lparr>state := SANCUS_TCP_CONN_CONNECTED\<rparr>)))
        (\<lambda>(r, c). \<lambda>l. kernel_ok l \<and> endpoint_left r (sancus_tcp_conn_fd c) l) l"
      using fd(1) by (simp add: Let_def)
  qed (simp add: endpoint_left_owned owned_def)
qed

lemma connect_endpoints:
  assumes "event_loop ev"
  shows "endpoint (sancus_tcp_ipv4_connect ev p c addr port ce) sancus_tcp_conn_fd"
    and "endpoint (sancus_tcp_ipv6_connect ev p c addr port ce) sancus_tcp_conn_fd"
    and "endpoint (sancus_tcp_local_connect ev c path ce) sancus_tcp_conn_fd"
  unfolding sancus_tcp_ipv4_connect_def sancus_tcp_ipv6_connect_def sancus_tcp_local_connect_def
  by (rule endpoint_lift; auto split: prod.splits intro: endpoint_ret conn_endpoint [OF assms])+

interpretation cin: endpoint "sancus_tcp_ipv4_connect sancus_ev p c addr port ce" sancus_tcp_conn_fd for p c addr port ce
  by (rule connect_endpoints) (rule hdr.event_loop_axioms)

interpretation cin6: endpoint "sancus_tcp_ipv6_connect sancus_ev p c addr port ce" sancus_tcp_conn_fd for p c addr port ce
  by (rule connect_endpoints) (rule hdr.event_loop_axioms)

interpretation cun: endpoint "sancus_tcp_local_connect sancus_ev c path ce" sancus_tcp_conn_fd for c path ce
  by (rule connect_endpoints) (rule hdr.event_loop_axioms)

subsection \<open>The state machine\<close>

text \<open>What the application is told.\<close>

datatype conn_note = Note_watcher | Note_refused int | Note_connected | Note_data

text \<open>
  The abstract machine: its state, what an event reports (error, readable, writable), what the
  application is told and the next state.
\<close>

inductive conn_step ::
  "sancus_tcp_conn_state \<Rightarrow> bool \<times> bool \<times> bool \<Rightarrow> conn_note list \<Rightarrow> sancus_tcp_conn_state \<Rightarrow> bool" where
  watcher: "conn_step q (True, r, w) [Note_watcher] q"
| established: "q = SANCUS_TCP_CONN_INPROGRESS \<or> q = SANCUS_TCP_CONN_CONNECTED \<Longrightarrow>
    conn_step q (False, r, True) [Note_connected] SANCUS_TCP_CONN_RUNNING"
| refused: "conn_step SANCUS_TCP_CONN_INPROGRESS (False, True, True) [Note_refused e] SANCUS_TCP_CONN_FAILED"
| data: "conn_step SANCUS_TCP_CONN_RUNNING (False, True, w) [Note_data] SANCUS_TCP_CONN_RUNNING"
| idle: "conn_step SANCUS_TCP_CONN_RUNNING (False, False, w) [] SANCUS_TCP_CONN_RUNNING"

inductive_cases conn_step_failed: "conn_step SANCUS_TCP_CONN_FAILED e ns q"
inductive_cases conn_step_running: "conn_step SANCUS_TCP_CONN_RUNNING e ns q"

inductive conn_steps ::
  "sancus_tcp_conn_state \<Rightarrow> (bool \<times> bool \<times> bool) list \<Rightarrow> conn_note list \<Rightarrow> sancus_tcp_conn_state \<Rightarrow> bool" where
  no_step: "conn_steps q [] [] q"
| a_step: "conn_step q e ns q' \<Longrightarrow> conn_steps q' es ms q'' \<Longrightarrow> conn_steps q (e # es) (ns @ ms) q''"

text \<open>What the application has been told about the connection itself, apart from watcher errors.\<close>

definition told :: "conn_note list \<Rightarrow> conn_note list" where
  "told ns = List.filter (\<lambda>n. n \<noteq> Note_watcher) ns"

lemma told_simps [simp]:
  "told [] = []" "told (xs @ ys) = told xs @ told ys"
  "told (n # ns) = (if n = Note_watcher then told ns else n # told ns)"
  by (simp_all add: told_def)

lemma steps_failed: "conn_steps SANCUS_TCP_CONN_FAILED es ns q \<Longrightarrow> q = SANCUS_TCP_CONN_FAILED \<and> told ns = []"
  by (induction SANCUS_TCP_CONN_FAILED es ns q rule: conn_steps.induct) (auto elim: conn_step_failed)

lemma steps_running:
  "conn_steps SANCUS_TCP_CONN_RUNNING es ns q \<Longrightarrow> q = SANCUS_TCP_CONN_RUNNING \<and> (\<exists>n. told ns = replicate n Note_data)"
proof (induction SANCUS_TCP_CONN_RUNNING es ns q rule: conn_steps.induct)
  case no_step
  then show ?case by (auto intro: exI [of _ 0])
next
  case (a_step e ns q' es ms q'')
  then show ?case by (auto elim!: conn_step_running simp flip: replicate_Suc)
qed

text \<open>Whatever happens, the application is told that it is connected at most once, before any data, and of a refusal at most once, instead.\<close>

lemma steps_told:
  assumes "conn_steps q es ns q'" and "q = SANCUS_TCP_CONN_INPROGRESS \<or> q = SANCUS_TCP_CONN_CONNECTED"
  shows "(q' = q \<and> told ns = []) \<or> (q' = SANCUS_TCP_CONN_FAILED \<and> (\<exists>e. told ns = [Note_refused e])) \<or>
    (q' = SANCUS_TCP_CONN_RUNNING \<and> (\<exists>n. told ns = Note_connected # replicate n Note_data))"
  using assms
proof (induction rule: conn_steps.induct)
  case (a_step q e ns q' es ms q'')
  from a_step.hyps(1) show ?case
  proof cases
    case watcher
    with a_step show ?thesis by simp
  next
    case established
    with steps_running [of es ms q''] a_step.hyps(2) show ?thesis by auto
  next
    case refused
    with steps_failed [of es ms q''] a_step.hyps(2) show ?thesis by auto
  qed (use a_step.prems in auto)
qed simp

subsection \<open>The callback runs the machine\<close>

text \<open>What an application is told by a call of its error callback.\<close>

fun note_of :: "sancus_tcp_conn_error \<Rightarrow> int option \<Rightarrow> conn_note" where
  "note_of SANCUS_TCP_CONN_WATCHER_ERROR x = Note_watcher"
| "note_of SANCUS_TCP_CONN_CONNECT_ERROR x = Note_refused (case x of Some e \<Rightarrow> e | None \<Rightarrow> 0)"

text \<open>An application of which every call is noted, in front of what the application does.\<close>

definition noting :: "('w, 'u) sancus_tcp_conn_settings \<Rightarrow> ('w, 'u \<times> conn_note list) sancus_tcp_conn_settings" where
  "noting st =
     \<lparr>conn_on_read = \<lambda>c v. sbind (conn_on_read st c (fst v)) (\<lambda>(c, u). sret (c, u, snd v @ [Note_data])),
      conn_on_connect = \<lambda>c v. sbind (conn_on_connect st c (fst v)) (\<lambda>(c, u). sret (c, u, snd v @ [Note_connected])),
      conn_on_error = \<lambda>e x c v. sbind (conn_on_error st e x c (fst v)) (\<lambda>(c, u). sret (c, u, snd v @ [note_of e x]))\<rparr>"

text \<open>
  The application leaves the field \<open>state\<close> of its connections to the library; it may do anything else,
  closing the connection included.
\<close>

definition leaves_state :: "('w, 'u) sancus_tcp_conn_settings \<Rightarrow> bool" where
  "leaves_state st \<longleftrightarrow>
     (\<forall>c u k c' u' k'. conn_on_read st c u k = (Done (c', u'), k') \<longrightarrow> state c' = state c) \<and>
     (\<forall>e x c u k c' u' k'. conn_on_error st e x c u k = (Done (c', u'), k') \<longrightarrow> state c' = state c)"

lemma leaves_stateD:
  assumes "leaves_state st"
  shows "conn_on_read st c u k = (Done (c', u'), k') \<Longrightarrow> state c' = state c"
    and "conn_on_error st e x c u k = (Done (c', u'), k') \<Longrightarrow> state c' = state c"
  using assms unfolding leaves_state_def by blast+

definition reported :: "'w ev_api \<Rightarrow> u32 \<Rightarrow> bool \<times> bool \<times> bool" where
  "reported ev revents = (revents AND EV_ERROR ev \<noteq> 0, revents AND EV_READ ev \<noteq> 0, revents AND EV_WRITE ev \<noteq> 0)"

lemma noted_error:
  assumes "leaves_state st" "conn_on_error (noting st) e x c v k = (Done (c', v'), k')"
  shows "state c' = state c \<and> snd v' = snd v @ [note_of e x]"
  using assms(2) by (auto simp: noting_def sbind_Done dest: leaves_stateD(2) [OF assms(1)])

lemma noted_done:
  assumes "connect_done ev (noting st) loop c v k = (Done (c', v'), k')"
  shows "state c' = SANCUS_TCP_CONN_RUNNING \<and> snd v' = snd v @ [Note_connected]"
  using assms by (auto simp: connect_done_def Let_def noting_def sbind_Done sancus_tcp_conn_touch_def)

lemma noted_failed:
  assumes "leaves_state st" "connect_failed (noting st) e c v k = (Done (c', v'), k')"
  shows "state c' = SANCUS_TCP_CONN_FAILED \<and> snd v' = snd v @ [Note_refused e]"
  using noted_error [OF assms(1) assms(2) [unfolded connect_failed_def]] by simp

lemma noted_data:
  assumes "leaves_state st" "conn_on_read (noting st) c v k = (Done (c', v'), k')"
  shows "state c' = state c \<and> snd v' = snd v @ [Note_data]"
  using assms(2) by (auto simp: noting_def sbind_Done dest: leaves_stateD(1) [OF assms(1)])

text \<open>In progress and writable: either connected, or refused with the socket readable too.\<close>

lemma io_cb_inprogress:
  assumes "leaves_state st" and "state c = SANCUS_TCP_CONN_INPROGRESS" and "revents AND EV_ERROR ev = 0"
    and "io_cb ev (noting st) loop revents c v k = (Done (c', v'), k')"
  shows "revents AND EV_WRITE ev \<noteq> 0 \<and>
    (snd v' = snd v @ [Note_connected] \<and> state c' = SANCUS_TCP_CONN_RUNNING \<or>
     (\<exists>e. snd v' = snd v @ [Note_refused e] \<and> state c' = SANCUS_TCP_CONN_FAILED \<and> revents AND EV_READ ev \<noteq> 0))"
proof -
  have w: "revents AND EV_WRITE ev \<noteq> 0" using assms(2-4) by (auto simp: io_cb_def)
  show ?thesis
  proof (cases "revents AND EV_READ ev = 0")
    case True
    then have "connect_done ev (noting st) loop c v k = (Done (c', v'), k')" using w assms(2-4) by (simp add: io_cb_def)
    with w show ?thesis by (auto dest: noted_done)
  next
    case False
    with w assms(2-4) obtain a l where a: "(case a of Err e \<Rightarrow> connect_failed (noting st) e c v
        | Ret e _ \<Rightarrow> if e = 0 then connect_done ev (noting st) loop c v else connect_failed (noting st) (int e) c v) l = (Done (c', v'), k')"
      by (auto simp: io_cb_def sbind_Done)
    then show ?thesis using w False
      by (cases a) (auto dest: noted_done noted_failed [OF assms(1)] split: if_splits)
  qed
qed

lemma io_cb_step:
  assumes "leaves_state st" and "io_cb ev (noting st) loop revents c v k = (Done (c', v'), k')"
  shows "\<exists>ns. conn_step (state c) (reported ev revents) ns (state c') \<and> snd v' = snd v @ ns"
proof (cases "revents AND EV_ERROR ev = 0")
  case False
  then have "conn_on_error (noting st) SANCUS_TCP_CONN_WATCHER_ERROR None c v k = (Done (c', v'), k')"
    using assms(2) by (simp add: io_cb_def)
  from noted_error [OF assms(1) this] False show ?thesis
    by (intro exI [of _ "[Note_watcher]"]) (simp add: reported_def conn_step.watcher)
next
  case True
  show ?thesis
  proof (cases "state c")
    case SANCUS_TCP_CONN_INPROGRESS
    with io_cb_inprogress [OF assms(1) _ True assms(2)] True show ?thesis
      by (auto simp: reported_def intro: conn_step.intros)
  next
    case SANCUS_TCP_CONN_CONNECTED
    with assms(2) True have "revents AND EV_WRITE ev \<noteq> 0" "connect_done ev (noting st) loop c v k = (Done (c', v'), k')"
      by (auto simp: io_cb_def split: if_splits)
    with SANCUS_TCP_CONN_CONNECTED True show ?thesis
      by (auto simp: reported_def dest!: noted_done intro: conn_step.intros)
  next
    case SANCUS_TCP_CONN_RUNNING
    show ?thesis
    proof (cases "revents AND EV_READ ev = 0")
      case idle: True
      with SANCUS_TCP_CONN_RUNNING True assms(2) have "c' = c" "v' = v" by (simp_all add: io_cb_def)
      then show ?thesis using SANCUS_TCP_CONN_RUNNING True idle
        by (intro exI [of _ "[]"]) (simp add: reported_def conn_step.idle)
    next
      case data: False
      with SANCUS_TCP_CONN_RUNNING True assms(2) obtain c1 where
        "conn_on_read (noting st) c v k = (Done (c1, v'), k')" "c' = sancus_tcp_conn_touch c1 loop"
        by (auto simp: io_cb_def sbind_Done)
      with noted_data [OF assms(1)] SANCUS_TCP_CONN_RUNNING True data show ?thesis
        by (intro exI [of _ "[Note_data]"]) (auto simp: reported_def sancus_tcp_conn_touch_def conn_step.data)
    qed
  next
    case SANCUS_TCP_CONN_FAILED
    with assms(2) True show ?thesis by (simp add: io_cb_def)
  qed
qed

subsection \<open>Runs of a connection\<close>

text \<open>The callback once per set of events the loop reports.\<close>

fun io_run ::
  "'w ev_api \<Rightarrow> ('w, 'u) sancus_tcp_conn_settings \<Rightarrow> sancus_ev_loop \<Rightarrow> u32 list \<Rightarrow> 'w sancus_tcp_conn \<Rightarrow> 'u \<Rightarrow>
   ('w sancus_tcp_conn \<times> 'u) sys" where
  "io_run ev st loop [] c u = sret (c, u)"
| "io_run ev st loop (e # es) c u = sbind (io_cb ev st loop e c u) (\<lambda>(c, u). io_run ev st loop es c u)"

lemma io_run_steps:
  assumes "leaves_state st" and "io_run ev (noting st) loop es c v k = (Done (c', v'), k')"
  shows "\<exists>ns. conn_steps (state c) (map (reported ev) es) ns (state c') \<and> snd v' = snd v @ ns"
  using assms(2)
proof (induction es arbitrary: c v k)
  case Nil
  then show ?case by (auto intro!: exI [of _ "[]"] conn_steps.intros)
next
  case (Cons e es)
  then obtain c1 v1 k1 where 1: "io_cb ev (noting st) loop e c v k = (Done (c1, v1), k1)"
      "io_run ev (noting st) loop es c1 v1 k1 = (Done (c', v'), k')"
    by (auto simp: sbind_Done)
  obtain ns where ns: "conn_step (state c) (reported ev e) ns (state c1)" "snd v1 = snd v @ ns"
    using io_cb_step [OF assms(1) 1(1)] by blast
  obtain ms where "conn_steps (state c1) (map (reported ev) es) ms (state c')" "snd v' = snd v1 @ ms"
    using Cons.IH [OF 1(2)] by blast
  with ns show ?case by (intro exI [of _ "ns @ ms"]) (auto intro: conn_steps.intros)
qed

text \<open>A failed connection takes no event but an error of its watcher.\<close>

lemma failed_asserts:
  "state c = SANCUS_TCP_CONN_FAILED \<Longrightarrow> revents AND EV_ERROR ev = 0 \<Longrightarrow>
   io_cb ev st loop revents c u k = (Fault Assert_Fail, k)"
  by (simp add: io_cb_def)

text \<open>
  C12. The life of a connection, for every application that leaves the field \<open>state\<close> alone, every sequence of
  events and all answers of the kernel: with every call of the application noted, the callback runs the
  machine \<open>conn_steps\<close> on what the events report. Errors of the watcher apart, which are passed on in every
  state and change none, the application is told nothing while the connect is in progress, or of one refusal
  and nothing else, or that it is connected, once, and of data afterwards; the state says which. On a
  refused connection an event that is not an error of the watcher is a failed assertion.
\<close>

theorem tcp_conn_life:
  assumes "leaves_state st" and "state c = SANCUS_TCP_CONN_INPROGRESS \<or> state c = SANCUS_TCP_CONN_CONNECTED"
    and "io_run ev (noting st) loop es c (u, []) k = (Done (c', u', notes), k')"
  shows "conn_steps (state c) (map (reported ev) es) notes (state c') \<and>
    ((state c' = state c \<and> told notes = []) \<or>
     (state c' = SANCUS_TCP_CONN_FAILED \<and> (\<exists>e. told notes = [Note_refused e]) \<and>
       (\<forall>revents k. revents AND EV_ERROR ev = 0 \<longrightarrow>
         io_cb ev (noting st) loop revents c' (u', notes) k = (Fault Assert_Fail, k))) \<or>
     (state c' = SANCUS_TCP_CONN_RUNNING \<and> (\<exists>n. told notes = Note_connected # replicate n Note_data)))"
proof -
  have "conn_steps (state c) (map (reported ev) es) notes (state c')"
    using io_run_steps [OF assms(1,3)] by auto
  with steps_told [OF this assms(2)] show ?thesis using failed_asserts by metis
qed

text \<open>An application that counts its calls, and closes the connection when the watcher fails.\<close>

definition closing_app :: "'w ev_api \<Rightarrow> ('w, nat) sancus_tcp_conn_settings" where
  "closing_app ev =
     \<lparr>conn_on_read = \<lambda>c u. sret (c, Suc u), conn_on_connect = \<lambda>c u. sret (c, Suc u),
      conn_on_error = \<lambda>e x c u. sbind (sancus_tcp_conn_close ev c) (\<lambda>c. sret (c, Suc u))\<rparr>"

theorem tcp_conn_life_witness:
  "\<exists>c'. io_run (sancus_ev\<lparr>EV_READ := 1, EV_WRITE := 2, EV_ERROR := 4\<rparr>)
      (noting (closing_app (sancus_ev\<lparr>EV_READ := 1, EV_WRITE := 2, EV_ERROR := 4\<rparr>))) \<lparr>ev_loop_now = TIMESPEC_INIT 9 0\<rparr> [3, 1, 4]
      \<lparr>io = \<lparr>ev_fd = 5, ev_cb = Io_cb\<rparr>, state = SANCUS_TCP_CONN_INPROGRESS, last_activity = TIMESPEC_INIT 0 0\<rparr> (0, [])
      ([Ret 0 [], Ret 0 []], []) =
      (Done (c', 3, [Note_connected, Note_data, Note_watcher]), ([], [(Getsockopt_error 5, Ret 0 []), (Close 5, Ret 0 [])])) \<and>
    conn_steps SANCUS_TCP_CONN_INPROGRESS [(False, True, True), (False, True, False), (True, False, False)]
      [Note_connected, Note_data, Note_watcher] (state c')"
proof -
  let ?ev = "sancus_ev\<lparr>EV_READ := 1, EV_WRITE := 2, EV_ERROR := 4\<rparr> :: unit ev_api"
  let ?c = "\<lparr>io = \<lparr>ev_fd = 5, ev_cb = Io_cb\<rparr>, state = SANCUS_TCP_CONN_INPROGRESS, last_activity = TIMESPEC_INIT 0 0\<rparr>"
  let ?l = "\<lparr>ev_loop_now = TIMESPEC_INIT 9 0\<rparr>"
  obtain c' where c': "io_run ?ev (noting (closing_app ?ev)) ?l [3, 1, 4] ?c (0, []) ([Ret 0 [], Ret 0 []], []) =
      (Done (c', 3, [Note_connected, Note_data, Note_watcher]), ([], [(Getsockopt_error 5, Ret 0 []), (Close 5, Ret 0 [])]))"
    using close_watcher_retries [of "\<lparr>ev_fd = 5, ev_cb = Io_cb\<rparr>" 0 0 "[]" "[]" "[(Getsockopt_error 5, Ret 0 [])]"]
    by (simp add: io_cb_def sbind_def connect_done_def Let_def noting_def closing_app_def sancus_tcp_conn_touch_def
        sancus_tcp_conn_fd_def sancus_tcp_conn_close_def sancus_ev_def sancus_ev_fd_init_def sancus_ev_fd_start_def
        sancus_ev_fd_stop_def sancus_ev_is_active_def numeral_3_eq_3)
  have "leaves_state (closing_app ?ev)"
    by (auto simp: leaves_state_def closing_app_def sbind_Done sancus_tcp_conn_close_def split: if_splits)
  from tcp_conn_life [OF this _ c'] c' show ?thesis by (auto simp: reported_def)
qed

lemma conn_opened_state:
  assumes "init_tcp_conn ev c sa ce k = (Done (1, c'), k')"
  shows "state c' = SANCUS_TCP_CONN_INPROGRESS \<or> state c' = SANCUS_TCP_CONN_CONNECTED"
proof -
  have "post (init_tcp_conn ev c sa ce)
      (\<lambda>(r, c) _. r = 1 \<longrightarrow> state c = SANCUS_TCP_CONN_INPROGRESS \<or> state c = SANCUS_TCP_CONN_CONNECTED) k"
    by (auto simp: init_tcp_conn_def Let_def post_def sbind_Done split: if_splits answer.split_asm)
  from post_Done [OF this assms] show ?thesis by simp
qed

text \<open>
  C27. Opening a connection, whatever the kernel answers: the result 1 means that the connection has
  the one descriptor that is left open and is in progress or connected; any other result means that no
  descriptor is left open, and in no case is a descriptor given to \<open>close\<close> that was not opened here. A
  descriptor is released by the first \<open>close\<close>, as Linux does also when it answers \<open>EINTR\<close>.
\<close>

theorem tcp_connect_owns:
  assumes "event_loop ev" and "list_all errno_ok s"
    and "sancus_tcp_ipv4_connect ev p c addr port ce (s, []) = (Done (r, c'), k') \<or>
      sancus_tcp_ipv6_connect ev p c addr port ce (s, []) = (Done (r, c'), k') \<or>
      sancus_tcp_local_connect ev c addr ce (s, []) = (Done (r, c'), k')"
  shows "endpoint_left r (sancus_tcp_conn_fd c') k' \<and>
    (r = 1 \<longrightarrow> state c' = SANCUS_TCP_CONN_INPROGRESS \<or> state c' = SANCUS_TCP_CONN_CONNECTED)"
proof
  show "endpoint_left r (sancus_tcp_conn_fd c') k'"
    using assms(3)
      endpoint.opened_run [OF connect_endpoints(1) [OF assms(1)] assms(2), of p c addr port ce r c' k']
      endpoint.opened_run [OF connect_endpoints(2) [OF assms(1)] assms(2), of p c addr port ce r c' k']
      endpoint.opened_run [OF connect_endpoints(3) [OF assms(1)] assms(2), of c addr ce r c' k']
    by blast
  show "r = 1 \<longrightarrow> state c' = SANCUS_TCP_CONN_INPROGRESS \<or> state c' = SANCUS_TCP_CONN_CONNECTED"
    using assms(3)
    by (auto simp: sancus_tcp_ipv4_connect_def sancus_tcp_ipv6_connect_def sancus_tcp_local_connect_def sbind_Done
        split: if_splits dest!: conn_opened_state)
qed

theorem tcp_connect_owns_witness:
  "\<exists>c' k'. sancus_tcp_local_connect sancus_ev
      \<lparr>io = \<lparr>ev_fd = 0, ev_cb = Io_cb\<rparr>, state = SANCUS_TCP_CONN_FAILED, last_activity = TIMESPEC_INIT 0 0\<rparr> None False
      ([Ret 6 [], Ret 2 [], Ret 0 [], Err EINPROGRESS], []) = (Done (1, c'), k') \<and>
    endpoint_left 1 (sancus_tcp_conn_fd c') k' \<and> sancus_tcp_conn_fd c' = 6"
proof -
  let ?c = "\<lparr>io = \<lparr>ev_fd = 0, ev_cb = Io_cb\<rparr>, state = SANCUS_TCP_CONN_FAILED, last_activity = TIMESPEC_INIT 0 0\<rparr>"
  obtain c' k' where c': "sancus_tcp_local_connect sancus_ev ?c None False
      ([Ret 6 [], Ret 2 [], Ret 0 [], Err EINPROGRESS], []) = (Done (1, c'), k')" "sancus_tcp_conn_fd c' = 6"
    by (simp add: sancus_tcp_local_connect_def init_local_conn_def init_tcp_conn_def sancus_socket_def sbind_def Let_def
        sancus_ev_def sancus_ev_fd_init_def sancus_tcp_conn_fd_def)
  with tcp_connect_owns [OF hdr.event_loop_axioms, of "[Ret 6 [], Ret 2 [], Ret 0 [], Err EINPROGRESS]" "\<lambda>_ _. (0, [])" ?c None 0 False 1 c' k']
  show ?thesis by auto
qed

subsection \<open>Starting, stopping and closing\<close>

text \<open>
  The last operations: a connection that was stopped can be closed, which gives up its descriptor once.
\<close>

lemma conn_stop_close:
  assumes "event_loop ev" and "0 \<le> sancus_tcp_conn_fd c" and "a \<noteq> Err EINTR"
  shows "\<exists>c'. sancus_tcp_conn_close ev (sancus_tcp_conn_stop ev loop c) (replicate n (Err EINTR) @ a # t, tr) =
      (Done c', (t, tr @ closing (sancus_tcp_conn_fd c) n a)) \<and> sancus_tcp_conn_fd c' = -1 \<and>
    (\<forall>k. sancus_tcp_conn_close ev c' k = (Fault Assert_Fail, k))"
proof -
  have w: "io (sancus_tcp_conn_stop ev loop c) = event_loop.halt ev loop (io c)"
    by (simp add: sancus_tcp_conn_stop_def event_loop.halt_def [OF assms(1)])
  show ?thesis
    using assms(2) event_loop.halt_inactive [OF assms(1), of loop "io c"] event_loop.halt_fd [OF assms(1), of loop "io c"]
    by (simp add: sancus_tcp_conn_close_def w close_watcher_close close_closing [OF assms(3)] sbind_def sancus_tcp_conn_fd_def)
qed

text \<open>
  \<open>sancus_tcp_conn_elapsed\<close> hands its times over in the wrong order: the last activity is taken for now,
  so that the time elapsed since an activity that is over is always zero.
\<close>

theorem conn_elapsed_zero:
  assumes "clock_reading (last_activity c)" "clock_reading (sancus_ev_now loop)"
    and "tv_value (last_activity c) \<le> tv_value (sancus_ev_now loop)"
  shows "sancus_tcp_conn_elapsed c loop = Inr (TIMESPEC_INIT 0 0)"
  using clock_reading_gt [OF assms(1,2)] assms(3)
  by (simp add: sancus_tcp_conn_elapsed_def sancus_time_elapsed_def)

theorem conn_elapsed_zero_witness:
  "sancus_tcp_conn_elapsed
     \<lparr>io = \<lparr>ev_fd = 5, ev_cb = Io_cb\<rparr>, state = SANCUS_TCP_CONN_RUNNING, last_activity = TIMESPEC_INIT 1 0\<rparr>
     \<lparr>ev_loop_now = TIMESPEC_INIT 61 0\<rparr> = Inr (TIMESPEC_INIT 0 0)"
  by (rule conn_elapsed_zero)
    (simp_all add: clock_reading_def sancus_ev_now_def TIMESPEC_INIT_def tv_value_simps)

end
