(* ===== verification/Tcp_Server.thy ===== *)
theory Tcp_Server
  imports Tcp_Conn
begin

text \<open>
  The listening socket of \<^verbatim>\<open>include/sancus/tcp_server.h\<close> and \<^verbatim>\<open>src/sancus/tcp_server.c\<close>: binding to an IPv4,
  IPv6 or local address, and accepting connections for the application. The callbacks are an argument;
  they get the server and the application's state, may change both and may call the kernel.
\<close>

subsection \<open>Servers\<close>

datatype sancus_tcp_server_error = SANCUS_TCP_SERVER_ACCEPT_ERROR

record 'w sancus_tcp_server =
  connect :: "'w sancus_ev_fd_scheme"

record ('w, 'u) sancus_tcp_server_settings =
  pre_bind :: "('w sancus_tcp_server \<Rightarrow> 'u \<Rightarrow> ('w sancus_tcp_server \<times> 'u) sys) option"
  srv_on_connect :: "int \<Rightarrow> byte list \<Rightarrow> 'w sancus_tcp_server \<Rightarrow> 'u \<Rightarrow> (bool \<times> 'w sancus_tcp_server \<times> 'u) sys"
  srv_on_error :: "sancus_tcp_server_error \<Rightarrow> 'w sancus_tcp_server \<Rightarrow> 'u \<Rightarrow> ('w sancus_tcp_server \<times> 'u) sys"

definition sancus_tcp_server_fd :: "'w sancus_tcp_server \<Rightarrow> int" where
  "sancus_tcp_server_fd s = ev_fd (connect s)"

definition sancus_tcp_server_is_active :: "'w ev_api \<Rightarrow> 'w sancus_tcp_server \<Rightarrow> bool" where
  "sancus_tcp_server_is_active ev s \<longleftrightarrow> ev_fd (connect s) > 0 \<and> ev_active ev (connect s)"

subsection \<open>The event callback\<close>

definition connect_cb ::
  "'w ev_api \<Rightarrow> ('w, 'u) sancus_tcp_server_settings \<Rightarrow> u32 \<Rightarrow> 'w sancus_tcp_server \<Rightarrow> 'u \<Rightarrow>
   ('w sancus_tcp_server \<times> 'u) sys" where
  "connect_cb ev st revents s u =
     (if revents AND EV_ERROR ev \<noteq> 0 then sfault Assert_Fail
      else if revents AND EV_READ ev \<noteq> 0 then
        sbind (sancus_accept (ev_fd (connect s))) (\<lambda>(fd, addr).
          if fd < 0 then srv_on_error st SANCUS_TCP_SERVER_ACCEPT_ERROR s u
          else sbind (srv_on_connect st fd addr s u) (\<lambda>(keep, s, u).
            if \<not> keep then sbind (sancus_close2 (Some fd)) (\<lambda>_. sret (s, u)) else sret (s, u)))
      else sret (s, u))"

subsection \<open>Opening\<close>

text \<open>The byte of a string at an offset; a string that ends before it is read past its end.\<close>

definition char_at :: "byte list \<Rightarrow> nat \<Rightarrow> byte exec" where
  "char_at s i = ebind (mem_get i 1 s) (\<lambda>x. Inr (x ! 0))"

text \<open>\<open>NULL\<close>, \<open>""\<close>, \<open>"0"\<close> and \<open>"*"\<close>: the operators of C stop at the first that decides.\<close>

definition any_ipv4 :: "byte list option \<Rightarrow> bool exec" where
  "any_ipv4 addr =
     (case addr of
        None \<Rightarrow> Inr True
      | Some a \<Rightarrow>
          ebind (char_at a 0) (\<lambda>c0.
            if c0 = 0 then Inr True
            else if c0 = 48 \<or> c0 = 42 then ebind (char_at a 1) (\<lambda>c1. Inr (c1 = 0))
            else Inr False))"

definition init_ipv4_server :: "pton \<Rightarrow> sockaddr_in \<Rightarrow> byte list option \<Rightarrow> u16 \<Rightarrow> (int \<times> sockaddr_in) exec" where
  "init_ipv4_server inet_pton sin addr port =
     (let sin = sin\<lparr>sin_port := htons port\<rparr> in
      ebind (any_ipv4 addr) (\<lambda>any.
        if any then Inr (1, sin\<lparr>sin_addr := [0, 0, 0, 0]\<rparr>)
        else case addr of
          None \<Rightarrow> Inl Null_Deref
        | Some a \<Rightarrow> (case inet_pton (int (unat (sin_family sin))) a of
              (r, x) \<Rightarrow> Inr (r, if r = 1 then sin\<lparr>sin_addr := x\<rparr> else sin))))"

text \<open>\<open>NULL\<close>, \<open>""\<close>, \<open>"*"\<close> and \<open>"::"\<close>.\<close>

definition any_ipv6 :: "byte list option \<Rightarrow> bool exec" where
  "any_ipv6 addr =
     (case addr of
        None \<Rightarrow> Inr True
      | Some a \<Rightarrow>
          ebind (char_at a 0) (\<lambda>c0.
            if c0 = 0 then Inr True
            else if c0 = 42 then ebind (char_at a 1) (\<lambda>c1. Inr (c1 = 0))
            else if c0 = 58 then
              ebind (char_at a 1) (\<lambda>c1.
                if c1 = 58 then ebind (char_at a 2) (\<lambda>c2. Inr (c2 = 0)) else Inr False)
            else Inr False))"

definition init_ipv6_server :: "pton \<Rightarrow> sockaddr_in6 \<Rightarrow> byte list option \<Rightarrow> u16 \<Rightarrow> (int \<times> sockaddr_in6) exec" where
  "init_ipv6_server inet_pton sin6 addr port =
     (let sin6 = sin6\<lparr>sin6_port := htons port\<rparr> in
      ebind (any_ipv6 addr) (\<lambda>any.
        if any then Inr (1, sin6\<lparr>sin6_addr := replicate 16 0\<rparr>)
        else case addr of
          None \<Rightarrow> Inl Null_Deref
        | Some a \<Rightarrow> (case inet_pton (int (unat (sin6_family sin6))) a of
              (r, x) \<Rightarrow> Inr (r, if r = 1 then sin6\<lparr>sin6_addr := x\<rparr> else sin6))))"

definition init_local_server :: "sockaddr_un \<Rightarrow> byte list option \<Rightarrow> (int \<times> sockaddr_un) exec" where
  "init_local_server sun path =
     (let store = (\<lambda>blk l.
        ebind (mem_get 0 (l + 1) blk) (\<lambda>x.
        ebind (mem_put 0 x (sun_path sun)) (\<lambda>m. Inr (1, sun\<lparr>sun_path := m\<rparr>)))) in
      case path of
        None \<Rightarrow> store [0] 0
      | Some p \<Rightarrow> ebind (strlen p) (\<lambda>l. if l > 108 - 1 then Inr (0, sun) else store p l))"

abbreviation (input) SO_REUSEADDR :: int where "SO_REUSEADDR \<equiv> 2"
abbreviation (input) SO_KEEPALIVE :: int where "SO_KEEPALIVE \<equiv> 9"
abbreviation (input) SO_LINGER :: int where "SO_LINGER \<equiv> 13"

text \<open>The results of \<open>setsockopt\<close> are ignored.\<close>

definition set_options :: "int \<Rightarrow> byte list \<Rightarrow> unit sys" where
  "set_options fd sa =
     (if sa_family sa \<noteq> AF_LOCAL then
        sbind (syscall (Setsockopt fd SO_REUSEADDR)) (\<lambda>_.
        sbind (syscall (Setsockopt fd SO_KEEPALIVE)) (\<lambda>_.
        sbind (syscall (Setsockopt fd SO_LINGER)) (\<lambda>_. sret ())))
      else sret ())"

text \<open>\<open>bind\<close> and, if that succeeds, \<open>listen\<close>; whether both did.\<close>

definition bind_listen :: "int \<Rightarrow> byte list \<Rightarrow> u32 \<Rightarrow> bool sys" where
  "bind_listen fd sa backlog =
     sbind (syscall (Bind fd sa)) (\<lambda>a.
       case a of
         Err _ \<Rightarrow> sret False
       | Ret _ _ \<Rightarrow> sbind (syscall (Listen fd (int_cast (uint backlog)))) (\<lambda>b.
           case b of Err _ \<Rightarrow> sret False | Ret _ _ \<Rightarrow> sret True))"

definition init_tcp_server ::
  "'w ev_api \<Rightarrow> ('w, 'u) sancus_tcp_server_settings \<Rightarrow> 'w sancus_tcp_server \<Rightarrow> 'u \<Rightarrow> byte list \<Rightarrow> bool \<Rightarrow> u32 \<Rightarrow>
   (int \<times> 'w sancus_tcp_server \<times> 'u) sys" where
  "init_tcp_server ev st s u sa cloexec backlog =
     sbind (sancus_socket (sa_family sa) SOCK_STREAM 0 cloexec True) (\<lambda>fd.
       if fd < 0 then sret (-1, s, u)
       else sbind (set_options fd sa) (\<lambda>_.
         let s = s\<lparr>connect := snd (ev_init ev (connect s) Connect_cb fd (EV_READ ev))\<rparr> in
         sbind (case pre_bind st of Some f \<Rightarrow> f s u | None \<Rightarrow> sret (s, u)) (\<lambda>(s, u).
         sbind (bind_listen fd sa backlog) (\<lambda>ok.
           if \<not> ok then sbind (close_watcher (connect s)) (\<lambda>w. sret (-1, s\<lparr>connect := w\<rparr>, u))
           else sret (1, s, u)))))"

definition sancus_tcp_ipv4_listen ::
  "'w ev_api \<Rightarrow> pton \<Rightarrow> ('w, 'u) sancus_tcp_server_settings \<Rightarrow> 'w sancus_tcp_server \<Rightarrow> 'u \<Rightarrow> byte list option \<Rightarrow> u16 \<Rightarrow>
   bool \<Rightarrow> u32 \<Rightarrow> (int \<times> 'w sancus_tcp_server \<times> 'u) sys" where
  "sancus_tcp_ipv4_listen ev inet_pton st s u addr port cloexec backlog =
     sbind (slift (init_ipv4_server inet_pton \<lparr>sin_family = 2, sin_port = 0, sin_addr = replicate 4 0\<rparr> addr port)) (\<lambda>(e, sin).
       if e \<noteq> 1 then sret (e, s, u) else init_tcp_server ev st s u (in_bytes sin) cloexec backlog)"

definition sancus_tcp_ipv6_listen ::
  "'w ev_api \<Rightarrow> pton \<Rightarrow> ('w, 'u) sancus_tcp_server_settings \<Rightarrow> 'w sancus_tcp_server \<Rightarrow> 'u \<Rightarrow> byte list option \<Rightarrow> u16 \<Rightarrow>
   bool \<Rightarrow> u32 \<Rightarrow> (int \<times> 'w sancus_tcp_server \<times> 'u) sys" where
  "sancus_tcp_ipv6_listen ev inet_pton st s u addr port cloexec backlog =
     sbind (slift (init_ipv6_server inet_pton \<lparr>sin6_family = 10, sin6_port = 0, sin6_addr = replicate 16 0\<rparr> addr port)) (\<lambda>(e, sin6).
       if e \<noteq> 1 then sret (e, s, u) else init_tcp_server ev st s u (in6_bytes sin6) cloexec backlog)"

text \<open>\<open>unlink\<close> gets the path as the caller gave it, also a \<open>NULL\<close>, which the kernel refuses.\<close>

definition sancus_tcp_local_listen ::
  "'w ev_api \<Rightarrow> ('w, 'u) sancus_tcp_server_settings \<Rightarrow> 'w sancus_tcp_server \<Rightarrow> 'u \<Rightarrow> byte list option \<Rightarrow>
   bool \<Rightarrow> u32 \<Rightarrow> (int \<times> 'w sancus_tcp_server \<times> 'u) sys" where
  "sancus_tcp_local_listen ev st s u path cloexec backlog =
     sbind (slift (init_local_server \<lparr>sun_family = 1, sun_path = replicate 108 0\<rparr> path)) (\<lambda>(e, sun).
       if e \<noteq> 1 then sret (e, s, u)
       else sbind (syscall (Unlink (case path of Some p \<Rightarrow> p | None \<Rightarrow> []))) (\<lambda>_.
         init_tcp_server ev st s u (un_bytes sun) cloexec backlog))"

subsection \<open>Starting, stopping and closing\<close>

definition sancus_tcp_server_start :: "'w ev_api \<Rightarrow> sancus_ev_loop \<Rightarrow> 'w sancus_tcp_server \<Rightarrow> 'w sancus_tcp_server exec" where
  "sancus_tcp_server_start ev loop s =
     chk Assert_Fail (\<not> ev_active ev (connect s)) (Inr (s\<lparr>connect := snd (ev_start ev loop (connect s))\<rparr>))"

definition sancus_tcp_server_stop :: "'w ev_api \<Rightarrow> sancus_ev_loop \<Rightarrow> 'w sancus_tcp_server \<Rightarrow> 'w sancus_tcp_server" where
  "sancus_tcp_server_stop ev loop s =
     (if ev_active ev (connect s) then s\<lparr>connect := snd (ev_stop ev loop (connect s))\<rparr> else s)"

definition sancus_tcp_server_close :: "'w ev_api \<Rightarrow> 'w sancus_tcp_server \<Rightarrow> 'w sancus_tcp_server sys" where
  "sancus_tcp_server_close ev s =
     (if \<not> ev_fd (connect s) \<ge> 0 \<or> ev_active ev (connect s) then sfault Assert_Fail
      else sbind (close_watcher (connect s)) (\<lambda>w. sret (s\<lparr>connect := w\<rparr>)))"

subsection \<open>Servers own their descriptor\<close>

text \<open>A hook before \<open>bind\<close> that neither opens nor closes descriptors and leaves the watcher alone.\<close>

definition hook_ok :: "('w, 'u) sancus_tcp_server_settings \<Rightarrow> bool" where
  "hook_ok st \<longleftrightarrow> (\<forall>f s u k. pre_bind st = Some f \<longrightarrow> kernel_ok k \<longrightarrow>
     post (f s u) (\<lambda>(s', u') k'. kernel_ok k' \<and> same_fds k k' \<and> connect s' = connect s) k)"

lemma post_hook:
  assumes "hook_ok st" and "owned fd k"
    and "\<And>s' u' k'. owned fd k' \<Longrightarrow> connect s' = connect s \<Longrightarrow> Q (s', u') k'"
  shows "post (case pre_bind st of Some f \<Rightarrow> f s u | None \<Rightarrow> sret (s, u)) Q k"
proof (cases "pre_bind st")
  case None
  then show ?thesis using assms(2,3) by simp
next
  case (Some f)
  have "kernel_ok k" using assms(2) by (simp add: owned_def)
  then have "post (f s u) (\<lambda>(s', u') k'. kernel_ok k' \<and> same_fds k k' \<and> connect s' = connect s) k"
    using Some assms(1) unfolding hook_ok_def by blast
  then show ?thesis
    unfolding Some option.case
    by (rule post_mono) (auto intro!: assms(3) owned_same [OF assms(2)])
qed

lemma post_options:
  assumes "owned x k" and "\<And>k'. owned x k' \<Longrightarrow> Q () k'"
  shows "post (set_options fd sa) Q k"
  using assms by (auto simp: set_options_def intro!: post_owned [where fd = x])

lemma post_bind_listen:
  assumes "owned x k" and "\<And>ok k'. owned x k' \<Longrightarrow> Q ok k'"
  shows "post (bind_listen fd sa backlog) Q k"
  using assms by (auto simp: bind_listen_def split: answer.split intro!: post_owned [where fd = x])

definition server_fd :: "'w sancus_tcp_server \<times> 'u \<Rightarrow> int" where
  "server_fd su = sancus_tcp_server_fd (fst su)"

lemma server_endpoint:
  assumes "event_loop ev" and "hook_ok st"
  shows "endpoint (init_tcp_server ev st s u sa cloexec backlog) server_fd"
proof
  fix k
  assume k: "owned (-1) k"
  let ?Q = "\<lambda>(r, x). \<lambda>l. kernel_ok l \<and> endpoint_left r (server_fd x) l"
  show "post (init_tcp_server ev st s u sa cloexec backlog) ?Q k"
    unfolding init_tcp_server_def
  proof (rule post_endpoint [OF k])
    fix fd l
    assume l: "0 \<le> fd" "owned fd l"
    have end_: "post (if \<not> ok then sbind (close_watcher (connect s')) (\<lambda>w. sret (-1, s'\<lparr>connect := w\<rparr>, u'))
        else sret (1, s', u')) ?Q l'"
      if "owned fd l'" "ev_fd (connect s') = fd" for ok s' u' l'
      using that l(1)
      by (auto simp: server_fd_def sancus_tcp_server_fd_def endpoint_left_owned owned_def [of fd l'] owned_def [of "-1"]
          intro!: post_close_watcher_owned [OF that(1) l(1) that(2)])
    show "post (if fd < 0 then sret (-1, s, u)
        else sbind (set_options fd sa) (\<lambda>_.
          let s = s\<lparr>connect := snd (ev_init ev (connect s) Connect_cb fd (EV_READ ev))\<rparr> in
          sbind (case pre_bind st of Some f \<Rightarrow> f s u | None \<Rightarrow> sret (s, u)) (\<lambda>(s, u).
          sbind (bind_listen fd sa backlog) (\<lambda>ok.
            if \<not> ok then sbind (close_watcher (connect s)) (\<lambda>w. sret (-1, s\<lparr>connect := w\<rparr>, u))
            else sret (1, s, u))))) ?Q l"
      using l unfolding Let_def
      by (auto simp: event_loop.init_fd [OF assms(1)]
          intro!: post_options [where x = fd] post_hook [OF assms(2), where fd = fd] post_bind_listen [where x = fd] end_)
  qed (simp add: endpoint_left_owned owned_def)
qed

lemma listen_endpoints:
  assumes "event_loop ev" and "hook_ok st"
  shows "endpoint (sancus_tcp_ipv4_listen ev p st s u addr port ce backlog) server_fd"
    and "endpoint (sancus_tcp_ipv6_listen ev p st s u addr port ce backlog) server_fd"
    and "endpoint (sancus_tcp_local_listen ev st s u path ce backlog) server_fd"
proof -
  note init = server_endpoint [OF assms]
  show "endpoint (sancus_tcp_ipv4_listen ev p st s u addr port ce backlog) server_fd"
    and "endpoint (sancus_tcp_ipv6_listen ev p st s u addr port ce backlog) server_fd"
    unfolding sancus_tcp_ipv4_listen_def sancus_tcp_ipv6_listen_def
    by (rule endpoint_lift; auto split: prod.splits intro: endpoint_ret init)+
  have "endpoint (sbind (syscall (Unlink x)) (\<lambda>_. init_tcp_server ev st s u sa ce backlog)) server_fd" for x sa
  proof
    fix k
    assume "owned (-1) k"
    then show "post (sbind (syscall (Unlink x)) (\<lambda>_. init_tcp_server ev st s u sa ce backlog))
        (\<lambda>(r, x). \<lambda>l. kernel_ok l \<and> endpoint_left r (server_fd x) l) k"
      unfolding post_sbind by (intro post_owned [where fd = "-1"] endpoint.opens [OF init]) auto
  qed
  then show "endpoint (sancus_tcp_local_listen ev st s u path ce backlog) server_fd"
    unfolding sancus_tcp_local_listen_def
    by (intro endpoint_lift) (auto split: prod.splits intro: endpoint_ret)
qed

text \<open>
  C26. Listening, whatever the kernel answers, for every application whose hook before \<open>bind\<close> neither opens nor
  closes descriptors and leaves the watcher alone: the result 1 means that the server has the one descriptor
  that is left open; any other result means that none is left open, whichever of the calls failed, and in no
  case is a descriptor given to \<open>close\<close> that was not opened here. A descriptor is released by the first
  \<open>close\<close>, as Linux does also when it answers \<open>EINTR\<close>.
\<close>

theorem tcp_listen_owns:
  assumes "event_loop ev" and "hook_ok st" and "list_all errno_ok t"
    and "sancus_tcp_ipv4_listen ev p st s u addr port ce backlog (t, []) = (Done (r, s', u'), k') \<or>
      sancus_tcp_ipv6_listen ev p st s u addr port ce backlog (t, []) = (Done (r, s', u'), k') \<or>
      sancus_tcp_local_listen ev st s u addr ce backlog (t, []) = (Done (r, s', u'), k')"
  shows "endpoint_left r (sancus_tcp_server_fd s') k'"
  using assms(4)
    endpoint.opened_run [OF listen_endpoints(1) [OF assms(1,2)] assms(3), of p s u addr port ce backlog r "(s', u')" k']
    endpoint.opened_run [OF listen_endpoints(2) [OF assms(1,2)] assms(3), of p s u addr port ce backlog r "(s', u')" k']
    endpoint.opened_run [OF listen_endpoints(3) [OF assms(1,2)] assms(3), of s u addr ce backlog r "(s', u')" k']
  by (auto simp: server_fd_def)

text \<open>A server that takes the connections of one address and counts the others.\<close>

definition picky :: "byte list \<Rightarrow> ('w, nat) sancus_tcp_server_settings" where
  "picky a = \<lparr>pre_bind = None, srv_on_connect = \<lambda>fd addr s u. sret (addr = a, s, if addr = a then u else Suc u),
     srv_on_error = \<lambda>e s u. sret (s, u)\<rparr>"

lemma picky_hook: "hook_ok (picky a)"
  by (simp add: hook_ok_def picky_def)

interpretation sin: endpoint "sancus_tcp_ipv4_listen sancus_ev p (picky a) s u addr port ce backlog" server_fd
  for p a s u addr port ce backlog
  by (rule listen_endpoints) (rule hdr.event_loop_axioms picky_hook)+

theorem tcp_listen_owns_witness:
  "\<exists>s' k'. sancus_tcp_ipv4_listen sancus_ev (\<lambda>f a. (0, [])) (picky []) \<lparr>connect = \<lparr>ev_fd = 0, ev_cb = Connect_cb\<rparr>\<rparr> 0
      (Some [42, 0]) 80 True 5
      ([Ret 6 [], Ret 2049 [], Ret 0 [], Ret 0 [], Ret 0 [], Ret 0 [], Ret 0 []], []) = (Done (1, s', 0), k') \<and>
    endpoint_left 1 (sancus_tcp_server_fd s') k' \<and> sancus_tcp_server_fd s' = 6"
proof -
  let ?s = "\<lparr>connect = \<lparr>ev_fd = 0, ev_cb = Connect_cb\<rparr>\<rparr>"
  let ?t = "[Ret 6 [], Ret 2049 [], Ret 0 [], Ret 0 [], Ret 0 [], Ret 0 [], Ret 0 []]"
  have fam: "sa_family (in_bytes x) = int (unat (sin_family x))" for x
    unfolding in_bytes_def by (rule sa_family_bytes)
  have fl: "(2049 :: int) OR 1 = 2049" "(2049 :: int) OR 2048 = 2049" by simp_all
  obtain s' k' where r: "sancus_tcp_ipv4_listen sancus_ev (\<lambda>f a. (0, [])) (picky []) ?s 0 (Some [42, 0]) 80 True 5 (?t, []) =
      (Done (1, s', 0), k')" "sancus_tcp_server_fd s' = 6"
    by (simp add: sancus_tcp_ipv4_listen_def init_ipv4_server_def any_ipv4_def char_at_def mem_get_def init_tcp_server_def
        sancus_socket_def sbind_def Let_def fam set_options_def bind_listen_def picky_def
        sancus_ev_def sancus_ev_fd_init_def sancus_tcp_server_fd_def)
  with tcp_listen_owns [OF hdr.event_loop_axioms picky_hook, of ?t "\<lambda>f a. (0, [])" "[]" ?s 0 "Some [42, 0]" 80 True 5 1 s' 0 k']
  show ?thesis by auto
qed

subsection \<open>Accepting\<close>

text \<open>
  C16. One event of a server: each connection accepted is either kept by the application or closed; closing
  it takes one call, and one more for each that is interrupted; interruptions of \<open>accept\<close> are passed over, an
  error of it is reported, and opens and closes nothing.
\<close>

theorem tcp_accept_disposes:
  assumes "revents AND EV_ERROR ev = 0" and "revents AND EV_READ ev \<noteq> 0" and "kernel_ok k"
    and "\<And>fd addr s u k. srv_on_connect st fd addr s u k = (Done (keep fd addr, s, f fd addr u), k)"
    and "\<And>e s u k. srv_on_error st e s u k = (Done (s, g u), k)"
    and "connect_cb ev st revents s u k = (Done (s', u'), k')"
  shows "s' = s \<and>
    ((u' = g u \<and> same_fds k k') \<or>
     (\<exists>fd addr. u' = f fd addr u \<and> opn k' = opn k @ [fd] \<and>
       (if keep fd addr then cls k' = cls k \<and> again k' = again k \<and> held k' = held k @ [fd]
        else \<exists>n. cls k' = cls k @ replicate (Suc n) fd \<and> again k' = again k @ replicate n fd \<and>
          held k' = filter (\<lambda>x. x \<noteq> fd) (held k))))"
proof -
  let ?Q = "\<lambda>(s', u') k'. s' = s \<and>
    ((u' = g u \<and> same_fds k k') \<or>
     (\<exists>fd addr. u' = f fd addr u \<and> opn k' = opn k @ [fd] \<and>
       (if keep fd addr then cls k' = cls k \<and> again k' = again k \<and> held k' = held k @ [fd]
        else \<exists>n. cls k' = cls k @ replicate (Suc n) fd \<and> again k' = again k @ replicate n fd \<and>
          held k' = filter (\<lambda>x. x \<noteq> fd) (held k))))"
  have err: "post (srv_on_error st e s u) R l \<longleftrightarrow> R (s, g u) l" for e R l
    by (cases l) (simp add: post_def assms(5))
  have con: "post (srv_on_connect st fd addr s u) R l \<longleftrightarrow> R (keep fd addr, s, f fd addr u) l" for fd addr R l
    by (cases l) (simp add: post_def assms(4))
  let ?f = "\<lambda>(fd, addr). if fd < 0 then srv_on_error st SANCUS_TCP_SERVER_ACCEPT_ERROR s u
    else sbind (srv_on_connect st fd addr s u) (\<lambda>(keep, s, u).
      if \<not> keep then sbind (sancus_close2 (Some fd)) (\<lambda>_. sret (s, u)) else sret (s, u))"
  have "connect_cb ev st revents s u = sbind (sancus_accept (ev_fd (connect s))) ?f"
    using assms(1,2) by (simp add: connect_cb_def)
  moreover have "post (sancus_accept (ev_fd (connect s))) (\<lambda>x. post (?f x) ?Q) k"
  proof (rule post_accept [OF assms(3)])
    fix e l
    assume "same_fds k l"
    then show "post (?f (-1, [])) ?Q l" by (simp add: err)
  next
    fix n x l
    assume l: "kernel_ok l" "opn l = opn k @ [int n]" "cls l = cls k" "again l = again k" "held l = held k @ [int n]"
    then show "post (?f (int n, x)) ?Q l"
      by (cases "keep (int n) x") (auto simp: con sancus_close2_def intro!: post_close exI [of _ "int n"] exI [of _ x])
  qed
  ultimately have "post (connect_cb ev st revents s u) ?Q k" by simp
  from post_Done [OF this assms(6)] show ?thesis by simp
qed

theorem tcp_accept_disposes_witness:
  "\<exists>k'. connect_cb (sancus_ev\<lparr>EV_READ := 1, EV_ERROR := 4\<rparr>) (picky [1]) 1 \<lparr>connect = \<lparr>ev_fd = 6, ev_cb = Connect_cb\<rparr>\<rparr> 0
      ([Err EINTR, Ret 7 [2], Ret 0 []], []) = (Done (\<lparr>connect = \<lparr>ev_fd = 6, ev_cb = Connect_cb\<rparr>\<rparr>, 1), k') \<and> held k' = []"
proof -
  let ?s = "\<lparr>connect = \<lparr>ev_fd = 6, ev_cb = Connect_cb\<rparr>\<rparr>" and ?k = "([Err EINTR, Ret 7 [2], Ret 0 []], [])"
  have r: "connect_cb (sancus_ev\<lparr>EV_READ := 1, EV_ERROR := 4\<rparr>) (picky [1]) 1 ?s 0 ?k =
      (Done (?s, 1), ([], [(Accept 6, Err EINTR), (Accept 6, Ret 7 [2]), (Close 7, Ret 0 [])]))"
    by (simp add: connect_cb_def sbind_def raccept.interrupted raccept.answered accept_result_def
        picky_def sancus_close2_def rclose.answered close_result_def)
  have "kernel_ok ?k" by (simp add: kernel_ok_def)
  from tcp_accept_disposes [OF _ _ this _ _ r, of "\<lambda>_ addr. addr = [1]" "\<lambda>_ addr u. if addr = [1] then u else Suc u" id]
  show ?thesis using r by (auto simp: picky_def same_fds_def kernel_account hold_def)
qed

subsection \<open>The address to listen on\<close>

lemma any_ipv4_string:
  "0 \<notin> set a \<Longrightarrow> any_ipv4 (Some (a @ 0 # r)) = Inr (a \<in> {[], [48], [42]})"
  by (cases a; cases "tl a") (auto simp: any_ipv4_def char_at_def mem_get_def)

lemma any_ipv6_string:
  "0 \<notin> set a \<Longrightarrow> any_ipv6 (Some (a @ 0 # r)) = Inr (a \<in> {[], [42], [58, 58]})"
  by (cases a; cases "tl a"; cases "tl (tl a)") (auto simp: any_ipv6_def char_at_def mem_get_def)

text \<open>
  The address to listen on: exactly \<open>NULL\<close>, the empty string and the documented abbreviations mean
  every address, whatever \<open>inet_pton\<close> does; every other string is given to \<open>inet_pton\<close>, and its result
  is passed on. No string is read past its end.
\<close>

theorem listen_any_address:
  assumes "0 \<notin> set a"
  shows "init_ipv4_server p sin (Some (a @ 0 # r)) port =
      (if a \<in> {[], [48], [42]} then Inr (1, sin\<lparr>sin_port := htons port, sin_addr := [0, 0, 0, 0]\<rparr>)
       else init_ipv4_conn p sin (Some (a @ 0 # r)) port) \<and>
    init_ipv6_server p sin6 (Some (a @ 0 # r)) port =
      (if a \<in> {[], [42], [58, 58]} then Inr (1, sin6\<lparr>sin6_port := htons port, sin6_addr := replicate 16 0\<rparr>)
       else init_ipv6_conn p sin6 (Some (a @ 0 # r)) port) \<and>
    init_ipv4_server p sin None port = Inr (1, sin\<lparr>sin_port := htons port, sin_addr := [0, 0, 0, 0]\<rparr>) \<and>
    init_ipv6_server p sin6 None port = Inr (1, sin6\<lparr>sin6_port := htons port, sin6_addr := replicate 16 0\<rparr>)"
  using any_ipv4_string [OF assms, of r] any_ipv6_string [OF assms, of r]
  by (simp add: init_ipv4_server_def init_ipv6_server_def init_ipv4_conn_def init_ipv6_conn_def any_ipv4_def any_ipv6_def)

theorem listen_any_address_witness:
  "init_ipv4_server (\<lambda>f a. (0, [])) \<lparr>sin_family = 2, sin_port = 0, sin_addr = [1, 2, 3, 4]\<rparr> (Some [42, 0]) 80 =
     Inr (1, \<lparr>sin_family = 2, sin_port = htons 80, sin_addr = [0, 0, 0, 0]\<rparr>)"
  using listen_any_address [of "[42]" "\<lambda>f a. (0, [])" "\<lparr>sin_family = 2, sin_port = 0, sin_addr = [1, 2, 3, 4]\<rparr>" "[]" 80]
  by simp

end
