(* ===== verification/Netlink_Msg.thy ===== *)
theory Netlink_Msg
  imports Prelude
begin

text \<open>
  Netlink messages, \<^verbatim>\<open>src/netlink/netlink_msg.c\<close> and the macros of \<^verbatim>\<open>include/sancus/netlink.h\<close>.
  A message is a place in a byte block: a pointer to it is an offset, and a field is read from and
  written to the block in the little-endian layout of the kernel headers (\<open>struct nlmsghdr\<close>: length
  at 0, type at 4, flags at 6, sequence number at 8 and port at 12, sixteen bytes).
\<close>

subsection \<open>Alignment\<close>

text \<open>
  The macro \<open>SANCUS_NL_ALIGN\<close>: rounding up to four is done with the mask \<open>0xfffc\<close>, which also drops
  every bit above the sixteenth.
\<close>

definition SANCUS_NL_ALIGN :: "nat \<Rightarrow> u32" where
  "SANCUS_NL_ALIGN len = word_of_nat (len + 3) AND 0xfffc"

definition SANCUS_NL_MSG_HDRLEN :: nat where
  "SANCUS_NL_MSG_HDRLEN = unat (SANCUS_NL_ALIGN 16)"

text \<open>What rounding up to a multiple of four means.\<close>

definition align4 :: "nat \<Rightarrow> nat" where
  "align4 n = 4 * ((n + 3) div 4)"

lemma and_fffc: "(x :: nat) AND 0xfffc = 4 * (x div 4 mod 16384)"
proof -
  have m: "(0xfffc :: nat) = push_bit 2 (mask 14)" by (simp add: mask_eq_exp_minus_1 push_bit_eq_mult)
  have s: "2 \<le> n \<Longrightarrow> Suc (Suc (n - 2)) = n" for n :: nat by simp
  have "x AND push_bit 2 (mask 14) = push_bit 2 (take_bit 14 (drop_bit 2 x))"
    by (rule bit_eqI) (auto simp: bit_simps s)
  then have "x AND 0xfffc = push_bit 2 (take_bit 14 (drop_bit 2 x))" unfolding m .
  then show ?thesis by (simp add: push_bit_eq_mult take_bit_eq_mod drop_bit_eq_div)
qed

lemma unat_ALIGN: "unat (SANCUS_NL_ALIGN n) = align4 n mod 65536"
proof -
  have e: "x mod 4294967296 div 4 mod 16384 = x div 4 mod 16384" for x :: nat
  proof -
    have "take_bit 14 (drop_bit 2 (take_bit 32 x)) = take_bit 14 (drop_bit 2 x)"
      by (auto simp: bit_eq_iff bit_simps)
    then show ?thesis by (simp add: take_bit_eq_mod drop_bit_eq_div)
  qed
  have "unat (SANCUS_NL_ALIGN n) = take_bit 32 (n + 3) AND 0xfffc"
    unfolding SANCUS_NL_ALIGN_def by (simp add: unsigned_and_eq unsigned_of_nat del: of_nat_add)
  also have "\<dots> = 4 * ((n + 3) mod 4294967296 div 4 mod 16384)"
    by (simp add: and_fffc take_bit_eq_mod)
  also have "\<dots> = 4 * ((n + 3) div 4 mod 16384)" by (simp only: e)
  also have "\<dots> = align4 n mod 65536"
    by (simp add: align4_def mult_mod_right)
  finally show ?thesis .
qed

lemma unat_ALIGN_small: "n \<le> 65532 \<Longrightarrow> unat (SANCUS_NL_ALIGN n) = align4 n"
  unfolding unat_ALIGN align4_def by (rule mod_less) linarith

lemma HDRLEN [simp]: "SANCUS_NL_MSG_HDRLEN = 16"
  unfolding SANCUS_NL_MSG_HDRLEN_def by (simp add: unat_ALIGN_small align4_def)

lemma align4_bounds: "n \<le> align4 n" "align4 n < n + 4" "4 dvd align4 n"
  unfolding align4_def by (linarith, linarith, simp)

lemma align4_dvd: "4 dvd n \<Longrightarrow> align4 n = n"
  unfolding align4_def by (elim dvdE) simp

subsection \<open>Messages\<close>

definition nlmsg_len :: "byte list \<Rightarrow> nat \<Rightarrow> nat exec" where
  "nlmsg_len m nlh = get_le 4 m nlh"

definition nlmsg_pid :: "byte list \<Rightarrow> nat \<Rightarrow> nat exec" where
  "nlmsg_pid m nlh = get_le 4 m (nlh + 12)"

definition sancus_nl_msg_ok :: "byte list \<Rightarrow> nat \<Rightarrow> int \<Rightarrow> bool exec" where
  "sancus_nl_msg_ok m nlh len =
     (if len \<ge> 16 then ebind (nlmsg_len m nlh) (\<lambda>l. Inr (l \<ge> 16 \<and> int_cast (int l) \<le> len))
      else Inr False)"

text \<open>
  The new pointer and the new \<open>*len\<close>. The pointer arithmetic is done on \<open>struct nlmsghdr *\<close>, in steps
  of sixteen bytes.
\<close>

definition sancus_nl_msg_next :: "byte list \<Rightarrow> nat \<Rightarrow> int \<Rightarrow> (nat \<times> int) exec" where
  "sancus_nl_msg_next m nlh len =
     ebind (nlmsg_len m nlh) (\<lambda>l.
       let a = unat (SANCUS_NL_ALIGN l) in
       chk Signed_Overflow (INT_MIN \<le> len - int a) (Inr (nlh + 16 * a, len - int a)))"

definition sancus_nl_msg_portid_ok :: "byte list \<Rightarrow> nat \<Rightarrow> nat \<Rightarrow> bool exec" where
  "sancus_nl_msg_portid_ok m nlh portid =
     ebind (nlmsg_pid m nlh) (\<lambda>pid. Inr (if pid \<noteq> 0 \<and> portid \<noteq> 0 then pid = portid else True))"

definition sancus_nl_msg_get_payload :: "nat \<Rightarrow> nat" where
  "sancus_nl_msg_get_payload nlh = nlh + SANCUS_NL_MSG_HDRLEN"

definition sancus_nl_msg_get_payload_offset :: "nat \<Rightarrow> nat \<Rightarrow> nat" where
  "sancus_nl_msg_get_payload_offset nlh offset =
     nlh + SANCUS_NL_MSG_HDRLEN + unat (SANCUS_NL_ALIGN offset)"

definition sancus_nl_msg_get_payload_tail :: "byte list \<Rightarrow> nat \<Rightarrow> nat exec" where
  "sancus_nl_msg_get_payload_tail m nlh =
     ebind (nlmsg_len m nlh) (\<lambda>l. Inr (nlh + unat (SANCUS_NL_ALIGN l)))"

definition sancus_nl_msg_put_header :: "byte list \<Rightarrow> nat \<Rightarrow> (nat \<times> byte list) exec" where
  "sancus_nl_msg_put_header m buf =
     (let len = unat (SANCUS_NL_ALIGN 16) in
      ebind (mem_put buf (replicate len 0) m) (\<lambda>m.
      ebind (put_le 4 m buf len) (\<lambda>m. Inr (buf, m))))"

definition sancus_nl_msg_put_extra_header :: "byte list \<Rightarrow> nat \<Rightarrow> nat \<Rightarrow> (nat \<times> byte list) exec" where
  "sancus_nl_msg_put_extra_header m nlh sz =
     ebind (nlmsg_len m nlh) (\<lambda>l.
       let ptr = nlh + l; len = unat (SANCUS_NL_ALIGN sz) in
       ebind (mem_put ptr (replicate len 0) m) (\<lambda>m.
       ebind (nlmsg_len m nlh) (\<lambda>l.
       ebind (put_le 4 m nlh ((l + len) mod 2 ^ 32)) (\<lambda>m.
         Inr (ptr, m)))))"

subsection \<open>A message being built\<close>

text \<open>
  The message at \<open>nlh\<close> in a buffer of \<open>buflen\<close> bytes: its length counts the header, is a multiple of
  four below the limit of the alignment mask, and stays in the buffer.
\<close>

definition msg_wf :: "byte list \<Rightarrow> nat \<Rightarrow> nat \<Rightarrow> nat \<Rightarrow> bool" where
  "msg_wf m nlh buflen l \<longleftrightarrow> nlmsg_len m nlh = Inr l \<and> 16 \<le> l \<and> 4 dvd l \<and> l < 65536 \<and>
     l \<le> buflen \<and> nlh + buflen \<le> length m"

lemma msg_wfD:
  assumes "msg_wf m nlh buflen l"
  shows "nlmsg_len m nlh = Inr l" "16 \<le> l" "4 dvd l" "l < 65536" "l \<le> buflen" "nlh + buflen \<le> length m"
  using assms by (simp_all add: msg_wf_def)

lemma ALIGN_msg: "4 dvd l \<Longrightarrow> l < 65536 \<Longrightarrow> unat (SANCUS_NL_ALIGN l) = l"
  by (simp add: unat_ALIGN align4_dvd)

lemma msg_tail: "msg_wf m nlh buflen l \<Longrightarrow> sancus_nl_msg_get_payload_tail m nlh = Inr (nlh + l)"
  using ALIGN_msg msg_wfD [of m nlh buflen l] by (simp add: sancus_nl_msg_get_payload_tail_def)

lemma put_header_wf:
  assumes "16 \<le> buflen" and "nlh + buflen \<le> length m"
  shows "\<exists>m'. sancus_nl_msg_put_header m nlh = Inr (nlh, m') \<and> msg_wf m' nlh buflen 16 \<and>
    length m' = length m"
proof -
  have a: "unat (SANCUS_NL_ALIGN 16) = 16" by (simp add: ALIGN_msg)
  let ?m = "overwrite nlh (replicate 16 0) m"
  have l: "length ?m = length m" using assms by simp
  have "sancus_nl_msg_put_header m nlh = Inr (nlh, overwrite nlh (le_enc 4 16) ?m)"
    unfolding sancus_nl_msg_put_header_def a using assms l by (simp add: Let_def)
  moreover have "nlmsg_len (overwrite nlh (le_enc 4 16) ?m) nlh = Inr 16"
    unfolding nlmsg_len_def using assms l by (intro get_le_same) simp_all
  ultimately show ?thesis using assms l by (simp add: msg_wf_def)
qed

lemma put_extra_header_wf:
  assumes "msg_wf m nlh buflen l" and "l + align4 sz \<le> buflen" and "l + align4 sz < 65536"
  shows "\<exists>m'. sancus_nl_msg_put_extra_header m nlh sz = Inr (nlh + l, m') \<and>
    msg_wf m' nlh buflen (l + align4 sz) \<and> length m' = length m \<and>
    mem_get (nlh + l) (align4 sz) m' = Inr (replicate (align4 sz) 0)"
proof -
  note wf = msg_wfD [OF assms(1)]
  have "sz \<le> 65532" using align4_bounds(1) [of sz] assms(3) wf(2) by linarith
  then have a: "unat (SANCUS_NL_ALIGN sz) = align4 sz" by (rule unat_ALIGN_small)
  let ?z = "replicate (align4 sz) 0" and ?l = "l + align4 sz"
  let ?m = "overwrite (nlh + l) ?z m"
  let ?m' = "overwrite nlh (le_enc 4 ?l) ?m"
  have fit: "nlh + l + length ?z \<le> length m" using wf(6) assms(2) by simp
  have len: "length ?m = length m" using fit by simp
  have r: "nlmsg_len ?m nlh = Inr l"
    using wf(1,2) fit by (simp add: nlmsg_len_def get_le_disjoint)
  have "sancus_nl_msg_put_extra_header m nlh sz = Inr (nlh + l, ?m')"
    unfolding sancus_nl_msg_put_extra_header_def Let_def a
    using wf fit len r assms(3) by simp
  moreover have "nlmsg_len ?m' nlh = Inr ?l"
    unfolding nlmsg_len_def using wf(2,5,6) len assms(3) by (intro get_le_same) simp_all
  moreover have "mem_get (nlh + l) (align4 sz) ?m' = Inr ?z"
    using wf(2,5,6) len fit by (simp add: window_overwrite_before window_overwrite_same)
  moreover have "length ?m' = length m" using wf(2,5,6) len by simp
  moreover have "4 dvd ?l" using wf(3) align4_bounds(3) [of sz] by simp
  ultimately show ?thesis using assms wf(2,6) by (simp add: msg_wf_def)
qed

lemma msg_ok_iff:
  assumes "nlmsg_len m nlh = Inr l" and "0 \<le> len" and "len \<le> INT_MAX"
  shows "sancus_nl_msg_ok m nlh len = Inr (16 \<le> len \<and> 16 \<le> l \<and> (int l \<le> len \<or> 2 ^ 31 \<le> l))"
proof -
  have l: "l < 2 ^ 32" using get_le_bound [of 4 m nlh l] assms(1) by (simp add: nlmsg_len_def)
  show ?thesis
  proof (cases "l < 2 ^ 31")
    case True
    then have "int_cast (int l) = int l" by (intro int_cast_id) simp_all
    with True show ?thesis using assms(1) by (auto simp: sancus_nl_msg_ok_def)
  next
    case False
    have "int_cast (int l) = int_cast (int l - 2 ^ 32)"
    proof -
      have "take_bit (Suc 31) (int l) = take_bit (Suc 31) (int l - 2 ^ 32)"
        by (simp add: take_bit_eq_mod)
      then show ?thesis by (simp only: int_cast_def signed_take_bit_eq_iff_take_bit_eq)
    qed
    moreover have "int_cast (int l - 2 ^ 32) = int l - 2 ^ 32"
      using False l by (intro int_cast_id) simp_all
    ultimately show ?thesis using assms False l by (simp add: sancus_nl_msg_ok_def)
  qed
qed

subsection \<open>Properties\<close>

text \<open>
  \<open>SANCUS_NL_ALIGN\<close> rounds up to a multiple of four up to 65532 and only there: the mask keeps
  sixteen bits, so that the result of every length is the rounded one modulo 65536, and the three
  largest 16-bit lengths give zero.
\<close>

theorem nl_align_spec:
  "unat (SANCUS_NL_ALIGN n) = 4 * ((n + 3) div 4) mod 65536 \<and>
   (n \<le> 65532 \<longrightarrow> n \<le> unat (SANCUS_NL_ALIGN n) \<and> unat (SANCUS_NL_ALIGN n) < n + 4) \<and>
   (65533 \<le> n \<and> n \<le> 65535 \<longrightarrow> SANCUS_NL_ALIGN n = 0)"
proof (intro conjI impI)
  show "unat (SANCUS_NL_ALIGN n) = 4 * ((n + 3) div 4) mod 65536"
    by (simp only: unat_ALIGN align4_def)
  show "n \<le> 65532 \<Longrightarrow> n \<le> unat (SANCUS_NL_ALIGN n)"
       "n \<le> 65532 \<Longrightarrow> unat (SANCUS_NL_ALIGN n) < n + 4"
    using align4_bounds [of n] by (simp_all only: unat_ALIGN_small)
  assume "65533 \<le> n \<and> n \<le> 65535"
  then have "(n + 3) div 4 = 16384" by (intro div_nat_eqI) simp_all
  then have "unat (SANCUS_NL_ALIGN n) = 0" by (simp add: unat_ALIGN align4_def)
  then show "SANCUS_NL_ALIGN n = 0" by (simp only: unat_eq_zero)
qed

theorem nl_align_spec_witness:
  "5 \<le> unat (SANCUS_NL_ALIGN 5) \<and> unat (SANCUS_NL_ALIGN 5) < 9 \<and> SANCUS_NL_ALIGN 65534 = 0"
  using nl_align_spec [of 5] nl_align_spec [of 65534] by simp

text \<open>
  \<open>sancus_nl_msg_ok\<close> accepts what the length field says when it counts a header and fits, and also
  every length of \<open>2\<^sup>3\<^sup>1\<close> or more, which the conversion to \<open>int\<close> makes negative.
\<close>

theorem nl_msg_ok_spec:
  assumes "nlmsg_len m nlh = Inr l" and "0 \<le> len" and "len \<le> INT_MAX"
  shows "sancus_nl_msg_ok m nlh len = Inr (16 \<le> len \<and> 16 \<le> l \<and> (int l \<le> len \<or> 2 ^ 31 \<le> l))"
  using assms by (rule msg_ok_iff)

theorem nl_msg_ok_spec_witness:
  "sancus_nl_msg_ok [16, 0, 0, 128, 0, 0, 0, 0, 0, 0, 0, 0, 0, 0, 0, 0] 0 16 = Inr True"
  using nl_msg_ok_spec [of "[16, 0, 0, 128, 0, 0, 0, 0, 0, 0, 0, 0, 0, 0, 0, 0]" 0 "2147483664" 16]
  by (simp add: nlmsg_len_def get_le_def)

text \<open>
  \<open>sancus_nl_msg_next\<close> takes the aligned length off the remaining count but moves the pointer
  sixteen times as far: behind a message of at least sixteen bytes the pointer lies beyond the next
  message, past the buffer once the count reaches it.
\<close>

theorem nl_msg_next_overshoots:
  assumes "nlmsg_len m nlh = Inr l" and "16 \<le> l" and "l \<le> 65532" and "int (align4 l) \<le> len" and "len \<le> INT_MAX"
  shows "\<exists>p len'. sancus_nl_msg_next m nlh len = Inr (p, len') \<and> len' = len - int (align4 l) \<and>
    p = nlh + 16 * align4 l \<and> nlh + align4 l + 240 \<le> p"
  unfolding sancus_nl_msg_next_def assms(1) ebind_Inr Let_def unat_ALIGN_small [OF assms(3)]
  using assms(2-5) align4_bounds(1) [of l] by simp

theorem nl_msg_next_overshoots_witness:
  "\<exists>p. sancus_nl_msg_next [16, 0, 0, 0, 3, 0, 0, 0] 0 32 = Inr (p, 16) \<and> 256 \<le> p"
proof -
  have "nlmsg_len [16, 0, 0, 0, 3, 0, 0, 0] 0 = Inr 16"
    by (simp add: nlmsg_len_def get_le_def)
  from nl_msg_next_overshoots [OF this, of 32] show ?thesis by (auto simp: align4_def)
qed

end
