(* ===== verification/Netlink_Attr.thy ===== *)
theory Netlink_Attr
  imports Netlink_Msg Types
begin

text \<open>
  Netlink attributes, \<^verbatim>\<open>src/netlink/netlink_attr.c\<close>. An attribute is a place in the block of its
  message (\<open>struct nlattr\<close>: length at 0, type at 2, four bytes, then the payload, padded to a multiple
  of four). A call that fails returns \<open>-1\<close> and sets \<open>errno\<close>; here \<open>errno\<close> is the second result.
\<close>

subsection \<open>Reading an attribute\<close>

definition SANCUS_NL_ATTR_HDRLEN :: nat where
  "SANCUS_NL_ATTR_HDRLEN = unat (SANCUS_NL_ALIGN 4)"

definition nla_len :: "byte list \<Rightarrow> nat \<Rightarrow> nat exec" where
  "nla_len m attr = get_le 2 m attr"

definition nla_type :: "byte list \<Rightarrow> nat \<Rightarrow> nat exec" where
  "nla_type m attr = get_le 2 m (attr + 2)"

text \<open>\<open>NLA_TYPE_MASK\<close> keeps the low fourteen bits.\<close>

definition sancus_nl_attr_get_type :: "byte list \<Rightarrow> nat \<Rightarrow> nat exec" where
  "sancus_nl_attr_get_type m attr = ebind (nla_type m attr) (\<lambda>t. Inr (t AND 0x3fff))"

definition sancus_nl_attr_get_len :: "byte list \<Rightarrow> nat \<Rightarrow> nat exec" where
  "sancus_nl_attr_get_len m attr = nla_len m attr"

definition sancus_nl_attr_get_payload_len :: "byte list \<Rightarrow> nat \<Rightarrow> u16 exec" where
  "sancus_nl_attr_get_payload_len m attr =
     ebind (nla_len m attr) (\<lambda>l. Inr (word_of_nat l - word_of_nat SANCUS_NL_ATTR_HDRLEN))"

definition sancus_nl_attr_get_payload :: "nat \<Rightarrow> nat" where
  "sancus_nl_attr_get_payload attr = attr + SANCUS_NL_ATTR_HDRLEN"

definition sancus_nl_attr_ok :: "byte list \<Rightarrow> nat \<Rightarrow> int \<Rightarrow> bool exec" where
  "sancus_nl_attr_ok m attr len =
     (if len \<ge> 4 then ebind (nla_len m attr) (\<lambda>l. Inr (l \<ge> 4 \<and> int l \<le> len)) else Inr False)"

definition sancus_nl_attr_next :: "byte list \<Rightarrow> nat \<Rightarrow> nat exec" where
  "sancus_nl_attr_next m attr = ebind (nla_len m attr) (\<lambda>l. Inr (attr + unat (SANCUS_NL_ALIGN l)))"

definition sancus_nl_attr_type_valid :: "byte list \<Rightarrow> nat \<Rightarrow> nat \<Rightarrow> (int \<times> int option) exec" where
  "sancus_nl_attr_type_valid m attr max_type =
     ebind (sancus_nl_attr_get_type m attr) (\<lambda>t.
       Inr (if t > max_type then (-1, Some EOPNOTSUPP) else (1, None)))"

definition sancus_nl_attr_get_u8 :: "byte list \<Rightarrow> nat \<Rightarrow> nat exec" where
  "sancus_nl_attr_get_u8 m attr = get_le 1 m (sancus_nl_attr_get_payload attr)"

definition sancus_nl_attr_get_u16 :: "byte list \<Rightarrow> nat \<Rightarrow> nat exec" where
  "sancus_nl_attr_get_u16 m attr = get_le 2 m (sancus_nl_attr_get_payload attr)"

definition sancus_nl_attr_get_u32 :: "byte list \<Rightarrow> nat \<Rightarrow> nat exec" where
  "sancus_nl_attr_get_u32 m attr = get_le 4 m (sancus_nl_attr_get_payload attr)"

definition sancus_nl_attr_get_u64 :: "byte list \<Rightarrow> nat \<Rightarrow> nat exec" where
  "sancus_nl_attr_get_u64 m attr = get_le 8 m (sancus_nl_attr_get_payload attr)"

definition sancus_nl_attr_get_string :: "nat \<Rightarrow> nat" where
  "sancus_nl_attr_get_string attr = sancus_nl_attr_get_payload attr"

subsection \<open>Validation\<close>

datatype sancus_nl_attr_data_type =
    SANCUS_NL_ATTR_TYPE_UNSPEC
  | SANCUS_NL_ATTR_TYPE_U8
  | SANCUS_NL_ATTR_TYPE_U16
  | SANCUS_NL_ATTR_TYPE_U32
  | SANCUS_NL_ATTR_TYPE_U64
  | SANCUS_NL_ATTR_TYPE_STRING
  | SANCUS_NL_ATTR_TYPE_FLAG
  | SANCUS_NL_ATTR_TYPE_MSECS
  | SANCUS_NL_ATTR_TYPE_NESTED
  | SANCUS_NL_ATTR_TYPE_NESTED_COMPAT
  | SANCUS_NL_ATTR_TYPE_NUL_STRING
  | SANCUS_NL_ATTR_TYPE_BINARY
  | SANCUS_NL_ATTR_TYPE_MAX

fun sancus_nl_attr_data_type_minlen :: "sancus_nl_attr_data_type \<Rightarrow> nat" where
  "sancus_nl_attr_data_type_minlen SANCUS_NL_ATTR_TYPE_U8 = 1"
| "sancus_nl_attr_data_type_minlen SANCUS_NL_ATTR_TYPE_U16 = 2"
| "sancus_nl_attr_data_type_minlen SANCUS_NL_ATTR_TYPE_U32 = 4"
| "sancus_nl_attr_data_type_minlen SANCUS_NL_ATTR_TYPE_U64 = 8"
| "sancus_nl_attr_data_type_minlen SANCUS_NL_ATTR_TYPE_STRING = 1"
| "sancus_nl_attr_data_type_minlen SANCUS_NL_ATTR_TYPE_NUL_STRING = 1"
| "sancus_nl_attr_data_type_minlen _ = 0"

definition validate_attr ::
  "byte list \<Rightarrow> nat \<Rightarrow> sancus_nl_attr_data_type \<Rightarrow> nat \<Rightarrow> (int \<times> int option) exec" where
  "validate_attr m attr type expected_len =
     ebind (sancus_nl_attr_get_payload_len m attr) (\<lambda>w.
       let len = unat w; payload = sancus_nl_attr_get_payload attr in
       if len < expected_len then Inr (-1, Some ERANGE)
       else case type of
         SANCUS_NL_ATTR_TYPE_FLAG \<Rightarrow> Inr (if len > 0 then (-1, Some ERANGE) else (0, None))
       | SANCUS_NL_ATTR_TYPE_STRING \<Rightarrow> Inr (if len = 0 then (-1, Some ERANGE) else (0, None))
       | SANCUS_NL_ATTR_TYPE_NUL_STRING \<Rightarrow>
           if len = 0 then Inr (-1, Some ERANGE)
           else ebind (mem_get (payload + (len - 1)) 1 m) (\<lambda>c.
             Inr (if c \<noteq> [0] then (-1, Some EINVAL) else (0, None)))
       | SANCUS_NL_ATTR_TYPE_NESTED \<Rightarrow>
           Inr (if len = 0 then (0, None)
                else if len < SANCUS_NL_ATTR_HDRLEN then (-1, Some ERANGE) else (0, None))
       | _ \<Rightarrow> Inr (0, None))"

definition sancus_nl_attr_validate_minlen ::
  "byte list \<Rightarrow> nat \<Rightarrow> sancus_nl_attr_data_type \<Rightarrow> (int \<times> int option) exec" where
  "sancus_nl_attr_validate_minlen m attr type =
     (if type = SANCUS_NL_ATTR_TYPE_MAX then Inr (-1, Some EINVAL)
      else validate_attr m attr type (sancus_nl_attr_data_type_minlen type))"

definition sancus_nl_attr_validate_explen ::
  "byte list \<Rightarrow> nat \<Rightarrow> sancus_nl_attr_data_type \<Rightarrow> nat \<Rightarrow> (int \<times> int option) exec" where
  "sancus_nl_attr_validate_explen m attr type explen =
     (if type = SANCUS_NL_ATTR_TYPE_MAX then Inr (-1, Some EINVAL)
      else validate_attr m attr type explen)"

subsection \<open>Iterating\<close>

text \<open>
  The loop of \<open>sancus_nl_attr_parse\<close> under \<open>sancus_nl_attr_foreach\<close>. The callback is an argument: it
  gets the attribute and its own data. \<open>None\<close> is a loop that does not end; the message is constant, so
  its tail is computed once.
\<close>

abbreviation (input) SANCUS_NL_CB_ERROR :: int where "SANCUS_NL_CB_ERROR \<equiv> - 1"
abbreviation (input) SANCUS_NL_CB_STOP :: int where "SANCUS_NL_CB_STOP \<equiv> 0"
abbreviation (input) SANCUS_NL_CB_OK :: int where "SANCUS_NL_CB_OK \<equiv> 1"

partial_function (option) parse_loop ::
  "byte list \<Rightarrow> nat \<Rightarrow> (nat \<Rightarrow> 's \<Rightarrow> (int \<times> 's) exec) \<Rightarrow> nat \<Rightarrow> int \<Rightarrow> 's \<Rightarrow> (int \<times> 's) exec option" where
  "parse_loop m tail cb attr ret s =
     (case sancus_nl_attr_ok m attr (int_cast (int tail - int attr)) of
        Inl e \<Rightarrow> Some (Inl e)
      | Inr ok \<Rightarrow>
          if \<not> ok then Some (Inr (ret, s))
          else case cb attr s of
            Inl e \<Rightarrow> Some (Inl e)
          | Inr r \<Rightarrow>
              if fst r \<le> SANCUS_NL_CB_STOP then Some (Inr r)
              else case sancus_nl_attr_next m attr of
                Inl e \<Rightarrow> Some (Inl e)
              | Inr a \<Rightarrow> parse_loop m tail cb a (fst r) (snd r))"

definition sancus_nl_attr_parse ::
  "byte list \<Rightarrow> nat \<Rightarrow> nat \<Rightarrow> (nat \<Rightarrow> 's \<Rightarrow> (int \<times> 's) exec) \<Rightarrow> 's \<Rightarrow> (int \<times> 's) exec option" where
  "sancus_nl_attr_parse m nlh offset cb data =
     (case sancus_nl_msg_get_payload_tail m nlh of
        Inl e \<Rightarrow> Some (Inl e)
      | Inr tail \<Rightarrow> parse_loop m tail cb (sancus_nl_msg_get_payload_offset nlh offset) SANCUS_NL_CB_OK data)"

subsection \<open>Adding an attribute\<close>

text \<open>The private function \<open>__sancus_nl_attr_put_nocheck\<close>; \<open>data\<close> is the block its pointer refers to.\<close>

definition sancus_nl_attr_put_nocheck :: "byte list \<Rightarrow> nat \<Rightarrow> nat \<Rightarrow> nat \<Rightarrow> byte list \<Rightarrow> byte list exec" where
  "sancus_nl_attr_put_nocheck m nlh type len data =
     ebind (sancus_nl_msg_get_payload_tail m nlh) (\<lambda>attr.
       let payload_len = unat (SANCUS_NL_ALIGN 4) + len in
       ebind (put_le 2 m (attr + 2) type) (\<lambda>m.
       ebind (put_le 2 m attr (payload_len mod 2 ^ 16)) (\<lambda>m.
       ebind (mem_get 0 len data) (\<lambda>x.
       ebind (mem_put (sancus_nl_attr_get_payload attr) x m) (\<lambda>m.
       ebind (nlmsg_len m nlh) (\<lambda>l.
         put_le 4 m nlh ((l + unat (SANCUS_NL_ALIGN payload_len)) mod 2 ^ 32)))))))"

text \<open>\<open>__sancus_nl_attr_put_check\<close>: the sum is computed in \<open>unsigned\<close>.\<close>

definition sancus_nl_attr_put_check ::
  "byte list \<Rightarrow> nat \<Rightarrow> nat \<Rightarrow> nat \<Rightarrow> nat \<Rightarrow> byte list \<Rightarrow> (bool \<times> byte list) exec" where
  "sancus_nl_attr_put_check m nlh buflen type len data =
     ebind (nlmsg_len m nlh) (\<lambda>l.
       if (l + SANCUS_NL_ATTR_HDRLEN + unat (SANCUS_NL_ALIGN len)) mod 2 ^ 32 > buflen then Inr (False, m)
       else ebind (sancus_nl_attr_put_nocheck m nlh type len data) (\<lambda>m. Inr (True, m)))"

text \<open>
  \<open>sancus_nl_attr_put\<close> passes the address of its own pointer argument: what it stores are the eight
  bytes of the pointer \<open>ptr\<close>, not the data it points to.
\<close>

definition sancus_nl_attr_put ::
  "byte list \<Rightarrow> nat \<Rightarrow> nat \<Rightarrow> nat \<Rightarrow> nat \<Rightarrow> u64 \<Rightarrow> (bool \<times> byte list) exec" where
  "sancus_nl_attr_put m nlh buflen type len ptr =
     sancus_nl_attr_put_check m nlh buflen type len (le_enc 8 (unat ptr))"

definition sancus_nl_attr_put_u8 :: "byte list \<Rightarrow> nat \<Rightarrow> nat \<Rightarrow> nat \<Rightarrow> byte \<Rightarrow> (bool \<times> byte list) exec" where
  "sancus_nl_attr_put_u8 m nlh buflen type data =
     sancus_nl_attr_put_check m nlh buflen type 1 (le_enc 1 (unat data))"

definition sancus_nl_attr_put_u16 :: "byte list \<Rightarrow> nat \<Rightarrow> nat \<Rightarrow> nat \<Rightarrow> u16 \<Rightarrow> (bool \<times> byte list) exec" where
  "sancus_nl_attr_put_u16 m nlh buflen type data =
     sancus_nl_attr_put_check m nlh buflen type 2 (le_enc 2 (unat data))"

definition sancus_nl_attr_put_u32 :: "byte list \<Rightarrow> nat \<Rightarrow> nat \<Rightarrow> nat \<Rightarrow> u32 \<Rightarrow> (bool \<times> byte list) exec" where
  "sancus_nl_attr_put_u32 m nlh buflen type data =
     sancus_nl_attr_put_check m nlh buflen type 4 (le_enc 4 (unat data))"

definition sancus_nl_attr_put_u64 :: "byte list \<Rightarrow> nat \<Rightarrow> nat \<Rightarrow> nat \<Rightarrow> u64 \<Rightarrow> (bool \<times> byte list) exec" where
  "sancus_nl_attr_put_u64 m nlh buflen type data =
     sancus_nl_attr_put_check m nlh buflen type 8 (le_enc 8 (unat data))"

definition sancus_nl_attr_put_string ::
  "byte list \<Rightarrow> nat \<Rightarrow> nat \<Rightarrow> nat \<Rightarrow> byte list \<Rightarrow> (bool \<times> byte list) exec" where
  "sancus_nl_attr_put_string m nlh buflen type data =
     ebind (strlen data) (\<lambda>n. ebind (sancus_u16zu (word_of_nat n)) (\<lambda>l.
       sancus_nl_attr_put_check m nlh buflen type (unat l) data))"

definition sancus_nl_attr_put_nul_string ::
  "byte list \<Rightarrow> nat \<Rightarrow> nat \<Rightarrow> nat \<Rightarrow> byte list \<Rightarrow> (bool \<times> byte list) exec" where
  "sancus_nl_attr_put_nul_string m nlh buflen type data =
     ebind (strlen data) (\<lambda>n. ebind (sancus_u16zu (word_of_nat (n + 1))) (\<lambda>l.
       sancus_nl_attr_put_check m nlh buflen type (unat l) data))"

subsection \<open>The attributes of a message\<close>

lemma ATTR_HDRLEN [simp]: "SANCUS_NL_ATTR_HDRLEN = 4"
  unfolding SANCUS_NL_ATTR_HDRLEN_def by (simp add: ALIGN_msg)

text \<open>The attributes stored between two places of a block, each with its type and payload.\<close>

fun attrs_at :: "byte list \<Rightarrow> nat \<Rightarrow> nat \<Rightarrow> (nat \<times> byte list) list \<Rightarrow> bool" where
  "attrs_at m a e [] \<longleftrightarrow> a = e"
| "attrs_at m a e ((t, d) # as) \<longleftrightarrow>
     nla_len m a = Inr (4 + length d) \<and> nla_type m a = Inr t \<and> mem_get (a + 4) (length d) m = Inr d \<and>
     attrs_at m (a + align4 (4 + length d)) e as"

lemma attrs_at_le: "attrs_at m a e as \<Longrightarrow> a \<le> e"
  by (induction m a e as rule: attrs_at.induct) auto

lemma attrs_at_append:
  "attrs_at m a e as \<Longrightarrow> attrs_at m e e' bs \<Longrightarrow> attrs_at m a e' (as @ bs)"
  by (induction m a e as rule: attrs_at.induct) auto

lemma attrs_at_frame:
  assumes "attrs_at m a e as" and "\<And>j n. a \<le> j \<Longrightarrow> j + n \<le> e \<Longrightarrow> mem_get j n m' = mem_get j n m"
  shows "attrs_at m' a e as"
  using assms
proof (induction m a e as rule: attrs_at.induct)
  case (2 m a e t d as)
  have "a + align4 (4 + length d) \<le> e" 
    using 2(2) attrs_at_le [of m "a + align4 (4 + length d)" e as] by simp
  then have fit: "a + 4 + length d \<le> e" using align4_bounds(1) [of "4 + length d"] by linarith
  have "nla_len m' a = nla_len m a" "nla_type m' a = nla_type m a"
      "mem_get (a + 4) (length d) m' = mem_get (a + 4) (length d) m"
    using 2(3) fit by (simp_all add: nla_len_def nla_type_def get_le_def)
  moreover have "attrs_at m' (a + align4 (4 + length d)) e as"
    using 2(2,3) by (intro 2(1)) auto
  ultimately show ?case using 2(2) by simp
qed simp

lemma attr_at_parts:
  assumes "attrs_at m a e ((t, d) # as)"
  shows "nla_len m a = Inr (4 + length d)" "nla_type m a = Inr t" "mem_get (a + 4) (length d) m = Inr d"
    "attrs_at m (a + align4 (4 + length d)) e as" "a + align4 (4 + length d) \<le> e"
    "4 + length d < 65536"
  using assms attrs_at_le get_le_bound [of 2 m a "4 + length d"] by (auto simp: nla_len_def)

subsection \<open>Parsing ends\<close>

lemma int_cast_diff: "a \<le> tail + 65548 \<Longrightarrow> tail \<le> a + 65532 \<Longrightarrow> int_cast (int tail - int a) = int tail - int a"
  by (intro int_cast_id) linarith+

lemma parse_loop_ends:
  assumes "a \<le> tail + 65548" and "tail \<le> a + 65532"
  shows "\<exists>r. parse_loop m tail cb a ret s = Some r"
  using assms
proof (induction "tail - a" arbitrary: a ret s rule: less_induct)
  case less
  note len = int_cast_diff [OF less.prems]
  show ?case
  proof (cases "sancus_nl_attr_ok m a (int tail - int a)")
    case (Inr ok)
    show ?thesis
    proof (cases ok)
      case True
      then obtain l where l: "nla_len m a = Inr l" "4 \<le> l" "a + l \<le> tail"
        using Inr by (auto simp: sancus_nl_attr_ok_def ebind_eq_Inr split: if_splits)
      then have "l \<le> 65532" using less.prems by linarith
      then have nx: "sancus_nl_attr_next m a = Inr (a + align4 l)"
        using l(1) by (simp add: sancus_nl_attr_next_def unat_ALIGN_small)
      have "4 \<le> align4 l" "align4 l < l + 4" using align4_bounds [of l] l(2) by linarith+
      then have "tail - (a + align4 l) < tail - a" "a + align4 l \<le> tail + 65548"
          "tail \<le> a + align4 l + 65532"
        using l less.prems by linarith+
      from less.hyps [OF this] show ?thesis
        using Inr True nx len
        by (subst parse_loop.simps) (auto split: sum.split)
    qed (use Inr len in \<open>subst parse_loop.simps, simp\<close>)
  qed (use len in \<open>subst parse_loop.simps, simp\<close>)
qed

text \<open>What the loop does on well-formed attributes: the callback at each place, until it stops.\<close>

fun visit_attrs ::
  "(nat \<Rightarrow> 's \<Rightarrow> (int \<times> 's) exec) \<Rightarrow> nat \<Rightarrow> (nat \<times> byte list) list \<Rightarrow> int \<Rightarrow> 's \<Rightarrow> (int \<times> 's) exec" where
  "visit_attrs cb a [] ret s = Inr (ret, s)"
| "visit_attrs cb a ((t, d) # as) ret s =
     ebind (cb a s) (\<lambda>r. if fst r \<le> 0 then Inr r
       else visit_attrs cb (a + align4 (4 + length d)) as (fst r) (snd r))"

lemma parse_loop_visits:
  assumes "attrs_at m a tail as" and "tail \<le> a + 65532"
  shows "parse_loop m tail cb a ret s = Some (visit_attrs cb a as ret s)"
  using assms
proof (induction as arbitrary: a ret s)
  case Nil
  then show ?case by (subst parse_loop.simps) (simp add: sancus_nl_attr_ok_def)
next
  case (Cons p as)
  obtain t d where p: "p = (t, d)" by (cases p)
  note parts = attr_at_parts [OF Cons.prems(1) [unfolded p]]
  have al: "unat (SANCUS_NL_ALIGN (4 + length d)) = align4 (4 + length d)"
    using parts(5) Cons.prems(2) align4_bounds(1) [of "4 + length d"] by (intro unat_ALIGN_small) linarith
  have fit: "a + (4 + length d) \<le> tail" using parts(5) align4_bounds(1) [of "4 + length d"] by linarith
  then have "int_cast (int tail - int a) = int tail - int a"
    using Cons.prems(2) by (intro int_cast_diff) linarith+
  moreover have "sancus_nl_attr_ok m a (int tail - int a) = Inr True"
    using parts(1) fit by (simp add: sancus_nl_attr_ok_def)
  moreover have "sancus_nl_attr_next m a = Inr (a + align4 (4 + length d))"
    using parts(1) al by (simp add: sancus_nl_attr_next_def)
  moreover have "tail \<le> a + align4 (4 + length d) + 65532" using Cons.prems(2) by linarith
  note Cons.IH [OF parts(4) this]
  ultimately show ?case
    using p by (subst parse_loop.simps) (auto split: sum.split)
qed

subsection \<open>Putting and collecting\<close>

lemma align4_hdr: "align4 (4 + n) = 4 + align4 n"
  unfolding align4_def by presburger

text \<open>The block after one attribute of type \<open>t\<close> and payload \<open>x\<close> was stored at \<open>a\<close>.\<close>

lemma attr_stored:
  assumes "a + 4 + length x \<le> length m" and "t < 65536" and "4 + length x < 65536"
  defines "m' \<equiv> overwrite (a + 4) x (overwrite a (le_enc 2 (4 + length x)) (overwrite (a + 2) (le_enc 2 t) m))"
  shows "nla_len m' a = Inr (4 + length x)" and "nla_type m' a = Inr t"
    and "mem_get (a + 4) (length x) m' = Inr x" and "length m' = length m"
    and "j + n \<le> a \<Longrightarrow> mem_get j n m' = mem_get j n m"
proof -
  let ?m1 = "overwrite (a + 2) (le_enc 2 t) m"
  let ?m2 = "overwrite a (le_enc 2 (4 + length x)) ?m1"
  have l: "length ?m1 = length m" "length ?m2 = length m" using assms(1) by simp_all
  show "length m' = length m" using assms(1) l by (simp add: m'_def)
  have "get_le 2 m' a = get_le 2 ?m2 a"
    unfolding m'_def using assms(1) l by (intro get_le_disjoint) simp_all
  also have "\<dots> = Inr (4 + length x)"
    using assms(1,3) l by (intro get_le_same) simp_all
  finally show "nla_len m' a = Inr (4 + length x)" by (simp add: nla_len_def)
  have "get_le 2 m' (a + 2) = get_le 2 ?m2 (a + 2)"
    unfolding m'_def using assms(1) l by (intro get_le_disjoint) simp_all
  also have "\<dots> = get_le 2 ?m1 (a + 2)"
    using assms(1) l by (intro get_le_disjoint) simp_all
  also have "\<dots> = Inr t" using assms(1,2) by (intro get_le_same) simp_all
  finally show "nla_type m' a = Inr t" by (simp add: nla_type_def)
  show "mem_get (a + 4) (length x) m' = Inr x"
    unfolding m'_def using assms(1) l by (intro mem_get_same) simp_all
  assume j: "j + n \<le> a"
  have "mem_get j n m' = mem_get j n ?m2"
    unfolding m'_def using assms(1) l j by (intro mem_get_disjoint) simp_all
  also have "\<dots> = mem_get j n ?m1" using assms(1) l j by (intro mem_get_disjoint) simp_all
  also have "\<dots> = mem_get j n m" using assms(1) j by (intro mem_get_disjoint) simp_all
  finally show "mem_get j n m' = mem_get j n m" .
qed

lemma put_nocheck_spec:
  assumes wf: "msg_wf m nlh buflen l" and fit: "l + align4 (4 + length x) \<le> buflen"
    and small: "l + align4 (4 + length x) < 65536" and t: "t < 65536"
    and old: "attrs_at m a0 (nlh + l) as" and a0: "nlh + 16 \<le> a0"
  shows "\<exists>m'. sancus_nl_attr_put_nocheck m nlh t (length x) (x @ rest) = Inr m' \<and>
    msg_wf m' nlh buflen (l + align4 (4 + length x)) \<and>
    attrs_at m' a0 (nlh + l + align4 (4 + length x)) (as @ [(t, x)]) \<and> length m' = length m \<and>
    mem_get (nlh + l + 4) (length x) m' = Inr x"
proof -
  note w = msg_wfD [OF wf]
  let ?a = "nlh + l" and ?p = "4 + length x" and ?l = "l + align4 (4 + length x)"
  have p: "?p \<le> align4 ?p" "?p < 65536" "4 dvd align4 ?p"
    using align4_bounds [of ?p] small by linarith+
  have blk: "?a + 4 + length x \<le> length m" using w(6) fit p(1) by linarith
  let ?m = "overwrite (?a + 4) x (overwrite ?a (le_enc 2 ?p) (overwrite (?a + 2) (le_enc 2 t) m))"
  note st = attr_stored [OF blk t p(2)]
  let ?m' = "overwrite nlh (le_enc 4 ?l) ?m"
  have len: "nlmsg_len ?m nlh = Inr l"
    using st(5) [of nlh 4] w(1,2) by (simp add: nlmsg_len_def get_le_def)
  have al: "unat (SANCUS_NL_ALIGN ?p) = align4 ?p" using small p(1) w(2) by (intro unat_ALIGN_small) linarith
  have "?p mod 65536 = ?p" using p(2) by simp
  then have run: "sancus_nl_attr_put_nocheck m nlh t (length x) (x @ rest) = Inr ?m'"
    using blk len st(4) al small w(2,5,6)
    by (simp add: sancus_nl_attr_put_nocheck_def msg_tail [OF wf] Let_def ALIGN_msg
        sancus_nl_attr_get_payload_def)
  have h: "nlh + 4 \<le> length ?m" using st(4) blk w(2) by simp
  have up: "mem_get j n ?m' = mem_get j n ?m" if "nlh + 4 \<le> j" for j n
    using that h by (intro mem_get_disjoint) simp_all
  have "nlmsg_len ?m' nlh = Inr ?l"
    unfolding nlmsg_len_def using h small by (intro get_le_same) simp_all
  then have "msg_wf ?m' nlh buflen ?l"
    using w st(4) h p(3) fit small by (simp add: msg_wf_def)
  moreover have "attrs_at ?m' a0 ?a as"
    using old a0 st(5) up by (intro attrs_at_frame [OF old]) simp
  moreover have "attrs_at ?m' ?a (?a + align4 ?p) [(t, x)]"
    using st(1-3) up [of ?a 2] up [of "?a + 2" 2] up [of "?a + 4" "length x"] w(2)
    by (simp add: nla_len_def nla_type_def get_le_def)
  moreover have "mem_get (?a + 4) (length x) ?m' = Inr x" using up [of "?a + 4" "length x"] st(3) w(2) by simp
  ultimately show ?thesis
    using run st(4) h attrs_at_append [of ?m' a0 ?a as "?a + align4 ?p" "[(t, x)]"]
    by (intro exI [of _ ?m']) (simp add: add.assoc)
qed

lemma put_check_spec:
  assumes wf: "msg_wf m nlh buflen l" and x: "length x \<le> 65532"
  shows "buflen < l + align4 (4 + length x) \<Longrightarrow>
      sancus_nl_attr_put_check m nlh buflen t (length x) d = Inr (False, m)"
    and "l + align4 (4 + length x) \<le> buflen \<Longrightarrow> sancus_nl_attr_put_check m nlh buflen t (length x) d =
      ebind (sancus_nl_attr_put_nocheck m nlh t (length x) d) (\<lambda>m. Inr (True, m))"
proof -
  have al: "unat (SANCUS_NL_ALIGN (length x)) = align4 (length x)" using x by (rule unat_ALIGN_small)
  have "align4 (length x) < 65536" using align4_bounds(2) [of "length x"] x by linarith
  then have "(l + 4 + align4 (length x)) mod 2 ^ 32 = l + align4 (4 + length x)"
    using msg_wfD(4) [OF wf] by (simp add: align4_hdr)
  then show "buflen < l + align4 (4 + length x) \<Longrightarrow>
      sancus_nl_attr_put_check m nlh buflen t (length x) d = Inr (False, m)"
    and "l + align4 (4 + length x) \<le> buflen \<Longrightarrow> sancus_nl_attr_put_check m nlh buflen t (length x) d =
      ebind (sancus_nl_attr_put_nocheck m nlh t (length x) d) (\<lambda>m. Inr (True, m))"
    using al msg_wfD(1) [OF wf] by (simp_all add: sancus_nl_attr_put_check_def)
qed

text \<open>Adding attributes one after the other, and collecting what a parse finds.\<close>

fun put_attrs :: "byte list \<Rightarrow> nat \<Rightarrow> nat \<Rightarrow> (nat \<times> byte list) list \<Rightarrow> (bool \<times> byte list) exec" where
  "put_attrs m nlh buflen [] = Inr (True, m)"
| "put_attrs m nlh buflen ((t, d) # as) =
     ebind (sancus_nl_attr_put_check m nlh buflen t (length d) d) (\<lambda>(ok, m).
       if ok then put_attrs m nlh buflen as else Inr (False, m))"

definition collect :: "byte list \<Rightarrow> nat \<Rightarrow> (nat \<times> byte list) list \<Rightarrow> (int \<times> (nat \<times> byte list) list) exec" where
  "collect m attr acc =
     ebind (sancus_nl_attr_get_type m attr) (\<lambda>t.
     ebind (sancus_nl_attr_get_payload_len m attr) (\<lambda>l.
     ebind (mem_get (sancus_nl_attr_get_payload attr) (unat l) m) (\<lambda>d. Inr (1, acc @ [(t, d)]))))"

definition attrs_size :: "(nat \<times> byte list) list \<Rightarrow> nat" where
  "attrs_size as = sum_list (map (\<lambda>(t, d). align4 (4 + length d)) as)"

lemma attrs_size_simps [simp]:
  "attrs_size [] = 0" "attrs_size ((t, d) # as) = align4 (4 + length d) + attrs_size as"
  by (simp_all add: attrs_size_def)

lemma put_attrs_spec:
  assumes "msg_wf m nlh buflen l" and "attrs_at m a0 (nlh + l) old" and "nlh + 16 \<le> a0"
    and "l + attrs_size as \<le> buflen" and "buflen < 65536" and "list_all (\<lambda>(t, d). t < 65536) as"
  shows "\<exists>m'. put_attrs m nlh buflen as = Inr (True, m') \<and> msg_wf m' nlh buflen (l + attrs_size as) \<and>
    attrs_at m' a0 (nlh + l + attrs_size as) (old @ as) \<and> length m' = length m"
  using assms
proof (induction as arbitrary: m l old)
  case (Cons p as)
  obtain t d where p: "p = (t, d)" by (cases p)
  let ?l = "l + align4 (4 + length d)"
  have fit: "?l \<le> buflen" and small: "?l < 65536" and t: "t < 65536" using Cons.prems p by auto
  have d: "length d \<le> 65532" using small align4_bounds(1) [of "4 + length d"] by linarith
  obtain m1 where m1: "sancus_nl_attr_put_nocheck m nlh t (length d) d = Inr m1" "msg_wf m1 nlh buflen ?l"
      "attrs_at m1 a0 (nlh + ?l) (old @ [(t, d)])" "length m1 = length m"
    using put_nocheck_spec [OF Cons.prems(1) fit small t Cons.prems(2,3), of "[]"]
    by (auto simp: add.assoc)
  have "put_attrs m nlh buflen (p # as) = put_attrs m1 nlh buflen as"
    using put_check_spec(2) [OF Cons.prems(1) d fit, of t d] m1(1) p by simp
  with Cons.IH [OF m1(2,3) Cons.prems(3)] Cons.prems(4-6) m1(4) p show ?case by (simp add: add.assoc)
qed auto

lemma mask14:
  assumes "t < 16384"
  shows "t AND 0x3fff = (t :: nat)"
proof -
  have "(0x3fff :: nat) = mask 14" by (simp add: mask_eq_exp_minus_1)
  then have "t AND 0x3fff = take_bit 14 t" by (simp only: take_bit_eq_mask)
  with assms show ?thesis by (simp add: take_bit_nat_eq_self)
qed

lemma collect_attr:
  assumes "attrs_at m a e ((t, d) # as)" and "t < 16384"
  shows "collect m a acc = Inr (1, acc @ [(t, d)])"
proof -
  note parts = attr_at_parts [OF assms(1)]
  have "unat (word_of_nat (4 + length d) :: u16) = 4 + length d"
    using parts(6) by (intro unat_of_nat_small) simp
  then have "unat (word_of_nat (4 + length d) - 4 :: u16) = length d"
    by (subst unat_minus_nat) simp_all
  with parts mask14 [OF assms(2)] show ?thesis
    by (simp add: collect_def sancus_nl_attr_get_type_def sancus_nl_attr_get_payload_len_def
        sancus_nl_attr_get_payload_def)
qed

lemma visit_collect:
  "attrs_at m a e as \<Longrightarrow> list_all (\<lambda>(t, d). t < 16384) as \<Longrightarrow>
   visit_attrs (collect m) a as 1 acc = Inr (1, acc @ as)"
proof (induction as arbitrary: a acc)
  case (Cons p as)
  obtain t d where p: "p = (t, d)" by (cases p)
  with Cons collect_attr [of m a e t d as] show ?case by simp
qed simp

lemma parse_built:
  assumes "msg_wf m nlh buflen (16 + attrs_size as)" and "attrs_at m (nlh + 16) (nlh + 16 + attrs_size as) as"
    and "list_all (\<lambda>(t, d). t < 16384) as"
  shows "sancus_nl_attr_parse m nlh 0 (collect m) [] = Some (Inr (1, as))"
proof -
  have "sancus_nl_msg_get_payload_offset nlh 0 = nlh + 16"
    by (simp add: sancus_nl_msg_get_payload_offset_def ALIGN_msg)
  moreover have "attrs_size as \<le> 65532" using msg_wfD(4) [OF assms(1)] by linarith
  ultimately show ?thesis
    using assms(2,3) msg_tail [OF assms(1)]
      parse_loop_visits [OF assms(2), of "collect m" 1 "[]"] visit_collect [OF assms(2)]
    by (simp add: sancus_nl_attr_parse_def add.assoc)
qed

lemma build_attrs:
  assumes "nlh + buflen \<le> length m" and "16 + attrs_size as \<le> buflen" and "buflen < 65536"
    and "list_all (\<lambda>(t, d). t < 16384) as"
  shows "\<exists>m1 m2. sancus_nl_msg_put_header m nlh = Inr (nlh, m1) \<and>
    put_attrs m1 nlh buflen as = Inr (True, m2) \<and> msg_wf m2 nlh buflen (16 + attrs_size as) \<and>
    attrs_at m2 (nlh + 16) (nlh + 16 + attrs_size as) as"
proof -
  obtain m1 where m1: "sancus_nl_msg_put_header m nlh = Inr (nlh, m1)" "msg_wf m1 nlh buflen 16"
    using put_header_wf [of buflen nlh m] assms(1,2) by auto
  have "list_all (\<lambda>(t, d). t < 65536) as"
    using assms(4) by (auto simp: list_all_iff)
  with put_attrs_spec [OF m1(2), of "nlh + 16" "[]" as] assms(2,3) m1(1) show ?thesis by auto
qed

subsection \<open>Properties\<close>

text \<open>
  C6. A message that is built is read back: after \<open>sancus_nl_msg_put_header\<close>, every sequence of
  attributes that fits the buffer is added, and \<open>sancus_nl_attr_parse\<close> then hands exactly these
  attributes, with their types and payloads, in order, to the callback and returns.
\<close>

theorem nl_build_parse:
  assumes "nlh + buflen \<le> length m" and "16 + attrs_size as \<le> buflen" and "buflen < 65536"
    and "list_all (\<lambda>(t, d). t < 16384) as"
  shows "\<exists>m1 m2. sancus_nl_msg_put_header m nlh = Inr (nlh, m1) \<and>
    put_attrs m1 nlh buflen as = Inr (True, m2) \<and>
    sancus_nl_attr_parse m2 nlh 0 (collect m2) [] = Some (Inr (1, as))"
  using build_attrs [OF assms] parse_built [OF _ _ assms(4)] by blast

theorem nl_build_parse_witness:
  "\<exists>m1 m2. sancus_nl_msg_put_header (replicate 40 7) 4 = Inr (4, m1) \<and>
    put_attrs m1 4 32 [(1, [9]), (2, [8, 8])] = Inr (True, m2) \<and>
    sancus_nl_attr_parse m2 4 0 (collect m2) [] = Some (Inr (1, [(1, [9]), (2, [8, 8])]))"
  by (rule nl_build_parse) (simp_all add: align4_def)

text \<open>
  Adding an attribute to a well-formed message, both ways: one that does not fit behind the
  message is refused and the block is unchanged; one that fits is stored behind the old attributes,
  which stay, and the length grows by its padded size. Nothing outside the buffer is touched.
\<close>

theorem nl_attr_put_spec:
  assumes "msg_wf m nlh buflen l" and "buflen < 65536" and "t < 65536" and "length x \<le> 65532"
    and "attrs_at m (nlh + 16) (nlh + l) as"
  shows "if buflen < l + align4 (4 + length x)
    then sancus_nl_attr_put_check m nlh buflen t (length x) (x @ rest) = Inr (False, m)
    else \<exists>m'. sancus_nl_attr_put_check m nlh buflen t (length x) (x @ rest) = Inr (True, m') \<and>
      msg_wf m' nlh buflen (l + align4 (4 + length x)) \<and> length m' = length m \<and>
      attrs_at m' (nlh + 16) (nlh + l + align4 (4 + length x)) (as @ [(t, x)])"
proof (cases "buflen < l + align4 (4 + length x)")
  case True
  with put_check_spec(1) [OF assms(1,4)] show ?thesis by simp
next
  case False
  then have "l + align4 (4 + length x) \<le> buflen" "l + align4 (4 + length x) < 65536"
    using assms(2) by simp_all
  with put_nocheck_spec [OF assms(1) _ _ assms(3,5), of x rest] put_check_spec(2) [OF assms(1,4)] False
  show ?thesis by fastforce
qed

theorem nl_attr_put_spec_witness:
  "sancus_nl_attr_put_check [16, 0, 0, 0, 0, 0, 0, 0, 0, 0, 0, 0, 0, 0, 0, 0] 0 16 1 1 [5] = Inr (False, [16, 0, 0, 0, 0, 0, 0, 0, 0, 0, 0, 0, 0, 0, 0, 0])"
proof -
  have "nlmsg_len [16, 0, 0, 0, 0, 0, 0, 0, 0, 0, 0, 0, 0, 0, 0, 0] 0 = Inr 16" by (simp add: nlmsg_len_def get_le_def)
  then have "msg_wf [16, 0, 0, 0, 0, 0, 0, 0, 0, 0, 0, 0, 0, 0, 0, 0] 0 16 16" by (simp add: msg_wf_def)
  from nl_attr_put_spec [OF this, of 1 "[5]" "[]" "[]"] show ?thesis by (simp add: align4_def)
qed

text \<open>
  C31. \<open>sancus_nl_attr_parse\<close> returns on every block, whatever the bytes of the message say: a length of
  zero or of more than is left ends the loop, and every other step moves on by at least four bytes.
\<close>

theorem nl_attr_parse_ends:
  "\<exists>r. sancus_nl_attr_parse m nlh offset cb s = Some r"
proof (cases "sancus_nl_msg_get_payload_tail m nlh")
  case (Inr tail)
  have a: "unat (SANCUS_NL_ALIGN n) \<le> 65532" for n
  proof -
    have "4 dvd unat (SANCUS_NL_ALIGN n)" unfolding unat_ALIGN align4_def by (simp add: mod_mult_right_eq dvd_mod)
    moreover have "unat (SANCUS_NL_ALIGN n) < 65536" unfolding unat_ALIGN by simp
    ultimately show ?thesis by presburger
  qed
  obtain l where "tail = nlh + unat (SANCUS_NL_ALIGN l)"
    using Inr by (auto simp: sancus_nl_msg_get_payload_tail_def ebind_eq_Inr)
  then have "sancus_nl_msg_get_payload_offset nlh offset \<le> tail + 65548"
      "tail \<le> sancus_nl_msg_get_payload_offset nlh offset + 65532"
    using a [of offset] a [of l] by (simp_all add: sancus_nl_msg_get_payload_offset_def)
  from parse_loop_ends [OF this] Inr show ?thesis by (simp add: sancus_nl_attr_parse_def)
qed (simp add: sancus_nl_attr_parse_def)

lemma put_check_value:
  assumes "msg_wf m nlh buflen l" and "buflen < 65536" and "t < 65536" and "n \<le> 8"
    and "l + align4 (4 + n) \<le> buflen" and "v < 256 ^ n" and "attrs_at m (nlh + 16) (nlh + l) as"
  shows "\<exists>m'. sancus_nl_attr_put_check m nlh buflen t n (le_enc n v) = Inr (True, m') \<and>
    get_le n m' (sancus_nl_attr_get_payload (nlh + l)) = Inr v"
proof -
  have fit: "l + align4 (4 + length (le_enc n v)) \<le> buflen" "l + align4 (4 + length (le_enc n v)) < 65536"
    using assms(2,5) by simp_all
  obtain m' where "sancus_nl_attr_put_nocheck m nlh t n (le_enc n v) = Inr m'"
      "mem_get (nlh + l + 4) n m' = Inr (le_enc n v)"
    using put_nocheck_spec [OF assms(1) fit assms(3,7), of "[]"] by auto
  moreover have "sancus_nl_attr_put_check m nlh buflen t n (le_enc n v) =
      ebind (sancus_nl_attr_put_nocheck m nlh t n (le_enc n v)) (\<lambda>m. Inr (True, m))"
    using put_check_spec(2) [OF assms(1), of "le_enc n v" t "le_enc n v"] assms(4,5) by simp
  ultimately show ?thesis
    using assms(6) by (simp add: get_le_def sancus_nl_attr_get_payload_def)
qed

text \<open>
  An integer attribute that fits is read back with its value by the matching accessor, for all four
  widths.
\<close>

theorem nl_attr_int_roundtrip:
  assumes "msg_wf m nlh buflen l" and "buflen < 65536" and "t < 65536" and "l + 12 \<le> buflen"
    and "attrs_at m (nlh + 16) (nlh + l) as"
  shows "(\<exists>m'. sancus_nl_attr_put_u8 m nlh buflen t b = Inr (True, m') \<and>
        sancus_nl_attr_get_u8 m' (nlh + l) = Inr (unat b)) \<and>
    (\<exists>m'. sancus_nl_attr_put_u16 m nlh buflen t h = Inr (True, m') \<and>
        sancus_nl_attr_get_u16 m' (nlh + l) = Inr (unat h)) \<and>
    (\<exists>m'. sancus_nl_attr_put_u32 m nlh buflen t w = Inr (True, m') \<and>
        sancus_nl_attr_get_u32 m' (nlh + l) = Inr (unat w)) \<and>
    (\<exists>m'. sancus_nl_attr_put_u64 m nlh buflen t q = Inr (True, m') \<and>
        sancus_nl_attr_get_u64 m' (nlh + l) = Inr (unat q))"
proof -
  have v: "unat b < 256 ^ 1" "unat h < 256 ^ 2" "unat w < 256 ^ 4" "unat q < 256 ^ 8"
    using unat_bound [of b] unat_bound [of h] unat_bound [of w] unat_bound [of q] by simp_all
  have f: "l + align4 (4 + 1) \<le> buflen" "l + align4 (4 + 2) \<le> buflen" "l + align4 (4 + 4) \<le> buflen"
      "l + align4 (4 + 8) \<le> buflen"
    using assms(4) by (simp_all add: align4_def)
  show ?thesis
    unfolding sancus_nl_attr_put_u8_def sancus_nl_attr_put_u16_def sancus_nl_attr_put_u32_def
      sancus_nl_attr_put_u64_def sancus_nl_attr_get_u8_def sancus_nl_attr_get_u16_def
      sancus_nl_attr_get_u32_def sancus_nl_attr_get_u64_def
    by (intro conjI put_check_value [OF assms(1-3) _ f(1) v(1) assms(5)]
        put_check_value [OF assms(1-3) _ f(2) v(2) assms(5)]
        put_check_value [OF assms(1-3) _ f(3) v(3) assms(5)]
        put_check_value [OF assms(1-3) _ f(4) v(4) assms(5)]) simp_all
qed

theorem nl_attr_int_roundtrip_witness:
  "\<exists>m'. sancus_nl_attr_put_u32 [16, 0, 0, 0, 0, 0, 0, 0, 0, 0, 0, 0, 0, 0, 0, 0, 7, 7, 7, 7, 7, 7, 7, 7, 7, 7, 7, 7]
      0 28 3 0xdeadbeef = Inr (True, m') \<and> sancus_nl_attr_get_u32 m' 16 = Inr 0xdeadbeef"
proof -
  let ?m = "[16, 0, 0, 0, 0, 0, 0, 0, 0, 0, 0, 0, 0, 0, 0, 0, 7, 7, 7, 7, 7, 7, 7, 7, 7, 7, 7, 7] :: byte list"
  have "msg_wf ?m 0 28 16" by (simp add: msg_wf_def nlmsg_len_def get_le_def)
  from nl_attr_int_roundtrip [OF this, where t = 3 and as = "[]" and w = "0xdeadbeef"] show ?thesis by auto
qed

text \<open>
  \<open>sancus_nl_attr_put\<close> stores the bytes of its pointer argument instead of the data: up to eight
  bytes of the address become the payload, and a longer attribute that fits reads past the pointer.
\<close>

theorem nl_attr_put_stores_pointer:
  assumes "msg_wf m nlh buflen l" and "buflen < 65536" and "t < 65536"
    and "l + align4 (4 + len) \<le> buflen" and "attrs_at m (nlh + 16) (nlh + l) as"
  shows "if len \<le> 8
    then \<exists>m'. sancus_nl_attr_put m nlh buflen t len ptr = Inr (True, m') \<and>
      attrs_at m' (nlh + 16) (nlh + l + align4 (4 + len)) (as @ [(t, take len (le_enc 8 (unat ptr)))])
    else sancus_nl_attr_put m nlh buflen t len ptr = Inl Bad_Access"
proof (cases "len \<le> 8")
  case True
  let ?x = "take len (le_enc 8 (unat ptr))"
  have x: "length ?x = len" using True by simp
  have "length ?x \<le> 65532" using True x by simp
  from nl_attr_put_spec [OF assms(1-3) this assms(5), of "drop len (le_enc 8 (unat ptr))", unfolded x] assms(4) True
  show ?thesis by (auto simp: sancus_nl_attr_put_def)
next
  case False
  note w = msg_wfD [OF assms(1)]
  have al: "4 + len \<le> align4 (4 + len)" by (rule align4_bounds)
  have x: "length (replicate len (0 :: byte)) \<le> 65532" using al assms(2,4) by simp
  have "l + align4 (4 + length (replicate len (0 :: byte))) \<le> buflen" using assms(4) by simp
  from put_check_spec(2) [OF assms(1) x this, of t "le_enc 8 (unat ptr)"]
  have "sancus_nl_attr_put m nlh buflen t len ptr =
      ebind (sancus_nl_attr_put_nocheck m nlh t len (le_enc 8 (unat ptr))) (\<lambda>m. Inr (True, m))"
    by (simp add: sancus_nl_attr_put_def)
  moreover have "nlh + l + 4 \<le> length m" using w(6) assms(4) al by linarith
  then have "sancus_nl_attr_put_nocheck m nlh t len (le_enc 8 (unat ptr)) = Inl Bad_Access"
    using False by (simp add: sancus_nl_attr_put_nocheck_def msg_tail [OF assms(1)] Let_def)
  ultimately show ?thesis using False by simp
qed

theorem nl_attr_put_stores_pointer_witness:
  "\<exists>m'. sancus_nl_attr_put [16, 0, 0, 0, 0, 0, 0, 0, 0, 0, 0, 0, 0, 0, 0, 0, 7, 7, 7, 7, 7, 7, 7, 7] 0 24 3 2 0x55aa = Inr (True, m') \<and>
     attrs_at m' 16 24 [(3, [0xaa, 0x55])]"
proof -
  let ?m = "[16, 0, 0, 0, 0, 0, 0, 0, 0, 0, 0, 0, 0, 0, 0, 0, 7, 7, 7, 7, 7, 7, 7, 7] :: byte list"
  have "take 2 (le_enc (Suc (Suc 6)) (unat (0x55aa :: u64))) = [0xaa, 0x55]"
    by (simp only: le_enc.simps) simp
  then have p: "take 2 (le_enc 8 (unat (0x55aa :: u64))) = [0xaa, 0x55]" by simp
  have "msg_wf ?m 0 24 16" by (simp add: msg_wf_def nlmsg_len_def get_le_def)
  from nl_attr_put_stores_pointer [OF this, where t = 3 and len = 2 and as = "[]" and ptr = "0x55aa"] p show ?thesis
    by (auto simp: align4_def numeral_2_eq_2)
qed

end
