(* ===== verification/Netlink_Io.thy ===== *)
theory Netlink_Io
  imports Netlink_Msg Sockaddr
begin

text \<open>
  The netlink receiver of \<^verbatim>\<open>src/netlink/netlink_io.c\<close>: a socket of a netlink bus, and the callback that
  receives a datagram and hands its messages to the application. The callbacks are an argument; they get
  the receiver and the application's state, may change both and may call the kernel. The bytes of the
  buffer on the stack before a datagram is received are an argument, and so is the size of a page.
\<close>

subsection \<open>Receivers\<close>

datatype sancus_nl_receiver_error = SANCUS_NL_RECEIVER_WATCHER_ERROR | SANCUS_NL_RECEIVER_RECVFROM_ERROR

record 'w sancus_nl_receiver =
  recv_watcher :: "'w sancus_ev_fd_scheme"
  portid :: int

record ('w, 'u) sancus_nl_receiver_settings =
  on_message :: "byte list \<Rightarrow> nat \<Rightarrow> 'w sancus_nl_receiver \<Rightarrow> 'u \<Rightarrow> (bool \<times> 'w sancus_nl_receiver \<times> 'u) sys"
  nl_on_error :: "sancus_nl_receiver_error \<Rightarrow> 'w sancus_nl_receiver \<Rightarrow> 'u \<Rightarrow> ('w sancus_nl_receiver \<times> 'u) sys"
  attribute_offset :: nat

definition sancus_nl_receiver_fd :: "'w sancus_nl_receiver \<Rightarrow> int" where
  "sancus_nl_receiver_fd s = ev_fd (recv_watcher s)"

definition sancus_nl_receiver_is_active :: "'w ev_api \<Rightarrow> 'w sancus_nl_receiver \<Rightarrow> bool" where
  "sancus_nl_receiver_is_active ev s \<longleftrightarrow> ev_fd (recv_watcher s) > 0 \<and> ev_active ev (recv_watcher s)"

definition SANCUS_NL_SOCKET_BUFFER_SIZE :: "nat \<Rightarrow> nat" where
  "SANCUS_NL_SOCKET_BUFFER_SIZE pagesize = (if pagesize < 8192 then pagesize else 8192)"

definition NLMSG_MIN_TYPE :: nat where "NLMSG_MIN_TYPE = 16"

definition nlmsg_type :: "byte list \<Rightarrow> nat \<Rightarrow> nat exec" where
  "nlmsg_type m nlh = get_le 2 m (nlh + 4)"

subsection \<open>Receiving\<close>

text \<open>The result and the bytes stored at the start of the buffer.\<close>

definition sancus_nl_recvfrom :: "int \<Rightarrow> nat \<Rightarrow> (int \<times> byte list) sys" where
  "sancus_nl_recvfrom fd buflen =
     sbind (syscall (Recvmsg fd buflen)) (\<lambda>a.
       case a of
         Err _ \<Rightarrow> sret (-1, [])
       | Ret f x \<Rightarrow>
           if odd f then sret (-1, x)
           else if odd (f div 2) then sret (-1, x)
           else sret (int (length x), x))"

text \<open>The loop of \<open>extract_netlink_message\<close>; \<open>ret\<close> is the variable of that name.\<close>

partial_function (option) extract_loop ::
  "('w, 'u) sancus_nl_receiver_settings \<Rightarrow> byte list \<Rightarrow> nat \<Rightarrow> int \<Rightarrow> int \<Rightarrow> 'w sancus_nl_receiver \<Rightarrow> 'u \<Rightarrow> kernel \<Rightarrow>
   (int \<times> 'w sancus_nl_receiver \<times> 'u) run" where
  "extract_loop st m nlh len ret s u k =
     rbind (Some (slift (sancus_nl_msg_ok m nlh len) k)) (\<lambda>ok k.
       if \<not> ok then Some (Done (ret, s, u), k)
       else rbind (Some (slift (sancus_nl_msg_portid_ok m nlh (unat (word_of_int (portid s) :: u32))) k)) (\<lambda>ok k.
         if \<not> ok then Some (Done (-1, s, u), k)
         else rbind (Some (slift (nlmsg_type m nlh) k)) (\<lambda>t k.
           if t \<ge> NLMSG_MIN_TYPE then
             rbind (Some (on_message st m nlh s u k)) (\<lambda>r k.
               if \<not> fst r then Some (Done (0, snd r), k)
               else rbind (Some (slift (sancus_nl_msg_next m nlh len) k)) (\<lambda>n k.
                 extract_loop st m (fst n) (snd n) 1 (fst (snd r)) (snd (snd r)) k))
           else rbind (Some (slift (sancus_nl_msg_next m nlh len) k)) (\<lambda>n k.
             extract_loop st m (fst n) (snd n) ret s u k))))"

definition extract_netlink_message ::
  "('w, 'u) sancus_nl_receiver_settings \<Rightarrow> byte list \<Rightarrow> nat \<Rightarrow> 'w sancus_nl_receiver \<Rightarrow> 'u \<Rightarrow> kernel \<Rightarrow>
   (int \<times> 'w sancus_nl_receiver \<times> 'u) run" where
  "extract_netlink_message st buf recvbytes s u k = extract_loop st buf 0 (int_cast (int recvbytes)) 0 s u k"

subsection \<open>Exported functions\<close>

definition sancus_nl_receiver_start ::
  "'w ev_api \<Rightarrow> sancus_ev_loop \<Rightarrow> 'w sancus_nl_receiver \<Rightarrow> 'w sancus_nl_receiver exec" where
  "sancus_nl_receiver_start ev loop s =
     chk Assert_Fail (\<not> ev_active ev (recv_watcher s)) (Inr (s\<lparr>recv_watcher := snd (ev_start ev loop (recv_watcher s))\<rparr>))"

definition sancus_nl_receiver_stop ::
  "'w ev_api \<Rightarrow> sancus_ev_loop \<Rightarrow> 'w sancus_nl_receiver \<Rightarrow> 'w sancus_nl_receiver" where
  "sancus_nl_receiver_stop ev loop s =
     (if ev_active ev (recv_watcher s) then s\<lparr>recv_watcher := snd (ev_stop ev loop (recv_watcher s))\<rparr> else s)"

definition sancus_nl_receiver_close :: "'w ev_api \<Rightarrow> 'w sancus_nl_receiver \<Rightarrow> 'w sancus_nl_receiver sys" where
  "sancus_nl_receiver_close ev s =
     (if \<not> ev_fd (recv_watcher s) \<ge> 0 \<or> ev_active ev (recv_watcher s) then sfault Assert_Fail
      else sbind (close_watcher (recv_watcher s)) (\<lambda>w. sret (s\<lparr>recv_watcher := w\<rparr>)))"

text \<open>\<open>struct sockaddr_nl\<close>: the family, two bytes of padding, the port and the groups.\<close>

definition nl_bytes :: "u32 \<Rightarrow> u32 \<Rightarrow> byte list" where
  "nl_bytes pid groups = le16 16 @ [0, 0] @ le_enc 4 (unat pid) @ le_enc 4 (unat groups)"

definition sancus_nl_receiver_listen ::
  "'w ev_api \<Rightarrow> 'w sancus_nl_receiver \<Rightarrow> int \<Rightarrow> u32 \<Rightarrow> int \<Rightarrow> (int \<times> 'w sancus_nl_receiver) sys" where
  "sancus_nl_receiver_listen ev s bus groups port =
     sbind (sancus_socket AF_NETLINK SOCK_RAW bus False True) (\<lambda>fd.
       if fd < 0 then sret (-1, s)
       else
         let s = s\<lparr>recv_watcher := snd (ev_init ev (recv_watcher s) Recv_cb fd (EV_READ ev)), portid := port\<rparr> in
         sbind (syscall (Bind fd (nl_bytes (word_of_int port) groups))) (\<lambda>a.
           case a of
             Err _ \<Rightarrow> sbind (close_watcher (recv_watcher s)) (\<lambda>w. sret (-1, s\<lparr>recv_watcher := w\<rparr>))
           | Ret _ _ \<Rightarrow> sret (1, s)))"

subsection \<open>The event callback\<close>

text \<open>The two parts of the callback; \<open>stack\<close> is the buffer before the datagram is stored.\<close>

definition recv_read ::
  "('w, 'u) sancus_nl_receiver_settings \<Rightarrow> byte list \<Rightarrow> 'w sancus_nl_receiver \<Rightarrow> 'u \<Rightarrow> kernel \<Rightarrow>
   ('w sancus_nl_receiver \<times> 'u) run" where
  "recv_read st stack s u k =
     rbind (Some (sancus_nl_recvfrom (ev_fd (recv_watcher s)) (length stack) k)) (\<lambda>(ret, x) k.
       if ret < 0 then Some (nl_on_error st SANCUS_NL_RECEIVER_RECVFROM_ERROR s u k)
       else rbind (extract_netlink_message st (overwrite 0 x stack) (nat ret) s u k) (\<lambda>(r, s, u) k.
         if r = 0 then Some (sbind (close_watcher (recv_watcher s)) (\<lambda>w. sret (s\<lparr>recv_watcher := w\<rparr>, u)) k)
         else Some (Done (s, u), k)))"

definition recv_error ::
  "'w ev_api \<Rightarrow> ('w, 'u) sancus_nl_receiver_settings \<Rightarrow> sancus_ev_loop \<Rightarrow> 'w sancus_nl_receiver \<Rightarrow> 'u \<Rightarrow>
   ('w sancus_nl_receiver \<times> 'u) sys" where
  "recv_error ev st loop s u =
     sbind (sancus_nl_receiver_close ev (sancus_nl_receiver_stop ev loop s)) (\<lambda>s.
       nl_on_error st SANCUS_NL_RECEIVER_WATCHER_ERROR s u)"

definition recv_cb ::
  "'w ev_api \<Rightarrow> ('w, 'u) sancus_nl_receiver_settings \<Rightarrow> sancus_ev_loop \<Rightarrow> byte list \<Rightarrow> u32 \<Rightarrow> 'w sancus_nl_receiver \<Rightarrow> 'u \<Rightarrow>
   kernel \<Rightarrow> ('w sancus_nl_receiver \<times> 'u) run" where
  "recv_cb ev st loop stack revents s u k =
     rbind (if revents AND EV_READ ev \<noteq> 0 then recv_read st stack s u k else Some (Done (s, u), k)) (\<lambda>(s, u) k.
       if revents AND EV_ERROR ev \<noteq> 0 then Some (recv_error ev st loop s u k) else Some (Done (s, u), k))"

subsection \<open>Receivers own their descriptor\<close>

lemma receiver_endpoint:
  assumes "event_loop ev"
  shows "endpoint (sancus_nl_receiver_listen ev s bus groups port) sancus_nl_receiver_fd"
proof
  fix k
  assume k: "owned (-1) k"
  let ?Q = "\<lambda>(r, s). \<lambda>l. kernel_ok l \<and> endpoint_left r (sancus_nl_receiver_fd s) l"
  show "post (sancus_nl_receiver_listen ev s bus groups port) ?Q k"
    unfolding sancus_nl_receiver_listen_def
  proof (rule post_endpoint [OF k])
    fix fd l
    let ?s = "s\<lparr>recv_watcher := snd (ev_init ev (recv_watcher s) Recv_cb fd (EV_READ ev)), portid := port\<rparr>"
    assume fd: "0 \<le> fd" "owned fd l"
    have w: "ev_fd (recv_watcher ?s) = fd" by (simp add: event_loop.init_fd [OF assms])
    have turn: "post (case a of
        Err _ \<Rightarrow> sbind (close_watcher (recv_watcher ?s)) (\<lambda>w. sret (-1, ?s\<lparr>recv_watcher := w\<rparr>))
      | Ret _ _ \<Rightarrow> sret (1, ?s)) ?Q l'" if "owned fd l'" for a l'
      using that w fd(1)
      by (auto split: answer.split simp: sancus_nl_receiver_fd_def endpoint_left_owned owned_def [of fd l'] owned_def [of "-1"]
          intro!: post_close_watcher_owned [OF that fd(1)])
    have "post (syscall (Bind fd (nl_bytes (word_of_int port) groups))) (\<lambda>a. post (case a of
        Err _ \<Rightarrow> sbind (close_watcher (recv_watcher ?s)) (\<lambda>w. sret (-1, ?s\<lparr>recv_watcher := w\<rparr>))
      | Ret _ _ \<Rightarrow> sret (1, ?s)) ?Q) l"
      by (rule post_owned [OF _ fd(2)], simp, rule turn)
    then show "post (if fd < 0 then sret (-1, s) else
        let s = ?s in
        sbind (syscall (Bind fd (nl_bytes (word_of_int port) groups))) (\<lambda>a.
          case a of
            Err _ \<Rightarrow> sbind (close_watcher (recv_watcher s)) (\<lambda>w. sret (-1, s\<lparr>recv_watcher := w\<rparr>))
          | Ret _ _ \<Rightarrow> sret (1, s))) ?Q l"
      using fd(1) by (simp only: Let_def post_sbind not_less [symmetric] if_False)
  qed (simp add: endpoint_left_owned owned_def)
qed

interpretation rcv: endpoint "sancus_nl_receiver_listen sancus_ev s bus groups port" sancus_nl_receiver_fd
  for s bus groups port
  by (rule receiver_endpoint) (rule hdr.event_loop_axioms)

subsection \<open>The loop over the messages\<close>

lemma extract_done:
  "sancus_nl_msg_ok m nlh len = Inr False \<Longrightarrow> extract_loop st m nlh len ret s u k = Some (Done (ret, s, u), k)"
  by (subst extract_loop.simps) simp

lemma extract_turn:
  assumes "sancus_nl_msg_ok m nlh len = Inr True"
    and "sancus_nl_msg_portid_ok m nlh (unat (word_of_int (portid s) :: u32)) = Inr True"
    and "nlmsg_type m nlh = Inr t" and "sancus_nl_msg_next m nlh len = Inr (p, len')"
  shows "extract_loop st m nlh len ret s u k =
    (if t \<ge> NLMSG_MIN_TYPE then
       rbind (Some (on_message st m nlh s u k)) (\<lambda>r k.
         if \<not> fst r then Some (Done (0, snd r), k) else extract_loop st m p len' 1 (fst (snd r)) (snd (snd r)) k)
     else extract_loop st m p len' ret s u k)"
  by (subst extract_loop.simps) (simp add: assms cong: if_cong)

lemma next_step:
  assumes "nlmsg_len m nlh = Inr l" and "0 \<le> len" and "len \<le> INT_MAX"
  shows "sancus_nl_msg_next m nlh len = Inr (nlh + 16 * (align4 l mod 65536), len - int (align4 l mod 65536))"
  using assms mod_less_divisor [of 65536 "align4 l"]
  by (simp add: sancus_nl_msg_next_def Let_def unat_ALIGN)

lemma extract_one:
  assumes "nlmsg_len m 0 = Inr l" and "16 \<le> l" and "l \<le> n" and "n \<le> align4 l" and "n \<le> 65532"
    and "sancus_nl_msg_portid_ok m 0 (unat (word_of_int (portid s) :: u32)) = Inr True" and "nlmsg_type m 0 = Inr t"
    and "on_message st m 0 s u k = (Done (b, s', u'), k')"
  shows "extract_netlink_message st m n s u k =
    (if t < NLMSG_MIN_TYPE then Some (Done (0, s, u), k)
     else Some (Done (if b then 1 else 0, s', u'), k'))"
proof -
  have n: "int_cast (int n) = int n" using assms(5) by (intro int_cast_id) simp_all
  have a: "align4 l < 65536" using align4_bounds(2) [of l] assms(3,5) by linarith
  have ok: "sancus_nl_msg_ok m 0 (int n) = Inr True"
    using msg_ok_iff [OF assms(1), of "int n"] assms(2,3,5) by simp
  have nx: "sancus_nl_msg_next m 0 (int n) = Inr (0 + 16 * align4 l, int n - int (align4 l))"
    using next_step [OF assms(1), of "int n"] a assms(5) by simp
  have over: "sancus_nl_msg_ok m p (int n - int (align4 l)) = Inr False" for p
    using assms(4) by (simp add: sancus_nl_msg_ok_def)
  show ?thesis
    unfolding extract_netlink_message_def n extract_turn [OF ok assms(6,7) nx]
    by (simp add: assms(8) extract_done [OF over] not_le)
qed

text \<open>
  A netlink datagram of one message: a message of the bus is handed to the application once and the
  result is its answer, a control message is passed over with the result zero, and the loop ends.
\<close>

theorem nl_extract_single:
  assumes "nlmsg_len m 0 = Inr l" and "16 \<le> l" and "l \<le> n" and "n \<le> align4 l" and "n \<le> 65532"
    and "sancus_nl_msg_portid_ok m 0 (unat (word_of_int (portid s) :: u32)) = Inr True" and "nlmsg_type m 0 = Inr t"
    and "on_message st m 0 s u k = (Done (b, s', u'), k')"
  shows "extract_netlink_message st m n s u k =
    (if t < NLMSG_MIN_TYPE then Some (Done (0, s, u), k)
     else Some (Done (if b then 1 else 0, s', u'), k'))"
  using assms by (rule extract_one)

text \<open>A message of the kernel: a header only, of a given type.\<close>

definition header_only :: "byte \<Rightarrow> byte list" where
  "header_only t = [16, 0, 0, 0, t, 0, 0, 0, 0, 0, 0, 0, 0, 0, 0, 0]"

lemma header_only_fields:
  "nlmsg_len (header_only t) 0 = Inr 16" "nlmsg_type (header_only t) 0 = Inr (unat t)"
  "sancus_nl_msg_portid_ok (header_only t) 0 p = Inr True" "align4 16 = 16"
  by (simp_all add: header_only_def nlmsg_len_def nlmsg_type_def get_le_def mem_get_def
      sancus_nl_msg_portid_ok_def nlmsg_pid_def align4_def)

text \<open>A receiver that counts its messages.\<close>

definition tally :: "('w, nat) sancus_nl_receiver_settings" where
  "tally = \<lparr>on_message = \<lambda>m p s u. sret (True, s, Suc u), nl_on_error = \<lambda>e s u. sret (s, u), attribute_offset = 0\<rparr>"

theorem nl_extract_single_witness:
  "extract_netlink_message tally (header_only 20) 16 \<lparr>recv_watcher = \<lparr>ev_fd = 5, ev_cb = Recv_cb\<rparr>, portid = 0\<rparr> 0 ([], []) =
     Some (Done (1, \<lparr>recv_watcher = \<lparr>ev_fd = 5, ev_cb = Recv_cb\<rparr>, portid = 0\<rparr>, 1), ([], []))"
  using nl_extract_single [of "header_only 20" 16 16 "\<lparr>recv_watcher = \<lparr>ev_fd = 5, ev_cb = Recv_cb\<rparr>, portid = 0\<rparr>" 20 tally 0
      "([], [])" True "\<lparr>recv_watcher = \<lparr>ev_fd = 5, ev_cb = Recv_cb\<rparr>, portid = 0\<rparr>" 1 "([], [])"]
  by (simp add: header_only_fields tally_def NLMSG_MIN_TYPE_def)

subsection \<open>Where the loop does not end\<close>

lemma extract_spins:
  assumes "sancus_nl_msg_ok m nlh len = Inr True"
    and "sancus_nl_msg_portid_ok m nlh (unat (word_of_int (portid s) :: u32)) = Inr True"
    and "nlmsg_type m nlh = Inr t" and "t < NLMSG_MIN_TYPE" and "sancus_nl_msg_next m nlh len = Inr (nlh, len)"
  shows "extract_loop st m nlh len ret s u k = None"
proof (rule ccontr)
  assume "extract_loop st m nlh len ret s u k \<noteq> None"
  then obtain r where r: "extract_loop st m nlh len ret s u k = Some r" by blast
  have "(st, m, nlh, len, s) \<noteq> (st, m, nlh, len, s)"
  proof (rule extract_loop.raw_induct [of "\<lambda>st' m' nlh' len' ret' s' u' k' r'. (st', m', nlh', len', s') \<noteq> (st, m, nlh, len, s)", OF _ r])
    fix f st' m' nlh' len' ret' s' u' k' r'
    assume IH: "\<And>st' m' nlh' len' ret' s' u' k' r'. f st' m' nlh' len' ret' s' u' k' = Some r' \<Longrightarrow>
        (st', m', nlh', len', s') \<noteq> (st, m, nlh, len, s)"
      and body: "rbind (Some (slift (sancus_nl_msg_ok m' nlh' len') k')) (\<lambda>ok k.
         if \<not> ok then Some (Done (ret', s', u'), k)
         else rbind (Some (slift (sancus_nl_msg_portid_ok m' nlh' (unat (word_of_int (portid s') :: u32))) k)) (\<lambda>ok k.
           if \<not> ok then Some (Done (-1, s', u'), k)
           else rbind (Some (slift (nlmsg_type m' nlh') k)) (\<lambda>t k.
             if t \<ge> NLMSG_MIN_TYPE then
               rbind (Some (on_message st' m' nlh' s' u' k)) (\<lambda>r k.
                 if \<not> fst r then Some (Done (0, snd r), k)
                 else rbind (Some (slift (sancus_nl_msg_next m' nlh' len') k)) (\<lambda>n k.
                   f st' m' (fst n) (snd n) 1 (fst (snd r)) (snd (snd r)) k))
             else rbind (Some (slift (sancus_nl_msg_next m' nlh' len') k)) (\<lambda>n k.
               f st' m' (fst n) (snd n) ret' s' u' k)))) = Some r'"
    show "(st', m', nlh', len', s') \<noteq> (st, m, nlh, len, s)"
    proof
      assume eq: "(st', m', nlh', len', s') = (st, m, nlh, len, s)"
      with body assms have "f st m nlh len ret' s u' k' = Some r'" by (simp add: not_le)
      from IH [OF this] show False by simp
    qed
  qed
  then show False by simp
qed

text \<open>
  C39. A datagram of at least a header that starts with a control message (a type below
  \<open>NLMSG_MIN_TYPE\<close>), for a port the receiver accepts, whose length field is \<open>2\<^sup>3\<^sup>1\<close> or more with its
  low sixteen bits zero, keeps the receiver in its loop for ever: the length passes the check, and the
  step to the next message is zero.
\<close>

theorem nl_extract_spins:
  assumes "nlmsg_len m 0 = Inr l" and "2 ^ 31 \<le> l" and "65536 dvd l" and "16 \<le> n" and "int n \<le> INT_MAX"
    and "sancus_nl_msg_portid_ok m 0 (unat (word_of_int (portid s) :: u32)) = Inr True" and "nlmsg_type m 0 = Inr t"
    and "t < NLMSG_MIN_TYPE"
  shows "extract_netlink_message st m n s u k = None"
proof -
  have n: "int_cast (int n) = int n" using assms(5) by (intro int_cast_id) simp_all
  have "4 dvd l" using assms(3) by (rule dvd_trans [rotated]) simp
  then have "align4 l mod 65536 = 0" using assms(3) by (simp add: align4_dvd)
  then have "sancus_nl_msg_next m 0 (int n) = Inr (0, int n)"
    using next_step [OF assms(1), of "int n"] assms(5) by simp
  moreover have "sancus_nl_msg_ok m 0 (int n) = Inr True"
    using msg_ok_iff [OF assms(1), of "int n"] assms(2,4,5) by simp
  ultimately show ?thesis
    unfolding extract_netlink_message_def n using assms(6-8) by (intro extract_spins)
qed

theorem nl_extract_spins_witness:
  "extract_netlink_message tally [0, 0, 0, 128, 1, 0, 0, 0, 0, 0, 0, 0, 0, 0, 0, 0] 16
     \<lparr>recv_watcher = \<lparr>ev_fd = 5, ev_cb = Recv_cb\<rparr>, portid = 0\<rparr> 0 ([], []) = None"
  by (rule nl_extract_spins [of _ 2147483648 _ _ 1])
    (simp_all add: nlmsg_len_def nlmsg_type_def get_le_def mem_get_def sancus_nl_msg_portid_ok_def nlmsg_pid_def NLMSG_MIN_TYPE_def)

lemma extract_ends:
  assumes "\<And>p l. nlmsg_len m p = Inr l \<Longrightarrow> l < 2 ^ 31" and "len \<le> 65532"
  shows "\<exists>r. extract_loop st m nlh len ret s u k = Some r"
  using assms(2)
proof (induction "nat len" arbitrary: nlh len ret s u k rule: less_induct)
  case less
  have again: "\<exists>r. rbind (Some (slift (sancus_nl_msg_next m nlh len) l)) (\<lambda>n k.
      extract_loop st m (fst n) (snd n) ret' s' u' k) = Some r"
    if ok: "sancus_nl_msg_ok m nlh len = Inr True" for l ret' s' u'
  proof -
    have "16 \<le> len" using ok by (auto simp: sancus_nl_msg_ok_def split: if_splits)
    then obtain z where z: "nlmsg_len m nlh = Inr z" using ok by (auto simp: sancus_nl_msg_ok_def ebind_eq_Inr)
    then have "16 \<le> z" "int z \<le> len"
      using msg_ok_iff [OF z, of len] ok less.prems \<open>16 \<le> len\<close> assms(1) [OF z] by auto
    then have "align4 z mod 65536 = align4 z" "16 \<le> align4 z"
      using align4_bounds [of z] less.prems by auto
    then have "sancus_nl_msg_next m nlh len = Inr (nlh + 16 * align4 z, len - int (align4 z))"
        "nat (len - int (align4 z)) < nat len" "len - int (align4 z) \<le> 65532"
      using next_step [OF z, of len] \<open>16 \<le> len\<close> less.prems by auto
    then show ?thesis using less.hyps by simp
  qed
  show ?case
  proof (cases "sancus_nl_msg_ok m nlh len = Inr True")
    case False
    then show ?thesis by (subst extract_loop.simps) (cases "sancus_nl_msg_ok m nlh len"; simp)
  next
    case True
    obtain p where p: "p = sancus_nl_msg_portid_ok m nlh (unat (word_of_int (portid s) :: u32))" by blast
    obtain o' k' where o': "on_message st m nlh s u k = (o', k')" by (cases "on_message st m nlh s u k")
    show ?thesis
      using again [OF True] True
      by (subst extract_loop.simps, unfold p [symmetric]; cases p; cases "nlmsg_type m nlh"; cases o')
        (auto simp: o' split: if_splits)
  qed
qed

text \<open>
  A datagram no length field of which reaches \<open>2\<^sup>3\<^sup>1\<close> is handled in finitely many steps, whatever the
  other bytes and the application do.
\<close>

theorem nl_extract_ends:
  assumes "\<And>p l. nlmsg_len m p = Inr l \<Longrightarrow> l < 2 ^ 31" and "n \<le> 65532"
  shows "\<exists>r. extract_netlink_message st m n s u k = Some r"
proof -
  have "int_cast (int n) = int n" using assms(2) by (intro int_cast_id) simp_all
  then show ?thesis unfolding extract_netlink_message_def using assms by (intro extract_ends) auto
qed

theorem nl_extract_ends_witness:
  "\<exists>r. extract_netlink_message tally [16, 0, 0, 0] 4 \<lparr>recv_watcher = \<lparr>ev_fd = 5, ev_cb = Recv_cb\<rparr>, portid = 0\<rparr> 0 ([], []) = Some r"
proof (rule nl_extract_ends)
  fix p l
  assume "nlmsg_len [16, 0, 0, 0] p = Inr l"
  then show "l < 2 ^ 31" by (cases p) (auto simp: nlmsg_len_def get_le_def mem_get_def ebind_eq_Inr chk_eq_Inr)
qed simp

subsection \<open>An event of a receiver\<close>

lemma receiver_one:
  assumes "revents AND EV_READ ev \<noteq> 0" and "revents AND EV_ERROR ev = 0"
    and "length x \<le> length stack" and "length x \<le> 65532"
    and "nlmsg_len (overwrite 0 x stack) 0 = Inr l" and "16 \<le> l" and "l \<le> length x" and "length x \<le> align4 l"
    and "nlmsg_type (overwrite 0 x stack) 0 = Inr t"
    and "sancus_nl_msg_portid_ok (overwrite 0 x stack) 0 (unat (word_of_int (portid s) :: u32)) = Inr True"
    and "\<And>k. on_message st (overwrite 0 x stack) 0 s u k = (Done (b, s, u'), k)"
  shows "recv_cb ev st loop stack revents s u (Ret 0 x # Ret m y # r, tr) =
    (if t \<ge> NLMSG_MIN_TYPE \<and> b
     then Some (Done (s, u'), (Ret m y # r, tr @ [(Recvmsg (sancus_nl_receiver_fd s) (length stack), Ret 0 x)]))
     else Some (Done (s\<lparr>recv_watcher := (recv_watcher s)\<lparr>ev_fd := -1\<rparr>\<rparr>, if t \<ge> NLMSG_MIN_TYPE then u' else u),
       (r, tr @ [(Recvmsg (sancus_nl_receiver_fd s) (length stack), Ret 0 x), (Close (sancus_nl_receiver_fd s), Ret 0 [])])))"
proof -
  let ?k = "(Ret m y # r, tr @ [(Recvmsg (ev_fd (recv_watcher s)) (length stack), Ret 0 x)])"
  have "sancus_nl_recvfrom (ev_fd (recv_watcher s)) (length stack) (Ret 0 x # Ret m y # r, tr) = (Done (int (length x), x), ?k)"
    using assms(3) by (simp add: sancus_nl_recvfrom_def sbind_def)
  moreover note nl_one = extract_one [OF assms(5,6,7,8,4,10,9,11)]
  moreover note close_watcher_retries [of "recv_watcher s" 0 m y r]
  ultimately show ?thesis using assms(1,2)
    by (auto simp: recv_cb_def recv_read_def sancus_nl_receiver_fd_def sbind_def not_le)
qed

text \<open>A receiver after it gave up its descriptor.\<close>

definition shut :: "'w sancus_nl_receiver \<Rightarrow> 'w sancus_nl_receiver" where
  "shut s = s\<lparr>recv_watcher := (recv_watcher s)\<lparr>ev_fd := -1\<rparr>\<rparr>"

lemma receiver_shuts:
  "c \<noteq> Err EINTR \<Longrightarrow>
   sbind (close_watcher (recv_watcher s)) (\<lambda>w. sret (s\<lparr>recv_watcher := w\<rparr>, u)) (replicate j (Err EINTR) @ c # q, tr) =
     (Done (shut s, u), (q, tr @ closing (sancus_nl_receiver_fd s) j c))"
  by (simp add: close_watcher_close sbind_def close_closing shut_def sancus_nl_receiver_fd_def)

lemma extract_foreign:
  assumes "sancus_nl_msg_ok m 0 (int_cast (int n)) = Inr True"
    and "sancus_nl_msg_portid_ok m 0 (unat (word_of_int (portid s) :: u32)) = Inr False"
  shows "extract_netlink_message st m n s u k = Some (Done (-1, s, u), k)"
  unfolding extract_netlink_message_def by (subst extract_loop.simps) (simp add: assms)

lemma extract_short:
  assumes "n < 16"
  shows "extract_netlink_message st m n s u k = Some (Done (0, s, u), k)"
proof -
  have "int_cast (int n) = int n" using assms by (intro int_cast_id) simp_all
  then show ?thesis using assms
    unfolding extract_netlink_message_def by (intro extract_done) (simp add: sancus_nl_msg_ok_def)
qed

text \<open>Receiving fails: with an error, a cut datagram or a sender's address of an unexpected length.\<close>

fun recv_fails :: "answer \<Rightarrow> bool" where
  "recv_fails (Err e) = True"
| "recv_fails (Ret f x) = (odd f \<or> odd (f div 2))"

lemma recvfrom_result:
  "recv_fails a \<Longrightarrow> \<exists>x. sancus_nl_recvfrom fd n (a # r, tr) = (Done (-1, x), (r, tr @ [(Recvmsg fd n, clip (Recvmsg fd n) a)]))"
  "length x \<le> n \<Longrightarrow> sancus_nl_recvfrom fd n (Ret 0 x # r, tr) = (Done (int (length x), x), (r, tr @ [(Recvmsg fd n, Ret 0 x)]))"
  by (cases a; simp add: sancus_nl_recvfrom_def sbind_def)+

text \<open>
  C32. A readable event of a receiver, with what the kernel and the application do left open. A receive that fails
  (with an error, a datagram cut off, or an address of the wrong length) is reported to the application and
  nothing else happens. A datagram shorter than a header closes the descriptor without a word. Of a datagram of
  one message (at most 65532 bytes, the length field right): one for another port is dropped; a control message
  closes the descriptor; a message of the bus is handed to the application once, and the descriptor is closed
  when the application refuses it.
\<close>

theorem nl_receiver_event:
  assumes "revents AND EV_READ ev \<noteq> 0" and "revents AND EV_ERROR ev = 0"
    and "recv_fails a" and "length z < 16" and "length z \<le> length stack"
    and "length x \<le> length stack" and "length x \<le> 65532"
    and "nlmsg_len (overwrite 0 x stack) 0 = Inr l" and "16 \<le> l" and "l \<le> length x" and "length x \<le> align4 l"
    and "nlmsg_type (overwrite 0 x stack) 0 = Inr t"
    and "sancus_nl_msg_portid_ok (overwrite 0 x stack) 0 (unat (word_of_int (portid s) :: u32)) = Inr ours"
    and "c \<noteq> Err EINTR" and "c' \<noteq> Err EINTR"
    and "on_message st (overwrite 0 x stack) 0 s u
        (replicate j (Err EINTR) @ c # q, tr @ [(Recvmsg (sancus_nl_receiver_fd s) (length stack), Ret 0 x)]) =
      (Done (b, s', u'), (replicate j' (Err EINTR) @ c' # q', tr'))"
  defines "received \<equiv> \<lambda>a. tr @ [(Recvmsg (sancus_nl_receiver_fd s) (length stack), a)]"
  shows "recv_cb ev st loop stack revents s u (a # r, tr) =
      Some (nl_on_error st SANCUS_NL_RECEIVER_RECVFROM_ERROR s u (r, received (clip (Recvmsg (sancus_nl_receiver_fd s) (length stack)) a))) \<and>
    recv_cb ev st loop stack revents s u (Ret 0 z # replicate j (Err EINTR) @ c # q, tr) =
      Some (Done (shut s, u), (q, received (Ret 0 z) @ closing (sancus_nl_receiver_fd s) j c)) \<and>
    recv_cb ev st loop stack revents s u (Ret 0 x # replicate j (Err EINTR) @ c # q, tr) =
      (if \<not> ours then Some (Done (s, u), (replicate j (Err EINTR) @ c # q, received (Ret 0 x)))
       else if t < NLMSG_MIN_TYPE then Some (Done (shut s, u), (q, received (Ret 0 x) @ closing (sancus_nl_receiver_fd s) j c))
       else if b then Some (Done (s', u'), (replicate j' (Err EINTR) @ c' # q', tr'))
       else Some (Done (shut s', u'), (q', tr' @ closing (sancus_nl_receiver_fd s') j' c')))"
proof -
  let ?fd = "sancus_nl_receiver_fd s" and ?n = "length stack" and ?r = "replicate j (Err EINTR) @ c # q"
  have cb: "recv_cb ev st loop stack revents s u k = recv_read st stack s u k" for k
  proof -
    have "rbind m (\<lambda>(s, u) k. Some (Done (s, u), k)) = m" for m :: "('a sancus_nl_receiver \<times> 'b) run"
      by (auto simp: rbind_def split: option.split prod.split outcome.split)
    then show ?thesis using assms(1,2) by (simp add: recv_cb_def cong: if_cong)
  qed
  have fd: "ev_fd (recv_watcher s) = ?fd" by (simp add: sancus_nl_receiver_fd_def)
  have "recv_read st stack s u (a # r, tr) = Some (nl_on_error st SANCUS_NL_RECEIVER_RECVFROM_ERROR s u (r, received (clip (Recvmsg ?fd ?n) a)))"
    using recvfrom_result(1) [OF assms(3), of ?fd ?n r tr] by (auto simp: recv_read_def fd received_def)
  moreover have "recv_read st stack s u (Ret 0 z # ?r, tr) = Some (Done (shut s, u), (q, received (Ret 0 z) @ closing ?fd j c))"
    using recvfrom_result(2) [OF assms(5), of ?fd ?r tr] receiver_shuts [OF assms(14), of s u j q "received (Ret 0 z)"]
    by (simp add: recv_read_def fd received_def extract_short [OF assms(4)])
  moreover have one: "recv_read st stack s u (Ret 0 x # ?r, tr) =
      rbind (extract_netlink_message st (overwrite 0 x stack) (length x) s u (?r, received (Ret 0 x))) (\<lambda>(r, s, u) k.
         if r = 0 then Some (sbind (close_watcher (recv_watcher s)) (\<lambda>w. sret (s\<lparr>recv_watcher := w\<rparr>, u)) k)
         else Some (Done (s, u), k))"
    using recvfrom_result(2) [OF assms(6), of ?fd ?r tr] by (simp add: recv_read_def fd received_def)
  moreover have "recv_read st stack s u (Ret 0 x # ?r, tr) =
      (if \<not> ours then Some (Done (s, u), (?r, received (Ret 0 x)))
       else if t < NLMSG_MIN_TYPE then Some (Done (shut s, u), (q, received (Ret 0 x) @ closing ?fd j c))
       else if b then Some (Done (s', u'), (replicate j' (Err EINTR) @ c' # q', tr'))
       else Some (Done (shut s', u'), (q', tr' @ closing (sancus_nl_receiver_fd s') j' c')))"
  proof (cases ours)
    case False
    have "int_cast (int (length x)) = int (length x)" using assms(7) by (intro int_cast_id) simp_all
    moreover have "sancus_nl_msg_ok (overwrite 0 x stack) 0 (int (length x)) = Inr True"
      using msg_ok_iff [OF assms(8), of "int (length x)"] assms(7,9,10) by simp
    ultimately show ?thesis using False assms(13) by (simp add: one extract_foreign)
  next
    case True
    have "on_message st (overwrite 0 x stack) 0 s u (?r, received (Ret 0 x)) = (Done (b, s', u'), (replicate j' (Err EINTR) @ c' # q', tr'))"
      using assms(16) by (simp add: received_def)
    note e = extract_one [OF assms(8-11,7) assms(13) [unfolded eqTrueI [OF True]] assms(12) this]
    show ?thesis
      using True e receiver_shuts [OF assms(14), of s u j q "received (Ret 0 x)"] receiver_shuts [OF assms(15), of s' u' j' q' tr']
      by (simp add: one not_less)
  qed
  ultimately show ?thesis unfolding cb by blast
qed

theorem nl_receiver_event_witness:
  "recv_cb (sancus_ev\<lparr>EV_READ := 1, EV_ERROR := 4\<rparr>) tally \<lparr>ev_loop_now = TIMESPEC_INIT 0 0\<rparr> (replicate 16 7) 1
     \<lparr>recv_watcher = \<lparr>ev_fd = 5, ev_cb = Recv_cb\<rparr>, portid = 0\<rparr> 0 ([Ret 0 (header_only 1), Err EINTR, Ret 0 []], []) =
   Some (Done (\<lparr>recv_watcher = \<lparr>ev_fd = -1, ev_cb = Recv_cb\<rparr>, portid = 0\<rparr>, 0),
     ([], [(Recvmsg 5 16, Ret 0 (header_only 1)), (Close 5, Err EINTR), (Close 5, Ret 0 [])])) \<and>
   recv_cb (sancus_ev\<lparr>EV_READ := 1, EV_ERROR := 4\<rparr>) tally \<lparr>ev_loop_now = TIMESPEC_INIT 0 0\<rparr> (replicate 16 7) 1
     \<lparr>recv_watcher = \<lparr>ev_fd = 5, ev_cb = Recv_cb\<rparr>, portid = 0\<rparr> 0 ([Err 105], []) =
   Some (Done (\<lparr>recv_watcher = \<lparr>ev_fd = 5, ev_cb = Recv_cb\<rparr>, portid = 0\<rparr>, 0), ([], [(Recvmsg 5 16, Err 105)]))"
proof -
  let ?s = "\<lparr>recv_watcher = \<lparr>ev_fd = 5, ev_cb = Recv_cb\<rparr>, portid = 0\<rparr>" and ?x = "header_only 1"
  have o: "overwrite 0 ?x (replicate 16 7) = ?x" "length ?x = 16"
    by (simp_all add: overwrite_def header_only_def)
  have f: "sancus_nl_receiver_fd ?s = 5" by (simp add: sancus_nl_receiver_fd_def)
  have m: "on_message tally (overwrite 0 ?x (replicate 16 7)) 0 ?s 0
      (replicate 1 (Err EINTR) @ Ret 0 [] # [], [] @ [(Recvmsg (sancus_nl_receiver_fd ?s) (length (replicate 16 (7 :: byte))), Ret 0 ?x)]) =
    (Done (True, ?s, 1), (replicate 1 (Err EINTR) @ Ret 0 [] # [], [(Recvmsg 5 16, Ret 0 ?x)]))"
    by (simp add: tally_def f)
  note n = nl_receiver_event [where ev = "sancus_ev\<lparr>EV_READ := 1, EV_ERROR := 4\<rparr>" and revents = 1 and a = "Err 105" and z = "[]"
      and x = ?x and stack = "replicate 16 7" and l = 16 and t = 1 and ours = True and r = "[]" and
      loop = "\<lparr>ev_loop_now = TIMESPEC_INIT 0 0\<rparr>", OF _ _ _ _ _ _ _ _ _ _ _ _ _ _ _ m]
  show ?thesis
    using n by (simp add: o f header_only_fields NLMSG_MIN_TYPE_def closing_def shut_def) (simp add: tally_def)
qed

text \<open>
  Opening a receiver, with every answer of the kernel: the result 1 means that the receiver has the one
  descriptor that was opened, any other result that none is left open.
\<close>

theorem nl_listen_owns:
  assumes "event_loop ev" and "list_all errno_ok t"
    and "sancus_nl_receiver_listen ev s bus groups port (t, []) = (Done (r, s'), k')"
  shows "endpoint_left r (sancus_nl_receiver_fd s') k'"
  using endpoint.opened_run [OF receiver_endpoint [OF assms(1)] assms(2,3)] .

theorem nl_listen_owns_witness:
  "\<exists>s' k'. sancus_nl_receiver_listen sancus_ev \<lparr>recv_watcher = \<lparr>ev_fd = 0, ev_cb = Recv_cb\<rparr>, portid = 0\<rparr> 0 1 0
      ([Ret 6 [], Ret 2 [], Ret 0 [], Err EINVAL, Ret 0 []], []) = (Done (-1, s'), k') \<and>
    endpoint_left (-1) (sancus_nl_receiver_fd s') k' \<and> sancus_nl_receiver_fd s' = -1"
proof -
  let ?s = "\<lparr>recv_watcher = \<lparr>ev_fd = 0, ev_cb = Recv_cb\<rparr>, portid = 0\<rparr>"
  let ?t = "[Ret 6 [], Ret 2 [], Ret 0 [], Err EINVAL, Ret 0 []]"
  obtain s' k' where r: "sancus_nl_receiver_listen sancus_ev ?s 0 1 0 (?t, []) = (Done (-1, s'), k')" "sancus_nl_receiver_fd s' = -1"
    by (simp add: close_watcher_retries [of _ 0 0 "[]" "[]", simplified] sancus_nl_receiver_listen_def sancus_socket_def sbind_def Let_def sancus_ev_def sancus_ev_fd_init_def
        sancus_nl_receiver_fd_def)
  with nl_listen_owns [OF hdr.event_loop_axioms, of ?t ?s 0 1 0 "-1" s' k'] show ?thesis by auto
qed

end
