(* ===== verification/Dispatch.thy ===== *)
theory Dispatch
  imports Replay Streams Tcp_Conn Tcp_Server Netlink_Io
begin

text \<open>
  The components of the library side by side under one event loop: streams, connections, servers and
  netlink receivers, each with its settings and the state of its application, and the callbacks the
  loop makes when their descriptors have events. The components share the kernel and nothing else. An
  interleaved run is taken apart into the runs of its members: the calls of each are on its own descriptor,
  but for the \<open>close\<close> of a connection it accepted, and it does what it does alone on the answers to them.
\<close>

subsection \<open>Components and events\<close>

text \<open>The descriptor a call is about.\<close>

fun call_fd :: "call \<Rightarrow> int option" where
  "call_fd (Close fd) = Some fd"
| "call_fd (Read fd _) = Some fd"
| "call_fd (Write fd _) = Some fd"
| "call_fd (Writev fd _) = Some fd"
| "call_fd (Fcntl_getfl fd) = Some fd"
| "call_fd (Fcntl_setfl fd _) = Some fd"
| "call_fd (Accept fd) = Some fd"
| "call_fd (Connect fd _) = Some fd"
| "call_fd (Bind fd _) = Some fd"
| "call_fd (Listen fd _) = Some fd"
| "call_fd (Setsockopt fd _) = Some fd"
| "call_fd (Getsockopt_error fd) = Some fd"
| "call_fd (Tcgetattr fd) = Some fd"
| "call_fd (Tcsetattr fd _) = Some fd"
| "call_fd (Recvmsg fd _) = Some fd"
| "call_fd _ = None"

text \<open>
  The descriptor of a component is the one it starts with until it is closed, and \<open>-1\<close> from then on. Its
  calls are on it, or calls \<open>Q\<close> of the application.
\<close>

definition keeps :: "int \<Rightarrow> int \<Rightarrow> bool" where
  "keeps fd x \<longleftrightarrow> x = fd \<or> x = -1"

definition allowed :: "int \<Rightarrow> (event \<Rightarrow> bool) \<Rightarrow> event \<Rightarrow> bool" where
  "allowed fd Q e \<longleftrightarrow> call_fd (fst e) = Some fd \<or> call_fd (fst e) = Some (-1) \<or> Q e"

lemma keeps_simps [simp]: "keeps fd fd" "keeps fd (-1)"
  by (simp_all add: keeps_def)

lemma allowed_own [simp]:
  "keeps fd x \<Longrightarrow> allowed fd Q (Close x, a)" "keeps fd x \<Longrightarrow> allowed fd Q (Read x n, a)"
  "keeps fd x \<Longrightarrow> allowed fd Q (Accept x, a)" "keeps fd x \<Longrightarrow> allowed fd Q (Recvmsg x n, a)"
  "keeps fd x \<Longrightarrow> allowed fd Q (Getsockopt_error x, a)"
  by (auto simp: keeps_def allowed_def)

text \<open>The calls of a run, in order: each is allowed, or closes a descriptor accepted before it.\<close>

fun accepted :: "event \<Rightarrow> int list" where
  "accepted (Accept _, Ret n _) = [int n]"
| "accepted _ = []"

fun confined :: "int \<Rightarrow> (event \<Rightarrow> bool) \<Rightarrow> int list \<Rightarrow> event list \<Rightarrow> bool" where
  "confined fd Q A [] \<longleftrightarrow> True"
| "confined fd Q A (e # es) \<longleftrightarrow> (allowed fd Q e \<or> (\<exists>n \<in> set A. fst e = Close n)) \<and> confined fd Q (accepted e @ A) es"

lemma confined_mono: "confined fd Q A es \<Longrightarrow> set A \<subseteq> set B \<Longrightarrow> confined fd Q B es"
proof (induction es arbitrary: A B)
  case (Cons e es)
  from Cons.prems(1) have "confined fd Q (accepted e @ A) es" by simp
  from Cons.IH [OF this, of "accepted e @ B"] Cons.prems show ?case by auto
qed simp

lemma confined_append: "confined fd Q A (d @ e) \<longleftrightarrow> confined fd Q A d \<and> confined fd Q (concat (rev (map accepted d)) @ A) e"
  by (induction d arbitrary: A) auto

lemma confined_both: "confined fd Q [] d \<Longrightarrow> confined fd Q [] e \<Longrightarrow> confined fd Q [] (d @ e)"
  by (simp add: confined_append) (erule confined_mono, simp)

lemma confined_closing:
  "list_all (\<lambda>e. allowed fd Q e \<or> fst e = Close n) d \<Longrightarrow> n \<in> set A \<Longrightarrow> confined fd Q A d"
  by (induction d arbitrary: A) auto

lemma confined_allowed: "list_all (allowed fd Q) d \<Longrightarrow> confined fd Q A d"
  by (induction d arbitrary: A) auto

lemma tracks_confined: "tracks (allowed fd Q) R A A \<Longrightarrow> spans (confined fd Q []) R A"
  by (erule tracks_spans) (rule confined_allowed)

text \<open>
  What the settings of a component point to: callbacks composed of calls and computation that leave the
  descriptor of the component in place or close it, and make the calls \<open>Q\<close> besides.
\<close>

definition stream_app :: "int \<Rightarrow> (event \<Rightarrow> bool) \<Rightarrow> ('w, 'u) sancus_stream_settings \<Rightarrow> bool" where
  "stream_app fd Q st \<longleftrightarrow>
     (\<forall>s. keeps fd (sancus_stream_fd s) \<longrightarrow>
       (\<forall>e u. exact (allowed fd Q) (\<lambda>x. keeps fd (sancus_stream_fd (fst (snd x)))) (on_error st e s u)) \<and>
       (\<forall>u. exact (allowed fd Q) (\<lambda>x. keeps fd (sancus_stream_fd (fst x))) (on_close st s u)) \<and>
       (\<forall>p n u. exact (allowed fd Q) (\<lambda>x. keeps fd (sancus_stream_fd (fst (snd x)))) (on_read st p n s u)))"

definition conn_app :: "int \<Rightarrow> (event \<Rightarrow> bool) \<Rightarrow> ('w, 'u) sancus_tcp_conn_settings \<Rightarrow> bool" where
  "conn_app fd Q st \<longleftrightarrow>
     (\<forall>c u. keeps fd (sancus_tcp_conn_fd c) \<longrightarrow>
       exact (allowed fd Q) (\<lambda>x. keeps fd (sancus_tcp_conn_fd (fst x))) (conn_on_read st c u) \<and>
       exact (allowed fd Q) (\<lambda>x. keeps fd (sancus_tcp_conn_fd (fst x))) (conn_on_connect st c u) \<and>
       (\<forall>e n. exact (allowed fd Q) (\<lambda>x. keeps fd (sancus_tcp_conn_fd (fst x))) (conn_on_error st e n c u)))"

definition server_app :: "int \<Rightarrow> (event \<Rightarrow> bool) \<Rightarrow> ('w, 'u) sancus_tcp_server_settings \<Rightarrow> bool" where
  "server_app fd Q st \<longleftrightarrow>
     (\<forall>s u. keeps fd (sancus_tcp_server_fd s) \<longrightarrow>
       (\<forall>n a. exact (allowed fd Q) (\<lambda>x. keeps fd (sancus_tcp_server_fd (fst (snd x)))) (srv_on_connect st n a s u)) \<and>
       (\<forall>e. exact (allowed fd Q) (\<lambda>x. keeps fd (sancus_tcp_server_fd (fst x))) (srv_on_error st e s u)))"

definition receiver_app :: "int \<Rightarrow> (event \<Rightarrow> bool) \<Rightarrow> ('w, 'u) sancus_nl_receiver_settings \<Rightarrow> bool" where
  "receiver_app fd Q st \<longleftrightarrow>
     (\<forall>s u. keeps fd (sancus_nl_receiver_fd s) \<longrightarrow>
       (\<forall>m n. exact (allowed fd Q) (\<lambda>x. keeps fd (sancus_nl_receiver_fd (fst (snd x)))) (on_message st m n s u)) \<and>
       (\<forall>e. exact (allowed fd Q) (\<lambda>x. keeps fd (sancus_nl_receiver_fd (fst x))) (nl_on_error st e s u)))"

datatype ('w, 'u) component =
    Stream "('w, 'u) sancus_stream_settings" "'w sancus_stream" 'u
  | Conn "('w, 'u) sancus_tcp_conn_settings" "'w sancus_tcp_conn" 'u
  | Server "('w, 'u) sancus_tcp_server_settings" "'w sancus_tcp_server" 'u
  | Receiver "('w, 'u) sancus_nl_receiver_settings" "'w sancus_nl_receiver" 'u

text \<open>An event: the loop with its time, the flags, and what the stack holds before \<open>recv_cb\<close> reads.\<close>

record loop_event =
  le_loop :: sancus_ev_loop
  le_flags :: u32
  le_stack :: "byte list"

text \<open>The callback of a component's watcher, with the settings the component points to.\<close>

fun component_event :: "'w ev_api \<Rightarrow> loop_event \<Rightarrow> ('w, 'u) component \<Rightarrow> kernel \<Rightarrow> ('w, 'u) component run" where
  "component_event ev e (Stream st s u) k =
     rbind (read_cb ev st (le_loop e) (le_flags e) s u k) (\<lambda>x k. Some (Done (Stream st (fst x) (snd x)), k))"
| "component_event ev e (Conn st c u) k =
     rbind (Some (io_cb ev st (le_loop e) (le_flags e) c u k)) (\<lambda>x k. Some (Done (Conn st (fst x) (snd x)), k))"
| "component_event ev e (Server st s u) k =
     rbind (Some (connect_cb ev st (le_flags e) s u k)) (\<lambda>x k. Some (Done (Server st (fst x) (snd x)), k))"
| "component_event ev e (Receiver st s u) k =
     rbind (recv_cb ev st (le_loop e) (le_stack e) (le_flags e) s u k) (\<lambda>x k. Some (Done (Receiver st (fst x) (snd x)), k))"

fun component_fd :: "('w, 'u) component \<Rightarrow> int" where
  "component_fd (Stream _ s _) = sancus_stream_fd s"
| "component_fd (Conn _ c _) = sancus_tcp_conn_fd c"
| "component_fd (Server _ s _) = sancus_tcp_server_fd s"
| "component_fd (Receiver _ s _) = sancus_nl_receiver_fd s"

fun component_app :: "int \<Rightarrow> (event \<Rightarrow> bool) \<Rightarrow> ('w, 'u) component \<Rightarrow> bool" where
  "component_app fd Q (Stream st _ _) = stream_app fd Q st"
| "component_app fd Q (Conn st _ _) = conn_app fd Q st"
| "component_app fd Q (Server st _ _) = server_app fd Q st"
| "component_app fd Q (Receiver st _ _) = receiver_app fd Q st"

definition component_ok :: "int \<Rightarrow> (event \<Rightarrow> bool) \<Rightarrow> ('w, 'u) component \<Rightarrow> bool" where
  "component_ok fd Q x \<longleftrightarrow> keeps fd (component_fd x) \<and> component_app fd Q x"

text \<open>A run of the loop: the events in the order it delivers them, each with the component it is for.\<close>

fun dispatch ::
  "('e \<Rightarrow> 'o \<Rightarrow> kernel \<Rightarrow> 'o run) \<Rightarrow> ('i \<times> 'e) list \<Rightarrow> ('i \<Rightarrow> 'o) \<Rightarrow> kernel \<Rightarrow> ('i \<Rightarrow> 'o) run" where
  "dispatch handle [] objs k = Some (Done objs, k)"
| "dispatch handle (e # es) objs k =
     rbind (handle (snd e) (objs (fst e)) k) (\<lambda>x k. dispatch handle es (objs(fst e := x)) k)"

subsection \<open>The callbacks of a stream\<close>

abbreviation (input) stream_keeps :: "int \<Rightarrow> 'x \<times> 'w sancus_stream \<times> 'u \<Rightarrow> bool" where
  "stream_keeps fd \<equiv> (\<lambda>x. keeps fd (sancus_stream_fd (fst (snd x))))"

lemma stream_fd_upd [simp]:
  "sancus_stream_fd (s\<lparr>read_buffer := b\<rparr>) = sancus_stream_fd s" "sancus_stream_fd (s\<lparr>read_watcher := w\<rparr>) = ev_fd w"
  by (simp_all add: sancus_stream_fd_def)

lemma stream_appD:
  assumes "stream_app fd Q st" "keeps fd (sancus_stream_fd s)"
  shows "exact (allowed fd Q) (stream_keeps fd) (on_error st e s u)"
    and "exact (allowed fd Q) (\<lambda>x. keeps fd (sancus_stream_fd (fst x))) (on_close st s u)"
    and "exact (allowed fd Q) (stream_keeps fd) (on_read st p n s u)"
  using assms unfolding stream_app_def by blast+

lemma reprised_available:
  assumes "read_buffer_available st s u k = Some y"
  shows "stream_app fd Q st \<and> keeps fd (sancus_stream_fd s) \<longrightarrow>
    reprised (allowed fd Q) (stream_keeps fd) (read_buffer_available st s u) k y"
proof (rule read_buffer_available.raw_induct [of "\<lambda>st s u k y. stream_app fd Q st \<and> keeps fd (sancus_stream_fd s) \<longrightarrow>
      reprised (allowed fd Q) (stream_keeps fd) (read_buffer_available st s u) k y", OF _ assms], rule impI)
  fix f and st :: "('a, 'b) sancus_stream_settings" and s :: "'a sancus_stream" and u :: 'b and k y
  let ?body = "\<lambda>f k. if sancus_buffer_available (read_buffer s) = 0 then
      rbind (Some (on_error st SANCUS_STREAM_READ_FULL s u k)) (\<lambda>r k.
        if fst r then Some (Done r, k) else f st (fst (snd r)) (snd (snd r)) k)
    else Some (Done (False, s, u), k)"
  assume IH: "\<And>st s u k y. f st s u k = Some y \<Longrightarrow> stream_app fd Q st \<and> keeps fd (sancus_stream_fd s) \<longrightarrow>
        reprised (allowed fd Q) (stream_keeps fd) (read_buffer_available st s u) k y"
    and y: "?body f k = Some y" and st: "stream_app fd Q st \<and> keeps fd (sancus_stream_fd s)"
  have f: "keeps fd (sancus_stream_fd s) \<Longrightarrow>
      tracks (allowed fd Q) (stream_keeps fd) (f st s u) (read_buffer_available st s u)" for s u
    using IH st by (intro tracksI) simp
  note o = stream_appD(1) [OF conjunct1 [OF st]]
  have "tracks (allowed fd Q) (stream_keeps fd) (?body f) (?body read_buffer_available)"
    by (rule exact_rules f o | (simp add: st; fail))+
  then have "tracks (allowed fd Q) (stream_keeps fd) (?body f) (read_buffer_available st s u)"
    by (subst read_buffer_available.simps [abs_def])
  from tracks_reprised [OF this y]
  show "reprised (allowed fd Q) (stream_keeps fd) (read_buffer_available st s u) k y" .
qed

lemma reprised_read_loop:
  assumes "read_loop ev st s u k = Some y"
  shows "stream_app fd Q st \<and> keeps fd (sancus_stream_fd s) \<longrightarrow>
    reprised (allowed fd Q) (stream_keeps fd) (read_loop ev st s u) k y"
proof (rule read_loop.raw_induct [of "\<lambda>ev st s u k y. stream_app fd Q st \<and> keeps fd (sancus_stream_fd s) \<longrightarrow>
      reprised (allowed fd Q) (stream_keeps fd) (read_loop ev st s u) k y", OF _ assms], rule impI)
  fix f and ev :: "'a ev_api" and st :: "('a, 'b) sancus_stream_settings" and s :: "'a sancus_stream" and u :: 'b and k y
  let ?body = "\<lambda>f k. let b = read_buffer s; l = long_cast (uint (sancus_buffer_len_legacy b)) in
      if l = 0 then Some (Done (False, s, u), k)
      else rbind (Some (on_read st (sancus_buffer_data b) (unat (word_of_int l :: u64)) s u k)) (\<lambda>r k.
        if fst r > 0 then
          rbind (Some (slift (sancus_buffer_skip (read_buffer (fst (snd r))) (word_of_int (fst r))) k)) (\<lambda>x k.
            if \<not> ev_active ev (read_watcher (fst (snd r)))
            then Some (Done (False, (fst (snd r))\<lparr>read_buffer := snd x\<rparr>, snd (snd r)), k)
            else f ev st ((fst (snd r))\<lparr>read_buffer := snd x\<rparr>) (snd (snd r)) k)
        else Some (Done (fst r \<noteq> 0, snd r), k))"
  assume IH: "\<And>ev st s u k y. f ev st s u k = Some y \<Longrightarrow> stream_app fd Q st \<and> keeps fd (sancus_stream_fd s) \<longrightarrow>
        reprised (allowed fd Q) (stream_keeps fd) (read_loop ev st s u) k y"
    and y: "?body f k = Some y" and st: "stream_app fd Q st \<and> keeps fd (sancus_stream_fd s)"
  have f: "keeps fd (sancus_stream_fd s) \<Longrightarrow>
      tracks (allowed fd Q) (stream_keeps fd) (f ev st s u) (read_loop ev st s u)" for s u
    using IH st by (intro tracksI) simp
  note o = stream_appD(3) [OF conjunct1 [OF st]]
  have "tracks (allowed fd Q) (stream_keeps fd) (?body f) (?body read_loop)"
    unfolding Let_def by (rule exact_rules f o | (simp add: st; fail))+
  then have "tracks (allowed fd Q) (stream_keeps fd) (?body f) (read_loop ev st s u)"
    by (subst read_loop.simps [abs_def])
  from tracks_reprised [OF this y] show "reprised (allowed fd Q) (stream_keeps fd) (read_loop ev st s u) k y" .
qed

lemma exact_buffer_read:
  "(\<And>n a. C (Read fd n, a)) \<Longrightarrow> exact C (\<lambda>_. True) (sancus_buffer_read b fd)"
  unfolding sancus_buffer_read_def by (rule exact_rules | simp; fail)+

lemma reprised_try_read:
  assumes "try_read ev st s u k = Some y"
  shows "stream_app fd Q st \<and> keeps fd (sancus_stream_fd s) \<longrightarrow>
    reprised (allowed fd Q) (stream_keeps fd) (try_read ev st s u) k y"
proof (rule try_read.raw_induct [of "\<lambda>ev st s u k y. stream_app fd Q st \<and> keeps fd (sancus_stream_fd s) \<longrightarrow>
      reprised (allowed fd Q) (stream_keeps fd) (try_read ev st s u) k y", OF _ assms], rule impI)
  fix f and ev :: "'a ev_api" and st :: "('a, 'b) sancus_stream_settings" and s :: "'a sancus_stream" and u :: 'b and k y
  let ?body = "\<lambda>f k. rbind (Some (sancus_buffer_read (read_buffer s) (ev_fd (read_watcher s)) k)) (\<lambda>r k.
       if fst r > 0 then read_loop ev st (s\<lparr>read_buffer := snd r\<rparr>) u k
       else if fst r = 0 then Some (on_error st SANCUS_STREAM_READ_EOF (s\<lparr>read_buffer := snd r\<rparr>) u k)
       else if - fst r = EINTR then f ev st (s\<lparr>read_buffer := snd r\<rparr>) u k
       else if - fst r = EAGAIN then Some (Done (False, s\<lparr>read_buffer := snd r\<rparr>, u), k)
       else Some (on_error st SANCUS_STREAM_READ_ERROR (s\<lparr>read_buffer := snd r\<rparr>) u k))"
  assume IH: "\<And>ev st s u k y. f ev st s u k = Some y \<Longrightarrow> stream_app fd Q st \<and> keeps fd (sancus_stream_fd s) \<longrightarrow>
        reprised (allowed fd Q) (stream_keeps fd) (try_read ev st s u) k y"
    and y: "?body f k = Some y" and st: "stream_app fd Q st \<and> keeps fd (sancus_stream_fd s)"
  have f: "keeps fd (sancus_stream_fd s) \<Longrightarrow>
      tracks (allowed fd Q) (stream_keeps fd) (f ev st s u) (try_read ev st s u)" for s u
    using IH st by (intro tracksI) simp
  have l: "keeps fd (sancus_stream_fd s) \<Longrightarrow>
      tracks (allowed fd Q) (stream_keeps fd) (read_loop ev st s u) (read_loop ev st s u)" for s u
    by (rule tracksI) (rule reprised_read_loop [THEN mp, OF _ conjI [OF conjunct1 [OF st]]])
  note o = stream_appD(1) [OF conjunct1 [OF st]]
  have "keeps fd (ev_fd (read_watcher s))" using st by (simp add: sancus_stream_fd_def)
  then have r: "exact (allowed fd Q) (\<lambda>_. True) (sancus_buffer_read (read_buffer s) (ev_fd (read_watcher s)))"
    by (intro exact_buffer_read) simp
  have "tracks (allowed fd Q) (stream_keeps fd) (?body f) (?body try_read)"
    by (rule exact_rules f l o r | (simp add: st; fail))+
  then have "tracks (allowed fd Q) (stream_keeps fd) (?body f) (try_read ev st s u)"
    by (subst try_read.simps [abs_def])
  from tracks_reprised [OF this y] show "reprised (allowed fd Q) (stream_keeps fd) (try_read ev st s u) k y" .
qed

lemma exact_close_stream:
  assumes "event_loop ev" "stream_app fd Q st" "keeps fd (sancus_stream_fd s)"
  shows "exact (allowed fd Q) (\<lambda>x. keeps fd (sancus_stream_fd (fst x))) (close_stream ev st loop s u)"
proof -
  let ?s = "sancus_stream_stop ev loop s"
  have k: "sancus_stream_fd ?s = sancus_stream_fd s"
    using event_loop.stop_fd [OF assms(1)] by (simp add: sancus_stream_stop_def sancus_stream_fd_def)
  then have f: "ev_fd (read_watcher ?s) = sancus_stream_fd s" by (simp add: sancus_stream_fd_def)
  show ?thesis
    unfolding close_stream_def sancus_stream_close_def
    by (rule exact_rules stream_appD(2) [OF assms(2)] | (simp add: k f assms(3); fail))+
qed

lemma tracks_read_cb:
  assumes "event_loop ev" "stream_app fd Q st" "keeps fd (sancus_stream_fd s)"
  shows "tracks (allowed fd Q) (\<lambda>x. keeps fd (sancus_stream_fd (fst x)))
    (read_cb ev st loop revents s u) (read_cb ev st loop revents s u)"
proof -
  have a: "keeps fd (sancus_stream_fd s) \<Longrightarrow>
      tracks (allowed fd Q) (stream_keeps fd) (read_buffer_available st s u) (read_buffer_available st s u)" for s u
    by (rule tracksI) (rule reprised_available [THEN mp, OF _ conjI [OF assms(2)]])
  have t: "keeps fd (sancus_stream_fd s) \<Longrightarrow>
      tracks (allowed fd Q) (stream_keeps fd) (try_read ev st s u) (try_read ev st s u)" for s u
    by (rule tracksI) (rule reprised_try_read [THEN mp, OF _ conjI [OF assms(2)]])
  note c = exact_close_stream [OF assms(1,2)]
  show ?thesis
    unfolding read_cb_def [abs_def] by (rule exact_rules a t c | (simp add: assms(3); fail))+
qed

subsection \<open>The callbacks of the other components\<close>

lemma conn_fd_upd [simp]:
  "sancus_tcp_conn_fd (c\<lparr>io := w\<rparr>) = ev_fd w" "sancus_tcp_conn_fd (c\<lparr>state := x\<rparr>) = sancus_tcp_conn_fd c"
  "sancus_tcp_conn_fd (sancus_tcp_conn_touch c loop) = sancus_tcp_conn_fd c"
  by (simp_all add: sancus_tcp_conn_fd_def sancus_tcp_conn_touch_def)

lemma exact_state:
  assumes "exact C R a" "exact C R b" "exact C R d" "exact C R e"
  shows "exact C R (case x of SANCUS_TCP_CONN_INPROGRESS \<Rightarrow> a | SANCUS_TCP_CONN_CONNECTED \<Rightarrow> b
    | SANCUS_TCP_CONN_RUNNING \<Rightarrow> d | SANCUS_TCP_CONN_FAILED \<Rightarrow> e)"
  using assms by (cases x) simp_all

lemma exact_io_cb:
  assumes "event_loop ev" "conn_app fd Q st" "keeps fd (sancus_tcp_conn_fd c)"
  shows "exact (allowed fd Q) (\<lambda>x. keeps fd (sancus_tcp_conn_fd (fst x))) (io_cb ev st loop revents c u)"
proof -
  let ?R = "\<lambda>x. keeps fd (sancus_tcp_conn_fd (fst x))"
  have cb: "keeps fd (sancus_tcp_conn_fd c) \<Longrightarrow> exact (allowed fd Q) ?R (conn_on_read st c u)"
      "keeps fd (sancus_tcp_conn_fd c) \<Longrightarrow> exact (allowed fd Q) ?R (conn_on_connect st c u)"
      "keeps fd (sancus_tcp_conn_fd c) \<Longrightarrow> exact (allowed fd Q) ?R (conn_on_error st e n c u)" for e n c u
    using assms(2) unfolding conn_app_def by blast+
  have k: "keeps fd (ev_fd (io c))" using assms(3) by (simp add: sancus_tcp_conn_fd_def)
  have w: "ev_fd (snd (ev_start ev loop (snd (ev_init ev (snd (ev_stop ev loop (io c))) Io_cb (ev_fd (io c)) (EV_READ ev))))) = ev_fd (io c)"
    by (rule event_loop.rewatch_fd [OF assms(1)])
  have d: "exact (allowed fd Q) ?R (connect_done ev st loop c u)"
    unfolding connect_done_def Let_def by (rule exact_rules cb | (simp add: w k; fail))+
  show ?thesis
    unfolding io_cb_def connect_failed_def
    by (rule exact_rules cb d exact_state | (simp add: assms(3); fail))+
qed

text \<open>A server: the calls behind an accepted connection may close it.\<close>

lemma spans_accept:
  assumes "keeps fd w" "exact (allowed fd Q) R (f (-1, []))"
    and "\<And>n x. exact (\<lambda>e. allowed fd Q e \<or> fst e = Close (int n)) R (f (int n, x))"
  shows "spans (confined fd Q []) R (\<lambda>k. Some (sbind (sancus_accept w) f k))"
  unfolding spans_def
proof (intro allI impI)
  fix k x k' assume "Some (sbind (sancus_accept w) f k) = Some (Done x, k')"
  then obtain y l where y: "sancus_accept w k = (Done y, l)" "f y l = (Done x, k')" by (auto simp: sbind_Done)
  obtain t tr where k: "k = (t, tr)" by (cases k)
  with y(1) raccept.runs [of t w tr] obtain m a as where a: "clip (Accept w) a \<noteq> Err EINTR" "y = accept_result a"
      "l = (as, tr @ replicate m (Accept w, Err EINTR) @ [(Accept w, a)])" by auto
  let ?h = "replicate m (Accept w, Err EINTR) @ [(Accept w, a)]"
  have h: "confined fd Q A ?h" for A using assms(1) by (intro confined_allowed) (simp add: list_all_iff)
  have "\<exists>d. snd k' = snd l @ d \<and> confined fd Q (concat (rev (map accepted ?h))) d \<and> R x \<and>
      (\<forall>s r. f y (map snd d @ s, r) = (Done x, (s, r @ d)))"
  proof (cases a)
    case (Err e)
    with a(2) have "y = (-1, [])" by (simp add: accept_result_def)
    from exact_run [OF assms(2) y(2) [unfolded this]] obtain d where
      "snd k' = snd l @ d" "list_all (allowed fd Q) d" "R x" "\<And>s r. f (-1, []) (map snd d @ s, r) = (Done x, (s, r @ d))" by blast
    with \<open>y = (-1, [])\<close> show ?thesis by (intro exI [of _ d]) (simp add: confined_allowed)
  next
    case (Ret n z)
    with a(2) have z: "y = (int n, z)" by (simp add: accept_result_def)
    have "int n \<in> set (concat (rev (map accepted ?h)))" using Ret by simp
    moreover from exact_run [OF assms(3) y(2) [unfolded z]] obtain d where
      "snd k' = snd l @ d" "list_all (\<lambda>e. allowed fd Q e \<or> fst e = Close (int n)) d" "R x"
      "\<And>s r. f (int n, z) (map snd d @ s, r) = (Done x, (s, r @ d))" by blast
    ultimately show ?thesis using z by (intro exI [of _ d] conjI confined_closing [of fd Q "int n"]) simp_all
  qed
  then obtain d where d: "snd k' = snd l @ d" "confined fd Q (concat (rev (map accepted ?h))) d" "R x"
      "\<And>s r. f y (map snd d @ s, r) = (Done x, (s, r @ d))" by blast
  have "sbind (sancus_accept w) f (map snd (?h @ d) @ s, r) = (Done x, (s, r @ ?h @ d))" for s r
    using raccept.retries [OF a(1), of m "map snd d @ s" r] d(4) [of s "r @ ?h"] a(2) by (simp add: sbind_def)
  with d a(3) k h [of "[]"] show "R x \<and> (\<exists>d. snd k' = snd k @ d \<and> confined fd Q [] d \<and>
      (\<forall>s r. Some (sbind (sancus_accept w) f (map snd d @ s, r)) = Some (Done x, (s, r @ d))))"
    by (intro conjI exI [of _ "?h @ d"]) (simp_all add: confined_append [of fd Q "[]"])
qed

lemma spans_connect_cb:
  assumes "server_app fd Q st" "keeps fd (sancus_tcp_server_fd s)"
  shows "spans (confined fd Q []) (\<lambda>x. keeps fd (sancus_tcp_server_fd (fst x))) (\<lambda>k. Some (connect_cb ev st revents s u k))"
proof -
  let ?R = "\<lambda>x. keeps fd (sancus_tcp_server_fd (fst x))"
  have cb: "exact (allowed fd Q) (\<lambda>x. keeps fd (sancus_tcp_server_fd (fst (snd x)))) (srv_on_connect st n a s u)"
      "exact (allowed fd Q) ?R (srv_on_error st e s u)" for n a e
    using assms unfolding server_app_def by blast+
  have k: "keeps fd (ev_fd (connect s))" using assms(2) by (simp add: sancus_tcp_server_fd_def)
  let ?f = "\<lambda>(fd, addr). if fd < 0 then srv_on_error st SANCUS_TCP_SERVER_ACCEPT_ERROR s u
    else sbind (srv_on_connect st fd addr s u) (\<lambda>(keep, s, u).
      if \<not> keep then sbind (sancus_close2 (Some fd)) (\<lambda>_. sret (s, u)) else sret (s, u))"
  have "exact (\<lambda>e. allowed fd Q e \<or> fst e = Close (int n)) ?R (?f (int n, x))" for n x
  proof -
    let ?C = "\<lambda>e. allowed fd Q e \<or> fst e = Close (int n)"
    have "exact ?C (\<lambda>_. True) (sancus_close2 (Some (int n)))" by (rule exact_close2) simp
    then have "exact ?C ?R (sbind (sancus_close2 (Some (int n))) (\<lambda>_. sret (s, u)))"
      if "keeps fd (sancus_tcp_server_fd s)" for s :: "'a sancus_tcp_server" and u :: 'b
      by (rule exact_sbind) (rule exact_sret, simp add: that)
    then show ?thesis
      using exact_mono [OF cb(1), of ?C "int n" x] by (auto intro!: exact_sbind [where m = "srv_on_connect _ _ _ _ _"] exact_sret)
  qed
  then have read: "spans (confined fd Q []) ?R (\<lambda>k. Some (sbind (sancus_accept (ev_fd (connect s))) ?f k))"
    using cb(2) by (intro spans_accept [OF k]) simp_all
  have err: "spans (confined fd Q []) ?R (\<lambda>k. Some (sfault e k))" for e
    by (simp add: spans_def)
  have idle: "spans (confined fd Q []) ?R (\<lambda>k. Some (sret (s, u) k))"
    by (rule tracks_confined) (rule exact_rules, rule exact_sret, simp add: assms(2))
  show ?thesis
    unfolding connect_cb_def using err read idle by (cases "revents AND EV_ERROR ev \<noteq> 0"; cases "revents AND EV_READ ev \<noteq> 0") simp_all
qed

lemma receiver_fd_upd [simp]: "sancus_nl_receiver_fd (s\<lparr>recv_watcher := w\<rparr>) = ev_fd w"
  by (simp add: sancus_nl_receiver_fd_def)

lemma receiver_appD:
  assumes "receiver_app fd Q st" "keeps fd (sancus_nl_receiver_fd s)"
  shows "exact (allowed fd Q) (\<lambda>x. keeps fd (sancus_nl_receiver_fd (fst (snd x)))) (on_message st m n s u)"
    and "exact (allowed fd Q) (\<lambda>x. keeps fd (sancus_nl_receiver_fd (fst x))) (nl_on_error st e s u)"
  using assms unfolding receiver_app_def by blast+

lemma reprised_extract:
  assumes "extract_loop st m nlh len ret s u k = Some y"
  shows "receiver_app fd Q st \<and> keeps fd (sancus_nl_receiver_fd s) \<longrightarrow>
    reprised (allowed fd Q) (\<lambda>x. keeps fd (sancus_nl_receiver_fd (fst (snd x)))) (extract_loop st m nlh len ret s u) k y"
proof (rule extract_loop.raw_induct [of "\<lambda>st m nlh len ret s u k y.
      receiver_app fd Q st \<and> keeps fd (sancus_nl_receiver_fd s) \<longrightarrow>
      reprised (allowed fd Q) (\<lambda>x. keeps fd (sancus_nl_receiver_fd (fst (snd x)))) (extract_loop st m nlh len ret s u) k y",
      OF _ assms], rule impI)
  fix f and st :: "('a, 'b) sancus_nl_receiver_settings" and m :: "byte list" and nlh :: nat and len ret :: int
    and s :: "'a sancus_nl_receiver" and u :: 'b and k y
  let ?R = "\<lambda>x. keeps fd (sancus_nl_receiver_fd (fst (snd x)))"
  let ?body = "\<lambda>f k. rbind (Some (slift (sancus_nl_msg_ok m nlh len) k)) (\<lambda>ok k.
       if \<not> ok then Some (Done (ret, s, u), k)
       else rbind (Some (slift (sancus_nl_msg_portid_ok m nlh (unat (word_of_int (portid s) :: u32))) k)) (\<lambda>ok k.
         if \<not> ok then Some (Done (-1, s, u), k)
         else rbind (Some (slift (nlmsg_type m nlh) k)) (\<lambda>t k.
           if t \<ge> NLMSG_MIN_TYPE then
             rbind (Some (on_message st m nlh s u k)) (\<lambda>r k.
               if \<not> fst r then Some (Done (0, snd r), k)
               else rbind (Some (slift (sancus_nl_msg_next m nlh len) k)) (\<lambda>n k.
                 f st m (fst n) (snd n) 1 (fst (snd r)) (snd (snd r)) k))
           else rbind (Some (slift (sancus_nl_msg_next m nlh len) k)) (\<lambda>n k.
             f st m (fst n) (snd n) ret s u k))))"
  assume IH: "\<And>st m nlh len ret s u k y. f st m nlh len ret s u k = Some y \<Longrightarrow>
        receiver_app fd Q st \<and> keeps fd (sancus_nl_receiver_fd s) \<longrightarrow>
        reprised (allowed fd Q) ?R (extract_loop st m nlh len ret s u) k y"
    and y: "?body f k = Some y" and st: "receiver_app fd Q st \<and> keeps fd (sancus_nl_receiver_fd s)"
  have f: "keeps fd (sancus_nl_receiver_fd s) \<Longrightarrow>
      tracks (allowed fd Q) ?R (f st m n l r s u) (extract_loop st m n l r s u)" for n l r s u
    using IH st by (intro tracksI) simp
  note o = receiver_appD(1) [OF conjunct1 [OF st]]
  have "tracks (allowed fd Q) ?R (?body f) (?body extract_loop)"
    by (rule exact_rules f o | (simp add: st; fail))+
  then have "tracks (allowed fd Q) ?R (?body f) (extract_loop st m nlh len ret s u)" by (subst extract_loop.simps [abs_def])
  from tracks_reprised [OF this y] show "reprised (allowed fd Q) ?R (extract_loop st m nlh len ret s u) k y" .
qed

lemma exact_recvfrom:
  "(\<And>n a. C (Recvmsg fd n, a)) \<Longrightarrow> exact C (\<lambda>_. True) (sancus_nl_recvfrom fd n)"
  unfolding sancus_nl_recvfrom_def by (rule exact_rules | simp; fail)+

lemma exact_recv_error:
  assumes "event_loop ev" "receiver_app fd Q st" "keeps fd (sancus_nl_receiver_fd s)"
  shows "exact (allowed fd Q) (\<lambda>x. keeps fd (sancus_nl_receiver_fd (fst x))) (recv_error ev st loop s u)"
proof -
  let ?s = "sancus_nl_receiver_stop ev loop s"
  have k: "ev_fd (recv_watcher ?s) = sancus_nl_receiver_fd s"
    using event_loop.stop_fd [OF assms(1)] by (simp add: sancus_nl_receiver_stop_def sancus_nl_receiver_fd_def)
  have c: "exact (allowed fd Q) (\<lambda>s. keeps fd (sancus_nl_receiver_fd s)) (sancus_nl_receiver_close ev ?s)"
    unfolding sancus_nl_receiver_close_def by (rule exact_rules | (simp add: k assms(3); fail))+
  show ?thesis
    unfolding recv_error_def by (rule exact_rules c receiver_appD(2) [OF assms(2)] | assumption)+
qed

lemma tracks_recv_cb:
  assumes "event_loop ev" "receiver_app fd Q st" "keeps fd (sancus_nl_receiver_fd s)"
  shows "tracks (allowed fd Q) (\<lambda>x. keeps fd (sancus_nl_receiver_fd (fst x)))
    (recv_cb ev st loop stack revents s u) (recv_cb ev st loop stack revents s u)"
proof -
  let ?R = "\<lambda>x. keeps fd (sancus_nl_receiver_fd (fst x))"
  have x: "keeps fd (sancus_nl_receiver_fd s) \<Longrightarrow>
      tracks (allowed fd Q) (\<lambda>x. keeps fd (sancus_nl_receiver_fd (fst (snd x))))
        (extract_netlink_message st m n s u) (extract_netlink_message st m n s u)" for m n s u
    unfolding extract_netlink_message_def [abs_def]
    by (rule tracksI) (rule reprised_extract [THEN mp, OF _ conjI [OF assms(2)]])
  have k: "keeps fd (ev_fd (recv_watcher s))" using assms(3) by (simp add: sancus_nl_receiver_fd_def)
  have r: "exact (allowed fd Q) (\<lambda>_. True) (sancus_nl_recvfrom (ev_fd (recv_watcher s)) n)" for n
    using k by (intro exact_recvfrom) simp
  note cb = receiver_appD(2) [OF assms(2)]
  have rd: "tracks (allowed fd Q) ?R (recv_read st stack s u) (recv_read st stack s u)"
    unfolding recv_read_def [abs_def]
    by (rule exact_rules x cb r | (simp add: assms(3) sancus_nl_receiver_fd_def [symmetric]; fail))+
  show ?thesis
    unfolding recv_cb_def [abs_def]
    by (rule exact_rules rd exact_recv_error [OF assms(1,2)] | (simp add: assms(3); fail))+
qed

subsection \<open>Taking a run apart\<close>

text \<open>The events of a component, and what it did in a sequence of events: one list of calls for each.\<close>

definition own :: "'i \<Rightarrow> ('i \<times> 'e) list \<Rightarrow> 'e list" where
  "own i es = map snd (filter (\<lambda>e. fst e = i) es)"

fun served ::
  "('e \<Rightarrow> 'o \<Rightarrow> kernel \<Rightarrow> 'o run) \<Rightarrow> 'e list \<Rightarrow> 'o \<Rightarrow> event list list \<Rightarrow> 'o \<Rightarrow> bool" where
  "served handle [] x [] y \<longleftrightarrow> x = y"
| "served handle (e # es) x (d # ds) y \<longleftrightarrow>
     (\<exists>z. (\<forall>s r. handle e x (map snd d @ s, r) = Some (Done z, (s, r @ d))) \<and> served handle es z ds y)"
| "served handle _ x _ y \<longleftrightarrow> False"

text \<open>The calls of the components in the order of the events.\<close>

fun merge :: "('i \<times> 'e) list \<Rightarrow> ('i \<Rightarrow> event list list) \<Rightarrow> event list" where
  "merge [] D = []"
| "merge (e # es) D = hd (D (fst e)) @ merge es (D(fst e := tl (D (fst e))))"

lemma own_simps [simp]:
  "own i [] = []" "own i (e # es) = (if fst e = i then snd e # own i es else own i es)"
  "own j (filter (\<lambda>e. fst e = i) es) = (if i = j then own i es else [])"
  by (simp_all add: own_def)

lemma served_Nil: "served handle [] x ds y \<longleftrightarrow> ds = [] \<and> x = y"
  by (cases ds) auto

lemma served_Cons:
  "served handle (e # es) x ds y \<longleftrightarrow> (\<exists>d ds' z. ds = d # ds' \<and>
     (\<forall>s r. handle e x (map snd d @ s, r) = Some (Done z, (s, r @ d))) \<and> served handle es z ds' y)"
  by (cases ds) auto

lemma put_together:
  assumes "\<And>i. served handle (own i es) (objs i) (D i) (objs' i)"
  shows "dispatch handle es objs (map snd (merge es D) @ s, r) = Some (Done objs', (s, r @ merge es D))"
  using assms
proof (induction es arbitrary: objs D r)
  case Nil
  then have "objs = objs'" by (intro ext) (simp add: served_Nil)
  then show ?case by simp
next
  case (Cons e es)
  obtain d ds z where d: "D (fst e) = d # ds" "\<And>s r. handle (snd e) (objs (fst e)) (map snd d @ s, r) = Some (Done z, (s, r @ d))"
      "served handle (own (fst e) es) z ds (objs' (fst e))"
    using Cons.prems [of "fst e"] by (auto simp: served_Cons)
  have "dispatch handle es (objs(fst e := z)) (map snd (merge es (D(fst e := ds))) @ s, r @ d) =
      Some (Done objs', (s, (r @ d) @ merge es (D(fst e := ds))))"
  proof (rule Cons.IH)
    fix i
    show "served handle (own i es) ((objs(fst e := z)) i) ((D(fst e := ds)) i) (objs' i)"
      using d(3) Cons.prems [of i] by (cases "i = fst e") simp_all
  qed
  then show ?case using d(1,2) by simp
qed

lemma merge_own:
  "served handle (own i es) x (D i) y \<Longrightarrow> merge (filter (\<lambda>e. fst e = i) es) D = concat (D i)"
proof (induction es arbitrary: x D)
  case (Cons e es)
  show ?case
  proof (cases "fst e = i")
    case True
    then obtain d ds z where "D i = d # ds" "served handle (own i es) z ds y"
      using Cons.prems by (auto simp: served_Cons)
    then have "merge (filter (\<lambda>e. fst e = i) es) (D(i := ds)) = concat ds"
      using Cons.IH [of z "D(i := ds)"] unfolding fun_upd_same by blast
    then show ?thesis using True \<open>D i = d # ds\<close> by simp
  next
    case False
    then show ?thesis using Cons by simp
  qed
qed (simp add: served_Nil)

text \<open>
  The contract of the callbacks of the components: a component that is as it should be makes only calls
  it may make in their order, depends only on their answers, and stays as it should be.
\<close>

locale event_driven =
  fixes handle :: "'e \<Rightarrow> 'o \<Rightarrow> kernel \<Rightarrow> 'o run" and ok :: "'i \<Rightarrow> 'o \<Rightarrow> bool" and may :: "'i \<Rightarrow> event list \<Rightarrow> bool"
  assumes own_calls: "ok i x \<Longrightarrow> spans (may i) (ok i) (handle e x)"
    and may_none: "may i []" and may_then: "may i d \<Longrightarrow> may i d' \<Longrightarrow> may i (d @ d')"
begin

lemma taken_apart:
  assumes "dispatch handle es objs k = Some (Done objs', k')" "\<And>i. ok i (objs i)"
  shows "\<exists>D. snd k' = snd k @ merge es D \<and>
    (\<forall>i. served handle (own i es) (objs i) (D i) (objs' i) \<and> may i (concat (D i)))"
  using assms
proof (induction es arbitrary: objs k)
  case Nil
  then show ?case by (intro exI [of _ "\<lambda>_. []"]) (simp add: may_none)
next
  case (Cons e es)
  let ?i = "fst e"
  obtain z l where z: "handle (snd e) (objs ?i) k = Some (Done z, l)"
      "dispatch handle es (objs(?i := z)) l = Some (Done objs', k')"
    using Cons.prems(1) by (auto simp: rbind_Done)
  obtain d where d: "snd l = snd k @ d" "may ?i d" "ok ?i z"
      "\<And>s r. handle (snd e) (objs ?i) (map snd d @ s, r) = Some (Done z, (s, r @ d))"
    using spansD [OF own_calls [OF Cons.prems(2)] z(1)] by metis
  have "ok i ((objs(?i := z)) i)" for i using Cons.prems(2) d(3) by simp
  from Cons.IH [OF z(2) this] obtain D where D: "snd k' = snd l @ merge es D"
      "\<And>i. served handle (own i es) ((objs(?i := z)) i) (D i) (objs' i)" "\<And>i. may i (concat (D i))" by blast
  have "merge (e # es) (D(?i := d # D ?i)) = d @ merge es D" by simp
  then have "snd k' = snd k @ merge (e # es) (D(?i := d # D ?i))" using D(1) d(1) by simp
  moreover have "served handle (own i (e # es)) (objs i) ((D(?i := d # D ?i)) i) (objs' i)" for i
    using D(2) [of i] d(4) by auto
  moreover have "may i (concat ((D(?i := d # D ?i)) i))" for i using D(3) [of i] may_then [OF d(2), of "concat (D ?i)"] by auto
  ultimately show ?case by blast
qed

lemma alone:
  assumes "dispatch handle es objs (t, []) = Some (Done objs', (t', tr))" "\<And>i. ok i (objs i)"
  shows "\<exists>D. tr = merge es D \<and>
    (\<forall>i. may i (concat (D i)) \<and>
      dispatch handle (filter (\<lambda>e. fst e = i) es) objs (map snd (concat (D i)), []) =
        Some (Done (objs(i := objs' i)), ([], concat (D i))))"
proof -
  obtain D where D: "tr = merge es D" "\<And>i. served handle (own i es) (objs i) (D i) (objs' i)"
      "\<And>i. may i (concat (D i))"
    using taken_apart [OF assms] by auto
  have "dispatch handle (filter (\<lambda>e. fst e = i) es) objs (map snd (concat (D i)), []) =
       Some (Done (objs(i := objs' i)), ([], concat (D i)))" for i
  proof -
    let ?D = "(\<lambda>_. [])(i := D i)"
    have "served handle (own j (filter (\<lambda>e. fst e = i) es)) (objs j) (?D j) ((objs(i := objs' i)) j)" for j
      using D(2) [of i] by simp
    then have run: "dispatch handle (filter (\<lambda>e. fst e = i) es) objs (map snd (merge (filter (\<lambda>e. fst e = i) es) ?D) @ [], []) =
        Some (Done (objs(i := objs' i)), ([], [] @ merge (filter (\<lambda>e. fst e = i) es) ?D))"
      by (rule put_together)
    have "merge (filter (\<lambda>e. fst e = i) es) ?D = concat (D i)"
      using merge_own [of handle i es "objs i" ?D "objs' i"] D(2) [of i] unfolding fun_upd_same by blast
    then show ?thesis using run by simp
  qed
  with D(1,3) show ?thesis by blast
qed

end

lemma component_spans:
  assumes "event_loop ev" "component_ok fd Q x"
  shows "spans (confined fd Q []) (component_ok fd Q) (component_event ev e x)"
proof (cases x)
  case (Stream st s u)
  with assms(2) have a: "stream_app fd Q st" "keeps fd (sancus_stream_fd s)" by (simp_all add: component_ok_def)
  note r = tracks_confined [OF tracks_read_cb [OF assms(1) a]]
  show ?thesis unfolding Stream component_event.simps [abs_def]
    by (rule spans_map [OF r]) (simp add: component_ok_def a)
next
  case (Conn st c u)
  with assms(2) have a: "conn_app fd Q st" "keeps fd (sancus_tcp_conn_fd c)" by (simp_all add: component_ok_def)
  note r = tracks_confined [OF tracks_sys [OF exact_io_cb [OF assms(1) a]]]
  show ?thesis unfolding Conn component_event.simps [abs_def]
    by (rule spans_map [OF r]) (simp add: component_ok_def a)
next
  case (Server st s u)
  with assms(2) have a: "server_app fd Q st" "keeps fd (sancus_tcp_server_fd s)" by (simp_all add: component_ok_def)
  show ?thesis unfolding Server component_event.simps [abs_def]
    by (rule spans_map [OF spans_connect_cb [OF a]]) (simp add: component_ok_def a)
next
  case (Receiver st s u)
  with assms(2) have a: "receiver_app fd Q st" "keeps fd (sancus_nl_receiver_fd s)" by (simp_all add: component_ok_def)
  note r = tracks_confined [OF tracks_recv_cb [OF assms(1) a]]
  show ?thesis unfolding Receiver component_event.simps [abs_def]
    by (rule spans_map [OF r]) (simp add: component_ok_def a)
qed

sublocale event_loop \<subseteq> co: event_driven "component_event ev" "\<lambda>i. component_ok (fds i) (Q i)" "\<lambda>i. confined (fds i) (Q i) []"
  for fds :: "'i \<Rightarrow> int" and Q :: "'i \<Rightarrow> event \<Rightarrow> bool"
  by unfold_locales (rule component_spans [OF event_loop_axioms], assumption, simp, rule confined_both)

context event_loop
begin

lemmas components_alone = co.alone

end

subsection \<open>A run\<close>

text \<open>A connection that counts the bytes it reads, and a server that counts the connections it turns away.\<close>

definition example_ev :: "unit ev_api" where
  "example_ev = sancus_ev\<lparr>EV_READ := 1, EV_WRITE := 2, EV_ERROR := 4\<rparr>"

definition example_conn :: "nat \<Rightarrow> (unit, nat) component" where
  "example_conn n = Conn
     \<lparr>conn_on_read = \<lambda>c u. sbind (sancus_read (sancus_tcp_conn_fd c) 4) (\<lambda>x. sret (c, u + length (snd x))),
      conn_on_connect = \<lambda>c u. sret (c, u), conn_on_error = \<lambda>e n c u. sret (c, u)\<rparr>
     \<lparr>io = \<lparr>ev_fd = 3, ev_cb = Io_cb\<rparr>, state = SANCUS_TCP_CONN_RUNNING, last_activity = TIMESPEC_INIT 5 0\<rparr> n"

definition example_server :: "nat \<Rightarrow> (unit, nat) component" where
  "example_server n = Server
     \<lparr>pre_bind = None, srv_on_connect = \<lambda>fd a s u. sret (False, s, Suc u), srv_on_error = \<lambda>e s u. sret (s, u)\<rparr>
     \<lparr>connect = \<lparr>ev_fd = 4, ev_cb = Connect_cb\<rparr>\<rparr> n"

definition example_objs :: "bool \<Rightarrow> (unit, nat) component" where
  "example_objs i = (if i then example_conn 0 else example_server 0)"

definition example_event :: loop_event where
  "example_event = \<lparr>le_loop = \<lparr>ev_loop_now = TIMESPEC_INIT 5 0\<rparr>, le_flags = 1, le_stack = []\<rparr>"

definition example_answers :: "answer list" where
  "example_answers = [Ret 0 [7, 8], Err EINTR, Ret 9 [], Ret 0 [], Ret 0 [6]]"

lemma example_loop: "event_loop example_ev"
  unfolding example_ev_def by (rule event_loop_flags) (rule hdr.event_loop_axioms)

lemma example_ok: "component_ok (if i then 3 else 4) (\<lambda>_. False) (example_objs i)"
proof (cases i)
  case True
  have "exact (allowed 3 Q) (\<lambda>x. keeps 3 (sancus_tcp_conn_fd (fst x)))
      (sbind (sancus_read (sancus_tcp_conn_fd c) 4) (\<lambda>x. sret (c, u + length (snd x))))"
    if "keeps 3 (sancus_tcp_conn_fd c)" for Q u and c :: "unit sancus_tcp_conn"
    by (rule exact_rules | (simp add: that; fail))+
  then show ?thesis
    using True by (auto simp: example_objs_def example_conn_def component_ok_def conn_app_def sancus_tcp_conn_fd_def exact_sret)
next
  case False
  then show ?thesis
    by (auto simp: example_objs_def example_server_def component_ok_def server_app_def sancus_tcp_server_fd_def exact_sret)
qed

lemma example_conn_event:
  "component_event example_ev example_event (example_conn n) (Ret m [x] # as, tr) =
     Some (Done (example_conn (Suc n)), (as, tr @ [(Read 3 4, Ret 1 [x])]))"
  "component_event example_ev example_event (example_conn n) (Ret m [x, y] # as, tr) =
     Some (Done (example_conn (Suc (Suc n))), (as, tr @ [(Read 3 4, Ret 2 [x, y])]))"
  by (simp_all add: example_conn_def example_event_def example_ev_def io_cb_def sbind_def sancus_tcp_conn_fd_def
      rread.answered read_result_def sancus_tcp_conn_touch_def sancus_ev_now_def)

lemma example_server_event:
  "component_event example_ev example_event (example_server n) (Err EINTR # Ret m [] # Ret 0 [] # as, tr) =
     Some (Done (example_server (Suc n)), (as, tr @ [(Accept 4, Err EINTR), (Accept 4, Ret m []), (Close (int m), Ret 0 [])]))"
  by (simp add: example_server_def example_event_def example_ev_def connect_cb_def sbind_def
      raccept.interrupted raccept.answered rclose.answered accept_result_def sancus_close2_def)

lemma example_dispatch:
  "\<exists>objs' tr. dispatch (component_event example_ev) [(True, example_event), (False, example_event), (True, example_event)]
      example_objs (example_answers, []) = Some (Done objs', ([], tr)) \<and>
    objs' True = example_conn 3 \<and> objs' False = example_server 1"
  using example_conn_event(2) [of 0 0 7 8] example_server_event [of 0 9] example_conn_event(1) [of "Suc (Suc 0)" 0 6 "[]"]
  by (auto simp: example_objs_def example_answers_def numeral_3_eq_3)

subsection \<open>Properties\<close>

text \<open>
  C8. Components side by side under one loop: in a run of events that returned, each stream, connection,
  server and receiver made the calls \<open>concat (D i)\<close>, of which each is on its own descriptor, or on \<open>-1\<close>, the
  value that stands for the descriptor once it was closed and is none, or one of the calls \<open>Q i\<close> its
  application makes, or closes a descriptor it accepted before: the library passes no other descriptor to the
  kernel, and so none of another component. Without the others, on the answers to its own calls, a component
  ends as it did among them.
\<close>

theorem components_apart:
  assumes "event_loop ev" and "\<And>i. component_ok (fds i) (Q i) (objs i)"
    and "dispatch (component_event ev) es objs (t, []) = Some (Done objs', (t', tr))"
  shows "\<exists>D. tr = merge es D \<and>
    (\<forall>i. confined (fds i) (Q i) [] (concat (D i)) \<and>
      dispatch (component_event ev) (filter (\<lambda>e. fst e = i) es) objs (map snd (concat (D i)), []) =
        Some (Done (objs(i := objs' i)), ([], concat (D i))))"
  using event_loop.components_alone [OF assms(1,3), of fds Q] assms(2) by blast

theorem components_apart_witness:
  "\<exists>objs' D. dispatch (component_event example_ev) [(False, example_event)] example_objs
      (map snd (concat (D False)), []) = Some (Done objs', ([], concat (D False))) \<and>
    objs' False = example_server 1 \<and> objs' True = example_conn 0 \<and>
    confined 4 (\<lambda>_. False) [] (concat (D False)) \<and> confined 3 (\<lambda>_. False) [] (concat (D True))"
proof -
  obtain objs' tr where r: "dispatch (component_event example_ev)
      [(True, example_event), (False, example_event), (True, example_event)]
      example_objs (example_answers, []) = Some (Done objs', ([], tr))" "objs' False = example_server 1"
    using example_dispatch by blast
  let ?es = "[(True, example_event), (False, example_event), (True, example_event)]"
  obtain D where D: "\<forall>i. confined (if i then 3 else 4) (\<lambda>_. False) [] (concat (D i)) \<and>
      dispatch (component_event example_ev) (filter (\<lambda>e. fst e = i) ?es) example_objs (map snd (concat (D i)), []) =
        Some (Done (example_objs(i := objs' i)), ([], concat (D i)))"
    using components_apart [OF example_loop example_ok r(1)] by blast
  from D [rule_format, of False] D [rule_format, of True]
  have "confined 4 (\<lambda>_. False) [] (concat (D False))" "confined 3 (\<lambda>_. False) [] (concat (D True))"
      "dispatch (component_event example_ev) [(False, example_event)] example_objs
        (map snd (concat (D False)), []) = Some (Done (example_objs(False := objs' False)), ([], concat (D False)))"
    by (simp_all del: dispatch.simps)
  then show ?thesis
    using r(2) by (intro exI [of _ "example_objs(False := objs' False)"] exI [of _ D]) (simp add: example_objs_def)
qed

end
