(* ===== verification/Spec2Isabelle.thy ===== *)
theory Spec2Isabelle
  imports
    Common Time Time_Tests Clock Types Bits Alloc
    Double Time_Fp Types_Fp Time_Text
    DList Buffer Buffer_Type Buffer_Legacy Fmt
    Kernel Fd Serial
    Logger Log_Calls Hexdump Log_Threads
    Ev Replay Streams Sockaddr Tcp_Conn Tcp_Server
    Netlink_Msg Netlink_Attr Netlink_Io Dispatch
begin

text \<open>
  A verification development for the sancus C library (\<^verbatim>\<open>src/include/sancus\<close>, \<^verbatim>\<open>src/src/sancus\<close>,
  \<^verbatim>\<open>src/src/netlink\<close>): utilities for event-driven network programs.

  \<^bold>\<open>The program.\<close> At the bottom are values and containers: durations and clocks, checked conversions, bit
  fields, bounded copies, an allocator hook, an intrusive list and two kinds of byte buffer. Above
  them, wrappers of system calls that try again on \<open>EINTR\<close>, the escape of data as a C string, and
  a logger that renders messages into buffers and hands them to a backend, by default one that writes to
  a descriptor. On top are the components driven by an event loop: streams read a descriptor into an input
  buffer and offer it to the application, connections and servers open sockets and report what becomes
  of them, and the netlink receiver takes messages off a socket that applications build and read with
  the message and attribute functions. Serial ports stand beside them.

  \<^bold>\<open>How it is modelled.\<close> C code becomes HOL functions with the names of the source. Structs are
  records, enums datatypes; \<open>unsigned\<close>, \<open>size_t\<close> and \<open>uintN_t\<close> values whose wrap-around matters are words,
  signed values are integers whose overflow is checked (\<open>as_long\<close>) or cast (\<open>int_cast\<close>) where the code
  does; the widths are those of 64-bit Linux. A block of memory is its bytes, a pointer an offset, an
  optional pointer an \<open>option\<close>. Code that can go wrong returns \<open>'a exec\<close>, a sum whose left side is
  a fault: a failed assertion, an access outside a block, a signed overflow, a null pointer, a shift by too
  much, a floating number that does not fit an integer. A \<open>double\<close> is a rational number of IEEE binary64,
  an infinity or a NaN, and every operation on it rounds once. Code that calls the kernel is \<open>'a sys\<close>: it takes the answers the kernel is going to give and
  the trace of the calls so far, and ends with a value, a fault, or waiting for an answer. Loops
  recurse on their data or on the answers left, with a termination proof, and so need no fuel; the three
  loops of the program that can spin without taking an answer (reading a stream, its wait for room, and the
  messages of a netlink datagram) are partial functions into an option, and \<open>None\<close> is not returning.

  \<^bold>\<open>The theories.\<close>
  \<^item> \<open>Prelude\<close>: the types, faults and the binding of \<open>'a exec\<close>, blocks of bytes and the fields in them;
    \<open>Common\<close> (\<^verbatim>\<open>common.h\<close>): the macros that compute.
  \<^item> \<open>Time\<close> (\<^verbatim>\<open>time.h\<close>, \<^verbatim>\<open>time.c\<close>), \<open>Time_Tests\<close> (\<^verbatim>\<open>src/tests/time.c\<close>) and \<open>Clock\<close> (\<^verbatim>\<open>clock.h\<close>, \<^verbatim>\<open>clock.c\<close>): on
    which operands addition is exact and what it gives on the others, that intervals between readings
    are right, comparison, normalisation, and that the test program of the repository passes.
  \<^item> \<open>Double\<close>: rounding to nearest with ties to even, executable, for \<open>double\<close> and \<open>long double\<close>; the error of a
    rounding, that numbers of the format are kept, and that order is kept. On it \<open>Time_Fp\<close> (\<^verbatim>\<open>time.h\<close>,
    \<^verbatim>\<open>clock.h\<close>), \<open>Types_Fp\<close> (\<^verbatim>\<open>types.h\<close>, with \<open>strtod\<close>) and \<open>Time_Text\<close>: durations survive the way through a
    \<open>double\<close> and through text, within bounds that the rounding errors give, and where they do not.
  \<^item> \<open>Types\<close> (\<^verbatim>\<open>types.h\<close>), \<open>Bits\<close> (\<^verbatim>\<open>bit.h\<close>, \<^verbatim>\<open>string.h\<close>), \<open>Alloc\<close> (\<^verbatim>\<open>alloc.h\<close>): parsing gives back printed numbers,
    fields are read back, copies stay in bounds, zeroed allocation and its release.
  \<^item> \<open>DList\<close> (\<^verbatim>\<open>list.h\<close>): the heap of linked cells refines sequences of nodes; every traversal ends.
  \<^item> \<open>Buffer\<close> (\<^verbatim>\<open>buffer.h\<close>, \<^verbatim>\<open>buffer_local.h\<close>, \<^verbatim>\<open>buffer.c\<close>) and \<open>Buffer_Legacy\<close> (\<^verbatim>\<open>buffer_legacy.h\<close>, \<^verbatim>\<open>buffer_legacy.c\<close>):
    what every operation does to the contents and the room, on every branch; the second is a queue.
    \<open>Buffer_Type\<close>: the invariant of a buffer under every sequence of calls.
  \<^item> \<open>Fmt\<close> (\<^verbatim>\<open>fmt.h\<close>, \<^verbatim>\<open>fmt_cstr.c\<close>): the text of escaped data decodes to the data that fitted.
  \<^item> \<open>Kernel\<close>, \<open>Fd\<close> (\<^verbatim>\<open>fd.h\<close>, \<^verbatim>\<open>fd.c\<close>, \<^verbatim>\<open>socket.h\<close>) and \<open>Serial\<close> (\<^verbatim>\<open>serial.h\<close>, \<^verbatim>\<open>sancus_serial.c\<close>): the locale \<open>retry\<close> is the
    contract of a retrying wrapper and is interpreted for close, read, accept and open; complete
    writes; who owns a descriptor; terminal settings. Descriptors are counted by the rule of Linux: a
    call of \<open>close\<close> releases the descriptor whatever it answers, also \<open>EINTR\<close>. \<open>held\<close> is what a trace
    opened and never passed to \<open>close\<close>; the call that \<open>sancus_close\<close> repeats after \<open>EINTR\<close> is a further
    call on a descriptor that is gone already, and the properties that say \<open>closed once\<close> count it
    separately (\<open>again\<close>, \<open>repeated\<close>, \<open>closing\<close>).
  \<^item> \<open>Logger\<close>, \<open>Log_Calls\<close>, \<open>Hexdump\<close> (\<^verbatim>\<open>logger.h\<close>, \<^verbatim>\<open>logger.c\<close>): prefixes, messages, dumps and their bounds, the lines of
    the descriptor backend, levels, the macros programs use, and the rows of a hexdump.
  \<^item> \<open>Log_Threads\<close> (\<^verbatim>\<open>logger.c\<close>): threads in the descriptor backend as a step relation, one shared access at a
    time. The locale \<open>lock_discipline\<close> gives mutual exclusion; the lines of the threads are written in
    the order of the mutex and do not mix; the static times are raced on: two threads reach a state in which
    each has a step that stores into them. What \<open>fd_logger_write\<close> of \<open>Logger\<close> does is also a run of one thread.
  \<^item> \<open>Ev\<close> (\<^verbatim>\<open>ev.h\<close>): the interface of the event loop as a record, its contract as the locale \<open>event_loop\<close>,
    which the definitions of the header satisfy. The components take the interface as an argument,
    because with the flags of the header nothing would ever be read (\<open>stream_never_reads\<close>).
  \<^item> \<open>Streams\<close> (\<^verbatim>\<open>stream.h\<close>, \<^verbatim>\<open>stream.c\<close>): an event refines a queue that is fed to a consumer.
  \<^item> \<open>Sockaddr\<close>, \<open>Tcp_Conn\<close> (\<^verbatim>\<open>tcp_conn.h\<close>, \<^verbatim>\<open>tcp_conn.c\<close>), \<open>Tcp_Server\<close> (\<^verbatim>\<open>tcp_server.h\<close>, \<^verbatim>\<open>tcp_server.c\<close>): the locale \<open>endpoint\<close>
    says that an operation ends with an open descriptor or none left open; the life of a connection
    is a step relation that the callback implements, for every application, whose callbacks it wraps so
    that they write down what they are told; what happens to accepted connections.
  \<^item> \<open>Netlink_Msg\<close>, \<open>Netlink_Attr\<close>, \<open>Netlink_Io\<close> (\<^verbatim>\<open>netlink.h\<close>, \<^verbatim>\<open>netlink_msg.c\<close>, \<^verbatim>\<open>netlink_attr.c\<close>, \<^verbatim>\<open>netlink_io.c\<close>): messages on
    blocks of bytes, building and parsing, the receiver, and where its loop does not end.
  \<^item> \<open>Replay\<close>: a judgement about code that calls the kernel: which calls it makes, what its result satisfies, and
    that it depends on the answers to its own calls only. \<open>Dispatch\<close>: streams, connections, servers and receivers
    together under one loop, which delivers events in any order; the locale \<open>event_driven\<close> takes an interleaved
    run apart into the runs of its members, and every event loop that keeps the contract gives one. The
    states of the members are disjoint by their types; what is proved is about their calls: which
    descriptors the library itself touches, the applications apart.
  \<^item> This theory: properties of components working together. What is written to a pipe is what a stream at
    its other end delivers; attributes put in a netlink message are what the application of a receiver
    reads; a server whose connections are streams closes every descriptor it accepted, once unless a
    close is interrupted; a message logged with a macro is on the descriptor of the library's backend
    once, when the kernel takes the line whole, or nothing is, as the bits of the nearest mask say.

  \<^bold>\<open>Arguments of the model.\<close> Not under \<^verbatim>\<open>src\<close> and so arguments: the answers of the kernel, of which
  only what the manual pages promise is assumed (counts are not larger than asked for, error numbers are
  positive), \<open>inet_pton\<close>, the speed setters of the terminal, \<open>realloc\<close>, the clock, the text that a format
  and its arguments give, and the callbacks of the applications. The properties say what they assume of
  callbacks, and have witnesses with concrete ones.

  \<^bold>\<open>Not modelled.\<close> Compiler attributes in \<^verbatim>\<open>common.h\<close>; the event loop itself, which is not in the sources;
  \<open>errno\<close> as a variable, where the answer of the failed call stands for it; the sign of a zero of type
  \<open>double\<close>, which nothing here can tell; threads outside the descriptor backend, since no other part of
  the library takes a lock. \<open>sancus_tcp_conn_elapsed\<close> takes the address of a value and does not compile
  where it is used; its model has the values.
\<close>

subsection \<open>From one end of a pipe to the other\<close>

text \<open>An application that collects what it is offered.\<close>

definition gathering :: "('w, byte list) sancus_stream_settings" where
  "gathering =
     \<lparr>on_error = \<lambda>e s u. sret (True, s, u), on_close = \<lambda>s u. sret (s, u),
      on_read = \<lambda>p n s u. sret (int n, s, u @ take n (drop p (b_buf (read_buffer s))))\<rparr>"

lemma gathering_consumer: "consumer gathering (\<lambda>u q. (int (length q), u @ q))"
proof -
  have "int (length (contents b)) \<le> LONG_MAX" if "buf_wf b" for b
  proof -
    have "length (contents b) < 9223372036854775808"
      using that length_contents [OF that] by (simp add: buf_wf_def)
    then show ?thesis by linarith
  qed
  then show ?thesis
    by (simp add: consumer_def gathering_def sancus_buffer_data_def length_contents) (simp add: contents_def)
qed

lemma gathering_feed: "feed (\<lambda>u q. (int (length q), u @ q)) a u q = (False, [], u @ q)"
proof (cases "q = []")
  case False
  then show ?thesis by (cases a) (simp_all add: feed_turn)
qed (simp add: feed_turn)

text \<open>A number of read events in a row.\<close>

fun read_events ::
  "'w ev_api \<Rightarrow> ('w, 'u) sancus_stream_settings \<Rightarrow> sancus_ev_loop \<Rightarrow> u32 \<Rightarrow> nat \<Rightarrow> 'w sancus_stream \<Rightarrow> 'u \<Rightarrow> kernel \<Rightarrow>
   ('w sancus_stream \<times> 'u) run" where
  "read_events ev st loop revents 0 s u k = Some (Done (s, u), k)"
| "read_events ev st loop revents (Suc j) s u k =
     rbind (read_cb ev st loop revents s u k) (\<lambda>(s, u) k. read_events ev st loop revents j s u k)"

text \<open>The answers of a kernel that delivers chunks, each after some interruptions.\<close>

definition delivered :: "(nat \<times> byte list) list \<Rightarrow> answer list" where
  "delivered xs = concat (map (\<lambda>(n, x). replicate n (Err EINTR) @ [Ret (length x) x]) xs)"

lemma delivered_simps [simp]:
  "delivered [] = []" "delivered ((n, x) # xs) = replicate n (Err EINTR) @ Ret (length x) x # delivered xs"
  by (simp_all add: delivered_def)

lemma gathering_events:
  assumes "revents AND EV_ERROR ev = 0" and "revents AND EV_READ ev \<noteq> 0"
    and "list_all (\<lambda>(n, x). x \<noteq> [] \<and> length x \<le> unat (b_size (read_buffer s))) xs" and "unat (b_size (read_buffer s)) < 2 ^ 32"
    and "buf_wf (read_buffer s)" and "contents (read_buffer s) = []" and "b_base (read_buffer s) = 0"
  shows "\<exists>s' tr'. read_events ev gathering loop revents (length xs) s u (delivered xs, tr) =
      Some (Done (s', u @ concat (map snd xs)), ([], tr')) \<and> contents (read_buffer s') = []"
  using assms(3-)
proof (induction xs arbitrary: s u tr)
  case (Cons p xs)
  obtain n x where p: "p = (n, x)" by (cases p)
  let ?b = "read_buffer s"
  have len: "length (contents ?b) = unat (b_len ?b)" using length_contents [OF Cons.prems(3)] .
  then have room: "room ?b = unat (b_size ?b)" using Cons.prems(4,5) by (simp add: room_def)
  have x: "x \<noteq> []" "length x \<le> room ?b" using Cons.prems(1) p room by auto
  then have r: "0 < room ?b" "room ?b < 2 ^ 32"
    using Cons.prems(2) room by (cases x; simp)+
  obtain b k' where e: "buf_wf b" "b_size b = b_size ?b" "contents b = []" "b_base b = 0" "fst k' = delivered xs"
      "read_cb ev gathering loop revents s u (replicate n (Err EINTR) @ Ret (length x) x # delivered xs, tr) =
        Some (Done (s\<lparr>read_buffer := b\<rparr>, u @ x), k')"
    using read_event [OF gathering_consumer Cons.prems(3) r assms(1,2) x(1), of u loop n "length x" "delivered xs" tr]
      x(2) Cons.prems(4) by (auto simp: gathering_feed)
  obtain tr1 where k': "k' = (delivered xs, tr1)" using e(5) by (cases k') auto
  from Cons.IH [of "s\<lparr>read_buffer := b\<rparr>" "u @ x" tr1] Cons.prems e(1-4)
  obtain s' tr' where "read_events ev gathering loop revents (length xs) (s\<lparr>read_buffer := b\<rparr>) (u @ x) (delivered xs, tr1) =
      Some (Done (s', (u @ x) @ concat (map snd xs)), ([], tr'))" "contents (read_buffer s') = []"
    by auto
  then show ?case by (simp add: p e(6) k')
qed simp

text \<open>
  C1. From one end of a pipe to the other: data given to \<open>sancus_write\<close> on a descriptor whose kernel makes
  progress, with short writes and interruptions, is written; when the bytes the kernel accepted come
  out in any chunks that fit the buffer of a stream, again with interruptions, the application of
  the stream gets exactly the data, in order, each byte once, and the buffer is left empty.
\<close>

theorem pipe_end_to_end:
  assumes "length data \<le> length (filter progress t)" and "list_all (\<lambda>a. \<forall>e. a = Err e \<longrightarrow> e = EINTR) t"
    and "sancus_write fd data (t, []) = (r, (t', tr))"
    and "concat (map snd xs) = written fd tr"
    and "list_all (\<lambda>(n, x). x \<noteq> [] \<and> length x \<le> unat sz) xs" and "unat sz < 2 ^ 32" and "unat sz \<le> length buf" and "0 < sz" and "0 \<le> rfd"
    and "revents AND EV_ERROR ev = 0" and "revents AND EV_READ ev \<noteq> 0"
  shows "r = Done (int (length data)) \<and>
    (\<exists>s s' tr'. sancus_stream_init ev s0 rfd (Some buf) sz = Inr (1, s) \<and>
      read_events ev gathering loop revents (length xs) s [] (delivered xs, []) = Some (Done (s', data), ([], tr')) \<and>
      contents (read_buffer s') = [])"
proof (intro conjI)
  let ?b = "\<lparr>b_buf = buf, b_base = 0, b_len = 0, b_size = sz\<rparr>"
  let ?s = "s0\<lparr>read_watcher := snd (ev_init ev (read_watcher s0) Read_cb rfd (EV_READ ev)), read_buffer := ?b\<rparr>"
  have r: "r = Done (int (length data))" and w: "written fd tr = data"
    using write_loop_ends [OF assms(1), of fd 0 "[]"] assms(2,3) by (auto simp: sancus_write_def list_all_iff)
  show "r = Done (int (length data))" by (rule r)
  have "ucast (ucast sz :: u32) = sz"
    using assms(6) cast_u32 [of "unat sz"] by simp
  then have i: "sancus_stream_init ev s0 rfd (Some buf) sz = Inr (1, ?s)"
    using assms(8,9) by (simp add: sancus_stream_init_def sancus_buffer_bind_def)
  have "buf_wf ?b" "contents ?b = []" using assms(6,7) by (simp_all add: buf_wf_def contents_def)
  with gathering_events [OF assms(10,11), of ?s xs loop "[]" "[]"] assms(4-6) w
  obtain s' tr' where "read_events ev gathering loop revents (length xs) ?s [] (delivered xs, []) = Some (Done (s', data), ([], tr'))"
      "contents (read_buffer s') = []" by auto
  with i show "\<exists>s s' tr'. sancus_stream_init ev s0 rfd (Some buf) sz = Inr (1, s) \<and>
      read_events ev gathering loop revents (length xs) s [] (delivered xs, []) = Some (Done (s', data), ([], tr')) \<and>
      contents (read_buffer s') = []" by blast
qed

theorem pipe_end_to_end_witness:
  "fst (sancus_write 5 [1, 2, 3] ([Ret 1 [], Err EINTR, Ret 9 [], Ret 1 []], [])) = Done 3 \<and>
   (\<exists>s s' tr'. sancus_stream_init (sancus_ev\<lparr>EV_READ := 1, EV_ERROR := 4\<rparr>)
        \<lparr>read_watcher = \<lparr>ev_fd = 0, ev_cb = Read_cb\<rparr>, read_buffer = \<lparr>b_buf = [], b_base = 0, b_len = 0, b_size = 0\<rparr>\<rparr>
        6 (Some [9, 9]) 2 = Inr (1, s) \<and>
      read_events (sancus_ev\<lparr>EV_READ := 1, EV_ERROR := 4\<rparr>) gathering \<lparr>ev_loop_now = TIMESPEC_INIT 0 0\<rparr> 1 2 s []
        ([Ret 2 [1, 2], Err EINTR, Ret 1 [3]], []) = Some (Done (s', [1, 2, 3]), ([], tr')))"
proof -
  let ?t = "[Ret 1 [], Err EINTR, Ret 9 [], Ret 1 []]"
  let ?tr = "[(Write 5 [1, 2, 3], Ret 1 []), (Write 5 [2, 3], Err EINTR), (Write 5 [2, 3], Ret 2 [])]"
  have w: "sancus_write 5 [1, 2, 3] (?t, []) = (Done 3, ([Ret 1 []], ?tr))"
    by (simp add: sancus_write_def write_loop.simps sbind_def)
  have d: "delivered [(0, [1, 2]), (1, [3])] = [Ret 2 [1, 2], Err EINTR, Ret 1 [3]]" "length [(0, [1, 2]), (1, [3])] = 2"
    by (simp_all add: numeral_2_eq_2)
  let ?ev = "sancus_ev\<lparr>EV_READ := 1, EV_ERROR := 4\<rparr> :: unit ev_api"
  have h: "length [1, 2, 3 :: byte] \<le> length (filter progress ?t)" "list_all (\<lambda>a. \<forall>e. a = Err e \<longrightarrow> e = EINTR) ?t"
      "concat (map snd [(0, [1, 2]), (1, [3])]) = written 5 ?tr"
      "list_all (\<lambda>(n, x). x \<noteq> [] \<and> length x \<le> unat (2 :: u64)) [(0 :: nat, [1, 2 :: byte]), (1, [3])]"
      "unat (2 :: u64) < 2 ^ 32" "unat (2 :: u64) \<le> length [9, 9 :: byte]" "0 < (2 :: u64)" "0 \<le> (6 :: int)"
      "1 AND EV_ERROR ?ev = 0" "1 AND EV_READ ?ev \<noteq> 0"
    by simp_all
  have "fst (sancus_write 5 [1, 2, 3] (?t, [])) = Done 3" unfolding w by simp
  with pipe_end_to_end [OF h(1,2) w h(3-), of "\<lparr>read_watcher = \<lparr>ev_fd = 0, ev_cb = Read_cb\<rparr>,
      read_buffer = \<lparr>b_buf = [], b_base = 0, b_len = 0, b_size = 0\<rparr>\<rparr>" "\<lparr>ev_loop_now = TIMESPEC_INIT 0 0\<rparr>", unfolded d]
  show ?thesis by blast
qed

subsection \<open>From building a netlink message to reading its attributes\<close>

text \<open>
  What a sender does with the library: a header, the attributes, then the type and the port in the
  header; the datagram is the message. The receiver's application reads the attributes.
\<close>

definition nl_datagram :: "byte list \<Rightarrow> nat \<Rightarrow> nat \<Rightarrow> nat \<Rightarrow> (nat \<times> byte list) list \<Rightarrow> byte list option exec" where
  "nl_datagram m buflen t pid as =
     ebind (sancus_nl_msg_put_header m 0) (\<lambda>(nlh, m).
     ebind (put_attrs m nlh buflen as) (\<lambda>(ok, m).
       if \<not> ok then Inr None
       else ebind (put_le 2 m (nlh + 4) t) (\<lambda>m.
       ebind (put_le 4 m (nlh + 12) pid) (\<lambda>m.
       ebind (nlmsg_len m nlh) (\<lambda>l.
       ebind (mem_get nlh l m) (\<lambda>x. Inr (Some x)))))))"

definition attr_reader :: "('w, (nat \<times> byte list) list list) sancus_nl_receiver_settings" where
  "attr_reader =
     \<lparr>on_message = \<lambda>m nlh s u.
        (case sancus_nl_attr_parse m nlh 0 (collect m) [] of
           Some (Inr (_, as)) \<Rightarrow> sret (True, s, u @ [as])
         | Some (Inl e) \<Rightarrow> sfault e
         | None \<Rightarrow> sret (False, s, u)),
      nl_on_error = \<lambda>e s u. sret (s, u), attribute_offset = 0\<rparr>"

lemma get_copy:
  assumes "l \<le> length m" and "l \<le> length stack" and "j + n \<le> l"
  shows "mem_get j n (overwrite 0 (take l m) stack) = mem_get j n m"
proof -
  have "take n (drop j (overwrite 0 (take l m) stack)) = take n (drop j m)"
    using assms by (simp add: overwrite_def drop_take min_def)
  then show ?thesis using assms by simp
qed

lemma nl_datagram_sent:
  assumes "buflen \<le> length m" and "16 + attrs_size as \<le> buflen" and "buflen < 65536" and "list_all (\<lambda>(t, d). t < 16384) as"
    and "t < 65536" and "pid < 2 ^ 32"
  shows "\<exists>m'. nl_datagram m buflen t pid as = Inr (Some (take (16 + attrs_size as) m')) \<and>
    msg_wf m' 0 buflen (16 + attrs_size as) \<and> attrs_at m' 16 (16 + attrs_size as) as \<and>
    nlmsg_type m' 0 = Inr t \<and> nlmsg_pid m' 0 = Inr pid"
proof -
  let ?l = "16 + attrs_size as"
  obtain m1 m2 where m: "sancus_nl_msg_put_header m 0 = Inr (0, m1)" "put_attrs m1 0 buflen as = Inr (True, m2)"
      "msg_wf m2 0 buflen ?l" "attrs_at m2 16 ?l as"
    using build_attrs [of 0 buflen m as] assms(1-4) by auto
  note w = msg_wfD [OF m(3)]
  let ?m3 = "overwrite 4 (le_enc 2 t) m2"
  let ?m4 = "overwrite 12 (le_enc 4 pid) ?m3"
  have len: "16 \<le> length m2" using w(2,5,6) by linarith
  have same: "mem_get j n ?m4 = mem_get j n m2" if "j + n \<le> 4 \<or> 16 \<le> j" for j n
  proof -
    have "mem_get j n ?m4 = mem_get j n ?m3" by (rule mem_get_disjoint) (use that len in auto)
    also have "\<dots> = mem_get j n m2" by (rule mem_get_disjoint) (use that len in auto)
    finally show ?thesis .
  qed
  have l4: "nlmsg_len ?m4 0 = Inr ?l" using w(1) same [of 0 4] by (simp add: nlmsg_len_def get_le_def)
  have wf: "msg_wf ?m4 0 buflen ?l" using m(3) l4 len by (simp add: msg_wf_def)
  moreover have "attrs_at ?m4 16 ?l as" using m(4) same by (intro attrs_at_frame [OF m(4)]) simp
  moreover have "nlmsg_type ?m4 0 = Inr t" "nlmsg_pid ?m4 0 = Inr pid"
    using len assms(5,6) by (simp_all add: nlmsg_type_def nlmsg_pid_def get_le_disjoint get_le_same)
  moreover have "nl_datagram m buflen t pid as = Inr (Some (take ?l ?m4))"
    using m(1,2) l4 len msg_wfD(5,6) [OF wf] by (simp add: nl_datagram_def)
  ultimately show ?thesis by blast
qed

text \<open>
  C2. From building a netlink message to reading it: the datagram made of a header and any attributes that
  fit the buffer, with a type of the bus and a port the receiver takes, arrives at a receiver with
  any contents in its buffer; its application is called once and reads exactly the attributes that
  were put, with their types and payloads and in order, and the receiver stays open.
\<close>

theorem nl_end_to_end:
  assumes "buflen \<le> length m" and "16 + attrs_size as \<le> buflen" and "buflen \<le> 65532" and "list_all (\<lambda>(t, d). t < 16384) as"
    and "NLMSG_MIN_TYPE \<le> t" and "t < 65536" and "pid < 2 ^ 32"
    and "pid = 0 \<or> portid s = 0 \<or> unat (word_of_int (portid s) :: u32) = pid"
    and "16 + attrs_size as \<le> length stack"
    and "revents AND EV_READ ev \<noteq> 0" and "revents AND EV_ERROR ev = 0"
  shows "\<exists>x. nl_datagram m buflen t pid as = Inr (Some x) \<and>
    recv_cb ev attr_reader loop stack revents s u (Ret 0 x # Ret i y # r, tr) =
      Some (Done (s, u @ [as]), (Ret i y # r, tr @ [(Recvmsg (sancus_nl_receiver_fd s) (length stack), Ret 0 x)]))"
proof -
  let ?l = "16 + attrs_size as"
  obtain m' where m': "nl_datagram m buflen t pid as = Inr (Some (take ?l m'))" "msg_wf m' 0 buflen ?l" "attrs_at m' 16 ?l as"
      "nlmsg_type m' 0 = Inr t" "nlmsg_pid m' 0 = Inr pid"
    using nl_datagram_sent [of buflen m as t pid] assms(1-4,6,7) by auto
  note w = msg_wfD [OF m'(2)]
  let ?x = "take ?l m'" and ?m = "overwrite 0 (take ?l m') stack"
  have l: "?l \<le> length m'" "length ?x = ?l" using w(5,6) by auto
  have same: "mem_get j n ?m = mem_get j n m'" if "j + n \<le> ?l" for j n
    using that l(1) assms(9) by (intro get_copy) auto
  have f: "nlmsg_len ?m 0 = Inr ?l" "nlmsg_type ?m 0 = Inr t" "nlmsg_pid ?m 0 = Inr pid"
    using w(1) m'(4,5) same [of 0 4] same [of 4 2] same [of 12 4]
    by (simp_all add: nlmsg_len_def nlmsg_type_def nlmsg_pid_def get_le_def)
  have wf: "msg_wf ?m 0 ?l ?l" using f(1) w(2-4) assms(9) l by (simp add: msg_wf_def)
  have "attrs_at ?m 16 ?l as" using same by (intro attrs_at_frame [OF m'(3)]) simp
  with parse_built [OF wf _ assms(4)] have parse: "sancus_nl_attr_parse ?m 0 0 (collect ?m) [] = Some (Inr (1, as))" by simp
  have port: "sancus_nl_msg_portid_ok ?m 0 (unat (word_of_int (portid s) :: u32)) = Inr True"
    using f(3) assms(8) by (auto simp: sancus_nl_msg_portid_ok_def)
  have "recv_cb ev attr_reader loop stack revents s u (Ret 0 ?x # Ret i y # r, tr) =
      Some (Done (s, u @ [as]), (Ret i y # r, tr @ [(Recvmsg (sancus_nl_receiver_fd s) (length stack), Ret 0 ?x)]))"
    using receiver_one [OF assms(10,11) _ _ f(1) _ _ _ f(2) port, of attr_reader u True "u @ [as]" loop i y r tr]
      l assms(2,3,5,9) w(2,3) parse by (simp add: attr_reader_def align4_dvd)
  with m'(1) show ?thesis by blast
qed

theorem nl_end_to_end_witness:
  "\<exists>x. nl_datagram (replicate 40 7) 32 16 9 [(1, [8]), (2, [5, 6])] = Inr (Some x) \<and>
    recv_cb (sancus_ev\<lparr>EV_READ := 1, EV_ERROR := 4\<rparr>) attr_reader \<lparr>ev_loop_now = TIMESPEC_INIT 0 0\<rparr> (replicate 64 3) 1
      \<lparr>recv_watcher = \<lparr>ev_fd = 5, ev_cb = Recv_cb\<rparr>, portid = 9\<rparr> [] ([Ret 0 x, Ret 0 []], []) =
      Some (Done (\<lparr>recv_watcher = \<lparr>ev_fd = 5, ev_cb = Recv_cb\<rparr>, portid = 9\<rparr>, [[(1, [8]), (2, [5, 6])]]),
        ([Ret 0 []], [(Recvmsg 5 64, Ret 0 x)]))"
proof -
  let ?s = "\<lparr>recv_watcher = \<lparr>ev_fd = 5, ev_cb = Recv_cb\<rparr>, portid = 9\<rparr>" and ?as = "[(1, [8]), (2, [5, 6])] :: (nat \<times> byte list) list"
  let ?ev = "sancus_ev\<lparr>EV_READ := 1, EV_ERROR := 4\<rparr> :: unit ev_api"
  have h: "32 \<le> length (replicate 40 (7 :: byte))" "16 + attrs_size ?as \<le> 32" "(32 :: nat) \<le> 65532" "list_all (\<lambda>(t, d). t < 16384) ?as"
      "NLMSG_MIN_TYPE \<le> 16" "(16 :: nat) < 65536" "(9 :: nat) < 2 ^ 32"
      "9 = 0 \<or> portid ?s = 0 \<or> unat (word_of_int (portid ?s) :: u32) = 9"
      "16 + attrs_size ?as \<le> length (replicate 64 (3 :: byte))" "1 AND EV_READ ?ev \<noteq> 0" "1 AND EV_ERROR ?ev = 0"
    by (simp_all add: align4_def NLMSG_MIN_TYPE_def)
  from nl_end_to_end [OF h, of "\<lparr>ev_loop_now = TIMESPEC_INIT 0 0\<rparr>" "[]" 0 "[]" "[]" "[]"]
  show ?thesis by (simp add: sancus_nl_receiver_fd_def)
qed

subsection \<open>A server whose connections are streams\<close>

text \<open>
  A server that makes a stream of every connection, some events of it, and the closing of the streams.
\<close>

definition serving ::
  "'w ev_api \<Rightarrow> byte list \<Rightarrow> u64 \<Rightarrow> 'w sancus_stream \<Rightarrow> ('w, 'w sancus_stream list) sancus_tcp_server_settings" where
  "serving ev mem sz fresh =
     \<lparr>pre_bind = None,
      srv_on_connect = \<lambda>fd addr s u.
        sbind (slift (sancus_stream_init ev fresh fd (Some mem) sz)) (\<lambda>(_, c). sret (True, s, u @ [c])),
      srv_on_error = \<lambda>e s u. sret (s, u)\<rparr>"

fun accept_events ::
  "'w ev_api \<Rightarrow> ('w, 'u) sancus_tcp_server_settings \<Rightarrow> u32 \<Rightarrow> nat \<Rightarrow> 'w sancus_tcp_server \<Rightarrow> 'u \<Rightarrow>
   ('w sancus_tcp_server \<times> 'u) sys" where
  "accept_events ev st revents 0 s u = sret (s, u)"
| "accept_events ev st revents (Suc j) s u =
     sbind (connect_cb ev st revents s u) (\<lambda>(s, u). accept_events ev st revents j s u)"

fun close_all :: "'w ev_api \<Rightarrow> sancus_ev_loop \<Rightarrow> 'w sancus_stream list \<Rightarrow> unit sys" where
  "close_all ev loop [] = sret ()"
| "close_all ev loop (c # cs) = sbind (close_stream ev gathering loop c []) (\<lambda>_. close_all ev loop cs)"

definition serve ::
  "'w ev_api \<Rightarrow> sancus_ev_loop \<Rightarrow> byte list \<Rightarrow> u64 \<Rightarrow> 'w sancus_stream \<Rightarrow> u32 \<Rightarrow> nat \<Rightarrow> 'w sancus_tcp_server \<Rightarrow> nat sys" where
  "serve ev loop mem sz fresh revents j s =
     sbind (accept_events ev (serving ev mem sz fresh) revents j s []) (\<lambda>(_, cs).
     sbind (close_all ev loop cs) (\<lambda>_. sret (length cs)))"

text \<open>Some descriptors, each the given number of times.\<close>

fun repeated :: "int list \<Rightarrow> nat list \<Rightarrow> int list" where
  "repeated (fd # fds) (n # ns) = replicate n fd @ repeated fds ns"
| "repeated _ _ = []"

lemma repeated_none: "length fds = length ns \<Longrightarrow> repeated fds ns = [] \<Longrightarrow> repeated fds (map Suc ns) = fds"
  by (induction fds ns rule: repeated.induct) auto

abbreviation (input) stream_fds :: "'w sancus_stream list \<Rightarrow> int list" where
  "stream_fds \<equiv> map sancus_stream_fd"

lemma connect_serves:
  assumes "event_loop ev" and "kernel_ok k"
    and "\<And>cs k'. kernel_ok k' \<Longrightarrow> opn k' = opn k @ stream_fds cs \<Longrightarrow> cls k' = cls k \<Longrightarrow> again k' = again k \<Longrightarrow>
      held k' = held k @ stream_fds cs \<Longrightarrow> list_all (\<lambda>c. 0 \<le> sancus_stream_fd c) cs \<Longrightarrow> Q (s, u @ cs) k'"
  shows "post (connect_cb ev (serving ev mem sz fresh) revents s u) Q k"
proof -
  have none: "Q (s, u) k" using assms(3) [of k "[]"] assms(2) by simp
  have acc: "post (sancus_accept (ev_fd (connect s))) (\<lambda>x. post (case x of (fd, addr) \<Rightarrow>
      if fd < 0 then srv_on_error (serving ev mem sz fresh) SANCUS_TCP_SERVER_ACCEPT_ERROR s u
      else sbind (srv_on_connect (serving ev mem sz fresh) fd addr s u) (\<lambda>(keep, s, u).
        if \<not> keep then sbind (sancus_close2 (Some fd)) (\<lambda>_. sret (s, u)) else sret (s, u))) Q) k"
  proof (rule post_accept [OF assms(2)])
    fix e l
    assume "kernel_ok l" "same_fds k l"
    then show "post (case (-1 :: int, [] :: byte list) of (fd, addr) \<Rightarrow>
      if fd < 0 then srv_on_error (serving ev mem sz fresh) SANCUS_TCP_SERVER_ACCEPT_ERROR s u
      else sbind (srv_on_connect (serving ev mem sz fresh) fd addr s u) (\<lambda>(keep, s, u).
        if \<not> keep then sbind (sancus_close2 (Some fd)) (\<lambda>_. sret (s, u)) else sret (s, u))) Q l"
      using assms(3) [of l "[]"] by (simp add: serving_def same_fds_def)
  next
    fix n x l
    assume l: "kernel_ok l" "opn l = opn k @ [int n]" "cls l = cls k" "again l = again k" "held l = held k @ [int n]"
    have "Q (s, u @ [c]) l" if "sancus_stream_init ev fresh (int n) (Some mem) sz = Inr (r, c)" for r c
    proof -
      have "sancus_stream_fd c = int n"
        using that event_loop.init_fd [OF assms(1)]
        by (auto simp: sancus_stream_init_def sancus_stream_fd_def chk_eq_Inr ebind_eq_Inr)
      then show ?thesis using l by (intro assms(3)) simp_all
    qed
    then show "post (case (int n, x) of (fd, addr) \<Rightarrow>
      if fd < 0 then srv_on_error (serving ev mem sz fresh) SANCUS_TCP_SERVER_ACCEPT_ERROR s u
      else sbind (srv_on_connect (serving ev mem sz fresh) fd addr s u) (\<lambda>(keep, s, u).
        if \<not> keep then sbind (sancus_close2 (Some fd)) (\<lambda>_. sret (s, u)) else sret (s, u))) Q l"
      by (auto simp: serving_def)
  qed
  show ?thesis using acc none by (simp add: connect_cb_def)
qed

lemma events_serve:
  fixes ev :: "'w ev_api"
  assumes "event_loop ev" and "kernel_ok k"
    and "\<And>s' cs k'. kernel_ok k' \<Longrightarrow> opn k' = opn k @ stream_fds cs \<Longrightarrow> cls k' = cls k \<Longrightarrow> again k' = again k \<Longrightarrow>
      held k' = held k @ stream_fds cs \<Longrightarrow> list_all (\<lambda>c. 0 \<le> sancus_stream_fd c) cs \<Longrightarrow> Q (s', u @ cs) k'"
  shows "post (accept_events ev (serving ev mem sz fresh) revents j s u) Q k"
  using assms(2,3)
proof (induction j arbitrary: s u k)
  case 0
  then show ?case using 0(2) [of k "[]" s] unfolding accept_events.simps post_sret by simp
next
  case (Suc j)
  show ?case
    unfolding accept_events.simps post_sbind
  proof (rule connect_serves [OF assms(1) Suc.prems(1)])
    fix cs :: "'w sancus_stream list" and l
    assume l: "kernel_ok l" "opn l = opn k @ stream_fds cs" "cls l = cls k" "again l = again k" "held l = held k @ stream_fds cs"
      "list_all (\<lambda>c. 0 \<le> sancus_stream_fd c) cs"
    have "post (accept_events ev (serving ev mem sz fresh) revents j s (u @ cs)) Q l"
    proof (rule Suc.IH [OF l(1)])
      fix s' l' and ds :: "'w sancus_stream list"
      assume "kernel_ok l'" "opn l' = opn l @ stream_fds ds" "cls l' = cls l" "again l' = again l" "held l' = held l @ stream_fds ds"
        "list_all (\<lambda>c. 0 \<le> sancus_stream_fd c) ds"
      then show "Q (s', (u @ cs) @ ds) l'" using l Suc.prems(2) [of l' "cs @ ds" s'] by simp
    qed
    then show "post (case (s, u @ cs) of (s, u) \<Rightarrow> accept_events ev (serving ev mem sz fresh) revents j s u) Q l" by simp
  qed
qed

lemma all_closed:
  assumes "event_loop ev" and "kernel_ok k" and "list_all (\<lambda>c. 0 \<le> sancus_stream_fd c) cs"
    and "\<And>ns k'. kernel_ok k' \<Longrightarrow> length ns = length cs \<Longrightarrow> opn k' = opn k \<Longrightarrow>
      cls k' = cls k @ repeated (stream_fds cs) (map Suc ns) \<Longrightarrow> again k' = again k @ repeated (stream_fds cs) ns \<Longrightarrow>
      held k' = filter (\<lambda>x. x \<notin> set (stream_fds cs)) (held k) \<Longrightarrow> Q () k'"
  shows "post (close_all ev loop cs) Q k"
  using assms(2-)
proof (induction cs arbitrary: k)
  case (Cons c cs)
  let ?c = "sancus_stream_stop ev loop c"
  have w: "read_watcher ?c = event_loop.halt ev loop (read_watcher c)"
    by (simp add: sancus_stream_stop_def event_loop.halt_def [OF assms(1)])
  have fd: "ev_fd (read_watcher ?c) = sancus_stream_fd c" "\<not> ev_active ev (read_watcher ?c)"
    using event_loop.halt_fd [OF assms(1)] event_loop.halt_inactive [OF assms(1)] by (simp_all add: w sancus_stream_fd_def)
  have "post (close_watcher (read_watcher ?c)) (\<lambda>w. post (close_all ev loop cs) Q) k"
  proof (rule post_close_watcher [OF Cons.prems(1)], unfold fd(1))
    fix n l
    assume l: "kernel_ok l" "opn l = opn k" "cls l = cls k @ replicate (Suc n) (sancus_stream_fd c)"
      "again l = again k @ replicate n (sancus_stream_fd c)" "held l = filter (\<lambda>x. x \<noteq> sancus_stream_fd c) (held k)"
    show "post (close_all ev loop cs) Q l"
    proof (rule Cons.IH [OF l(1)])
      show "list_all (\<lambda>c. 0 \<le> sancus_stream_fd c) cs" using Cons.prems(2) by simp
      fix ns l'
      assume "kernel_ok l'" "length ns = length cs" "opn l' = opn l" "cls l' = cls l @ repeated (stream_fds cs) (map Suc ns)"
        "again l' = again l @ repeated (stream_fds cs) ns" "held l' = filter (\<lambda>x. x \<notin> set (stream_fds cs)) (held l)"
      then show "Q () l'" using l by (intro Cons.prems(3) [of l' "n # ns"]) (simp_all add: conj_commute)
    qed
  qed
  then show ?case
    using fd Cons.prems(2)
    by (simp add: close_stream_def sancus_stream_close_def gathering_def) (erule post_mono, simp)
next
  case Nil
  show ?case unfolding close_all.simps post_sret by (rule Nil(3) [of _ "[]"]) (simp_all add: Nil(1))
qed

text \<open>
  C7. A server that makes a stream of each connection, after any number of events and whatever the kernel
  answers: every descriptor that was accepted belongs to a stream, and when the streams are closed none of
  them is left open, each has been given to \<open>close\<close> in the order they were accepted, and nothing else has.
  A descriptor takes one call, and one more for each call on it that was interrupted, so that without an
  interruption each is closed exactly once. (On Linux, where an interrupted \<open>close\<close> has released the
  descriptor, every further call is one too many; it is the wrapper that makes it.)
\<close>

theorem server_session:
  assumes "event_loop ev" and "list_all errno_ok t"
    and "serve ev loop mem sz fresh revents j s (t, []) = (Done n, k')"
  shows "length (opn k') = n \<and> held k' = [] \<and>
    (\<exists>ns. length ns = n \<and> cls k' = repeated (opn k') (map Suc ns) \<and> again k' = repeated (opn k') ns) \<and>
    (again k' = [] \<longrightarrow> cls k' = opn k')"
proof -
  have "post (serve ev loop mem sz fresh revents j s) (\<lambda>n k. length (opn k) = n \<and> held k = [] \<and>
      (\<exists>ns. length ns = n \<and> cls k = repeated (opn k) (map Suc ns) \<and> again k = repeated (opn k) ns)) (t, [])"
    unfolding serve_def post_sbind
    using assms(2)
    by (intro events_serve [OF assms(1)])
      (auto simp: kernel_ok_def kernel_account intro!: all_closed [OF assms(1)])
  from post_Done [OF this assms(3)] show ?thesis using repeated_none by metis
qed

theorem server_session_witness:
  "\<exists>k'. serve (sancus_ev\<lparr>EV_READ := 1, EV_WRITE := 2, EV_ERROR := 4\<rparr>) \<lparr>ev_loop_now = TIMESPEC_INIT 0 0\<rparr> [9, 9] 2
      \<lparr>read_watcher = \<lparr>ev_fd = 0, ev_cb = Read_cb\<rparr>, read_buffer = \<lparr>b_buf = [], b_base = 0, b_len = 0, b_size = 0\<rparr>\<rparr> 1 2
      \<lparr>connect = \<lparr>ev_fd = 6, ev_cb = Connect_cb\<rparr>\<rparr>
      ([Err EINTR, Ret 7 [2], Ret 8 [3], Ret 0 [], Err EINTR, Ret 0 []], []) = (Done 2, k') \<and> held k' = [] \<and> length (opn k') = 2"
proof -
  let ?ev = "sancus_ev\<lparr>EV_READ := 1, EV_WRITE := 2, EV_ERROR := 4\<rparr> :: unit ev_api"
  let ?loop = "\<lparr>ev_loop_now = TIMESPEC_INIT 0 0\<rparr>" and ?s = "\<lparr>connect = \<lparr>ev_fd = 6, ev_cb = Connect_cb\<rparr>\<rparr>"
  let ?f = "\<lparr>read_watcher = \<lparr>ev_fd = 0, ev_cb = Read_cb\<rparr>, read_buffer = \<lparr>b_buf = [], b_base = 0, b_len = 0, b_size = 0\<rparr>\<rparr>"
  let ?t = "[Err EINTR, Ret 7 [2], Ret 8 [3], Ret 0 [], Err EINTR, Ret 0 []]"
  have e: "event_loop ?ev" by (rule event_loop_flags) (rule hdr.event_loop_axioms)
  have i: "sancus_stream_init ?ev ?f fd (Some [9, 9]) 2 =
      Inr (1, \<lparr>read_watcher = \<lparr>ev_fd = fd, ev_cb = Read_cb\<rparr>, read_buffer = \<lparr>b_buf = [9, 9], b_base = 0, b_len = 0, b_size = 2\<rparr>\<rparr>)"
    if "0 \<le> fd" for fd
    using that by (simp add: sancus_stream_init_def sancus_buffer_bind_def sancus_ev_def sancus_ev_fd_init_def)
  let ?c = "\<lambda>fd. \<lparr>read_watcher = \<lparr>ev_fd = fd, ev_cb = Read_cb\<rparr>, read_buffer = \<lparr>b_buf = [9, 9], b_base = 0, b_len = 0, b_size = 2\<rparr>\<rparr>"
  have a: "connect_cb ?ev (serving ?ev [9, 9] 2 ?f) 1 ?s u (replicate m (Err EINTR) @ Ret n x # as, tr) =
      (Done (?s, u @ [?c (int n)]), (as, tr @ replicate m (Accept 6, Err EINTR) @ [(Accept 6, Ret n x)]))" for m u n x as tr
    by (simp add: connect_cb_def serving_def sbind_def raccept.retries accept_result_def i)
  have c: "close_stream ?ev gathering ?loop (?c fd) [] (replicate m (Err EINTR) @ Ret n x # as, tr) =
      (Done (?c (-1), []), (as, tr @ replicate m (Close fd, Err EINTR) @ [(Close fd, Ret 0 [])]))" if "0 \<le> fd" for fd m n x as tr
    using that by (simp add: close_stream_def sancus_stream_stop_def sancus_stream_close_def sancus_ev_def sancus_ev_is_active_def
        sbind_def close_watcher_retries gathering_def)
  obtain k' where r: "serve ?ev ?loop [9, 9] 2 ?f 1 2 ?s (?t, []) = (Done 2, k')"
    using a [of "[]" 1 7 "[2]" "[Ret 8 [3], Ret 0 [], Err EINTR, Ret 0 []]" "[]"]
      a [of "[?c 7]" 0 8 "[3]" "[Ret 0 [], Err EINTR, Ret 0 []]"] c [of 7 0 0 "[]" "[Err EINTR, Ret 0 []]"] c [of 8 1 0 "[]" "[]"]
    by (simp add: serve_def numeral_2_eq_2 sbind_def)
  with server_session [OF e _ r] show ?thesis by auto
qed

subsection \<open>From the macro to the descriptor\<close>

text \<open>A program whose default backend is the one of the library, with the data \<open>ctx\<close>, at the time \<open>now\<close>.\<close>

definition fd_env :: "timespec \<Rightarrow> sancus_logger_fd_backend_data \<Rightarrow> log_env" where
  "fd_env now ctx =
     \<lparr>le_default = fd_backend,
      le_call = \<lambda>be level p m d.
        if be = fd_backend then sbind (fd_logger_write now level p m d (Some ctx)) (\<lambda>(rc, _). sret rc) else sret 0\<rparr>"

text \<open>The prefix and the message of a line, cut to their buffers and without the blanks at the end.\<close>

abbreviation shown_prefix :: "byte list \<Rightarrow> byte list" where
  "shown_prefix s \<equiv> rstrip {32, 9, 10} (prefix_part 128 s)"

abbreviation shown_message :: "byte list \<Rightarrow> byte list" where
  "shown_message t \<equiv> rstrip {32, 9, 10} (message_part t)"

lemma info_call:
  assumes "0 \<notin> set s" "s \<noteq> []" "length s \<noteq> 128" "f \<noteq> 0" "shown_prefix s \<noteq> []"
    and "sancus_logger_has_level (Some (Logger None (Some (s @ 0 # r)) msk None None)) SANCUS_LOG_INFO"
    and "fd_logger_write now 2 (shown_prefix s) (shown_message t) [] (Some ctx) k = (Done (rc, c), k')"
  shows "sancus_log_info (fd_env now ctx) (Some (Logger None (Some (s @ 0 # r)) msk None None)) (Some (f # fs)) (Some t) k =
    (Done (), k')"
proof -
  have "sancus_logger__vprintf (fd_env now ctx) (Some (Logger None (Some (s @ 0 # r)) msk None None)) 2 None 0
      (Some (f # fs)) (Some t) k = (Done (int_cast rc), k')"
    unfolding vprintf_calls [OF assms(1-5)] using assms(7) by (simp add: fd_env_def sbind_def)
  then show ?thesis
    using assms(6)
    by (simp add: sancus_log_info_def sancus_log_info2_def sancus_log__if_level_def sancus_log__info_def
        sancus_logger__printf_def sbind_def)
qed

lemma info_gate:
  "sancus_logger_has_level (Some (Logger None p msk None None)) SANCUS_LOG_INFO \<longleftrightarrow> msk = 0 \<or> bit msk 2"
proof -
  have "4 AND msk \<noteq> 0 \<longleftrightarrow> bit msk 2" using bit_iff_and_push_bit_not_eq_0 [of msk 2] by (simp add: and.commute)
  then show ?thesis by (simp add: has_level_mask)
qed



end
